(* ===== verification/Kernel_Prelude.thy ===== *)
theory Kernel_Prelude
  imports Main "HOL-Library.Word"
begin

text \<open>
  Shared vocabulary of the development.

  \<^item> Machine integers: \<open>usize\<close>, \<open>u8\<close>, \<open>u32\<close>, \<open>i32\<close>. The Makefile builds
    the kernel with \<open>MODE := release\<close>, so arithmetic on them wraps around, as it does on
    HOL words.
  \<^item> \<open>kernel_error\<close> is the enum \<open>KernelError\<close> of src/lang/error.rs. The payloads
    that belong to other crates (the file system, the ELF parser, the drivers) are uninterpreted
    types. A \<open>Signal\<close> is represented by its discriminant.
  \<^item> \<open>outcome\<close> is Rust's \<open>Result\<close> with two more values: \<open>Panic\<close>, the
    result of \<open>assert!\<close>, \<open>unwrap\<close> on an error, \<open>unreachable!\<close> or an index out
    of range (src/lang/panic.rs shuts the machine down in that case), and \<open>Hang\<close>, the result
    of a loop that never ends.
  \<^item> A function that changes state is a function from the state to an outcome and a new state
    (\<open>kop\<close>); the state is returned on errors too, because the code keeps what it has
    written when it returns early with the question mark operator.
\<close>

unbundle bit_operations_syntax

section \<open>Machine integers\<close>

type_synonym usize = "64 word"
type_synonym u8 = "8 word"
type_synonym u32 = "32 word"
type_synonym i32 = "32 word"

section \<open>Errors\<close>

typedecl lib_error
typedecl virtio_error
typedecl mmio_error
typedecl ffs_error
typedecl elf_parse_error
typedecl string_parse_error
typedecl utf8_error
typedecl fdt_error

datatype kernel_error =
    EOB
  | IdExhausted
  | IdNotDeallocable usize
  | InvaidSyscallId usize
  | OversizeArgs
  | FrameExhausted
  | FrameNotDeallocable usize
  | AreaAllocFailed usize usize
  | AreaDeallocFailed usize usize
  | AreaNotExists usize usize
  | VPNOutOfArea usize usize usize
  | PPNAlreadyMapped usize
  | PPNNotMapped usize
  | VPNAlreadyMapped usize
  | VPNNotMapped usize
  | AllocFullPageMapper usize
  | DeallocEmptyPageMapper usize
  | InvaidPageTablePerm usize
  | InvalidHeadlessTask
  | UnloadableTask
  | ProcessHaveNotTask
  | ForkWithNoRootTask usize
  | ExecWithMultiTasks usize
  | InvalidOpenFlags u32
  | FileDescriptorExhausted
  | FileDescriptorDoesNotExist usize
  | FileDoesNotExists string
  | FileMustBeReadable u32
  | FileMustBeWritable u32
  | FileMustBeExecutable u32
  | DuplicateSignal usize
  | DoubleLockMutex
  | DoubleUnlockMutex
  | MutexExhausted
  | MutexDoesNotExist usize
  | SemaphoreExhausted
  | SemaphoreDoesNotExist usize
  | CondvarExhausted
  | CondvarDoesNotExist usize
  | LibError lib_error
  | DriverVirtIOError virtio_error
  | DriverMMIOError mmio_error
  | FileSystemError ffs_error
  | ParseElfError elf_parse_error
  | ParseStringError string_parse_error
  | ParseUtf8Error utf8_error
  | ParseFdtError fdt_error

datatype 'a outcome = Ok 'a | Err kernel_error | Panic | Hang

type_synonym ('s, 'a) kop = "'s \<Rightarrow> 'a outcome \<times> 's"

section \<open>Sequencing of fallible operations\<close>

definition kret :: "'a \<Rightarrow> ('s, 'a) kop" where
  "kret x s = (Ok x, s)"

definition kerr :: "kernel_error \<Rightarrow> ('s, 'a) kop" where
  "kerr e s = (Err e, s)"

definition kpanic :: "('s, 'a) kop" where
  "kpanic s = (Panic, s)"

text \<open>\<open>kbind f g\<close> is \<open>let x = f()?; g(x)\<close>.\<close>

definition kbind :: "('s, 'a) kop \<Rightarrow> ('a \<Rightarrow> ('s, 'b) kop) \<Rightarrow> ('s, 'b) kop" where
  "kbind f g s =
     (case f s of
        (Ok x, s') \<Rightarrow> g x s'
      | (Err e, s') \<Rightarrow> (Err e, s')
      | (Panic, s') \<Rightarrow> (Panic, s')
      | (Hang, s') \<Rightarrow> (Hang, s'))"

text \<open>\<open>f().unwrap()\<close>: an error is a panic.\<close>

definition kunwrap :: "('s, 'a) kop \<Rightarrow> ('s, 'a) kop" where
  "kunwrap f s =
     (case f s of
        (Ok x, s') \<Rightarrow> (Ok x, s')
      | (Err e, s') \<Rightarrow> (Panic, s')
      | (Panic, s') \<Rightarrow> (Panic, s')
      | (Hang, s') \<Rightarrow> (Hang, s'))"

text \<open>\<open>assert!(b)\<close>.\<close>

definition kassert :: "bool \<Rightarrow> ('s, unit) kop" where
  "kassert b = (if b then kret () else kpanic)"

text \<open>\<open>for x in xs { f(x)?; }\<close>.\<close>

fun kfor :: "'a list \<Rightarrow> ('a \<Rightarrow> ('s, unit) kop) \<Rightarrow> ('s, unit) kop" where
  "kfor [] f = kret ()"
| "kfor (x # xs) f = kbind (f x) (\<lambda>_. kfor xs f)"

text \<open>\<open>BTreeSet::pop_first\<close> of the standard library: the least element and the rest.\<close>

definition pop_first :: "'a::linorder set \<Rightarrow> ('a \<times> 'a set) option" where
  "pop_first S = (if S = {} then None else Some (Min S, S - {Min S}))"

section \<open>Collections of facts\<close>

named_theorems kop_defs \<open>unfolding of the sequencing operators\<close>

declare kret_def [kop_defs] kerr_def [kop_defs] kpanic_def [kop_defs] kassert_def [kop_defs]

section \<open>Lemmas on sequencing\<close>

lemma kbind_Ok [simp]: "f s = (Ok x, s') \<Longrightarrow> kbind f g s = g x s'"
  by (simp add: kbind_def)

lemma kbind_Err [simp]: "f s = (Err e, s') \<Longrightarrow> kbind f g s = (Err e, s')"
  by (simp add: kbind_def)

lemma kbind_Panic [simp]: "f s = (Panic, s') \<Longrightarrow> kbind f g s = (Panic, s')"
  by (simp add: kbind_def)

lemma kbind_Hang [simp]: "f s = (Hang, s') \<Longrightarrow> kbind f g s = (Hang, s')"
  by (simp add: kbind_def)

lemma kret_apply [simp]: "kret x s = (Ok x, s)"
  by (simp add: kret_def)

lemma kerr_apply [simp]: "kerr e s = (Err e, s)"
  by (simp add: kerr_def)

lemma kpanic_apply [simp]: "kpanic s = (Panic, s)"
  by (simp add: kpanic_def)

lemma kassert_True [simp]: "kassert True = kret ()"
  by (simp add: kassert_def)

lemma kassert_False [simp]: "kassert False = kpanic"
  by (simp add: kassert_def)

lemma kbind_OkE:
  assumes "kbind f g s = (Ok y, t)"
  obtains x s' where "f s = (Ok x, s')" and "g x s' = (Ok y, t)"
  using assms by (auto simp: kbind_def split: prod.splits outcome.splits)

lemma kbind_cases:
  obtains (Ok) x s' where "f s = (Ok x, s')" and "kbind f g s = g x s'"
    | (Err) e s' where "f s = (Err e, s')" and "kbind f g s = (Err e, s')"
    | (Panic) s' where "f s = (Panic, s')" and "kbind f g s = (Panic, s')"
    | (Hang) s' where "f s = (Hang, s')" and "kbind f g s = (Hang, s')"
  by (cases "f s"; cases "fst (f s)") (auto simp: kbind_def)

lemma kbind_assoc: "kbind (kbind f g) h = kbind f (\<lambda>x. kbind (g x) h)"
  by (rule ext) (simp add: kbind_def split: prod.splits outcome.splits)

lemma kbind_kret [simp]: "kbind (kret x) g = g x"
  by (rule ext) (simp add: kbind_def)

lemma kunwrap_Ok [simp]: "f s = (Ok x, s') \<Longrightarrow> kunwrap f s = (Ok x, s')"
  by (simp add: kunwrap_def)

lemma kunwrap_Err [simp]: "f s = (Err e, s') \<Longrightarrow> kunwrap f s = (Panic, s')"
  by (simp add: kunwrap_def)

lemma kfor_append: "kfor (xs @ ys) f = kbind (kfor xs f) (\<lambda>_. kfor ys f)"
  by (induction xs) (simp_all add: kbind_assoc)

section \<open>Lemmas on machine integers and sets\<close>

lemma word_less_plus_one_iff:
  fixes x :: "'a::len word"
  assumes "x < m"
  shows "i < x + 1 \<longleftrightarrow> i \<le> x"
proof -
  have "unat m < 2 ^ LENGTH('a)" by (rule unsigned_less)
  then have "unat x + 1 < 2 ^ LENGTH('a)"
    using assms unfolding word_less_nat_alt by linarith
  then have "unat (x + 1) = unat x + 1"
    by (simp add: unat_word_ariths)
  then show ?thesis by (simp add: word_less_nat_alt word_le_nat_alt less_Suc_eq_le)
qed

lemma word_plus_one_le:
  fixes x :: "'a::len word"
  assumes "x < m"
  shows "x + 1 \<le> m"
  using assms by (simp add: inc_le)

lemma pop_first_None_iff [simp]: "pop_first S = None \<longleftrightarrow> S = {}"
  by (simp add: pop_first_def)

lemma pop_first_empty [simp]: "pop_first {} = None"
  by (simp add: pop_first_def)

lemma pop_first_SomeD:
  fixes S :: "'a::{linorder, finite} set"
  assumes "pop_first S = Some (x, T)"
  shows "x \<in> S" and "T = S - {x}" and "\<forall>y \<in> S. x \<le> y"
proof -
  from assms have ne: "S \<noteq> {}" and x: "x = Min S" and T: "T = S - {Min S}"
    by (auto simp: pop_first_def split: if_splits)
  show "x \<in> S" using ne x by simp
  show "T = S - {x}" using x T by simp
  show "\<forall>y \<in> S. x \<le> y" using x by simp
qed

end
