(* ===== verification/Recyclers.thy ===== *)
theory Recyclers
  imports Kernel_Prelude
begin

text \<open>
  The two recycling allocators of the kernel and the contract they share.

  \<^item> \<open>btree_id_allocator\<close>: \<open>BTreeIdAllocator\<close> of src/task/allocator.rs, which hands
    out process, task and kernel-stack ids, with the trackers of \<open>AutoRecycledIdAllocator\<close>.
  \<^item> \<open>btree_frame_allocator\<close>: \<open>BTreeSetFrameAllocator\<close> of src/memory/allocator.rs,
    which hands out physical page numbers.

  The locale \<open>recycler\<close> is their contract over the set of numbers that are handed out
  (\<open>owned\<close>) and the set of numbers that exist (\<open>pool\<close>); both are interpreted on it,
  and what a client relies on (no number is handed out twice, a returned number can be handed out
  again, dropping what was handed out never panics) is proved once.
\<close>

section \<open>The identifier allocator\<close>

record btree_id_allocator =
  current_id :: usize
  max_id :: usize
  ids_recycled :: "usize set"

definition id_allocator_new :: "usize \<Rightarrow> btree_id_allocator" where
  "id_allocator_new m = \<lparr>current_id = 0, max_id = m, ids_recycled = {}\<rparr>"

definition id_alloc :: "(btree_id_allocator, usize) kop" where
  "id_alloc a =
     (case pop_first (ids_recycled a) of
        Some (i, rest) \<Rightarrow> (Ok i, a\<lparr>ids_recycled := rest\<rparr>)
      | None \<Rightarrow>
          let i = current_id a in
          if max_id a \<le> i then (Err IdExhausted, a)
          else (Ok i, a\<lparr>current_id := current_id a + 1\<rparr>))"

definition id_dealloc :: "usize \<Rightarrow> (btree_id_allocator, unit) kop" where
  "id_dealloc i a =
     (if current_id a \<le> i \<or> i \<in> ids_recycled a then (Err (IdNotDeallocable i), a)
      else (Ok (), a\<lparr>ids_recycled := insert i (ids_recycled a)\<rparr>))"

text \<open>
  \<open>AutoRecycledIdAllocator::alloc\<close> wraps the id in a tracker, and dropping the tracker gives
  the id back and unwraps the result. The allocators that the kernel uses this way are fields of
  longer-lived objects or statics; \<open>alive\<close> is what \<open>Weak::upgrade\<close> finds.
\<close>

record id_tracker =
  tracker_id :: usize

definition auto_id_alloc :: "(btree_id_allocator, id_tracker) kop" where
  "auto_id_alloc = kbind id_alloc (\<lambda>i. kret \<lparr>tracker_id = i\<rparr>)"

definition id_tracker_drop :: "bool \<Rightarrow> id_tracker \<Rightarrow> (btree_id_allocator, unit) kop" where
  "id_tracker_drop alive t =
     (if alive then kunwrap (id_dealloc (tracker_id t)) else kret ())"

text \<open>
  A client's history: trackers are acquired and dropped in any order. An acquisition that fails
  with an error leaves the live trackers as they are.
\<close>

datatype tracker_event = Acquire | Release nat

fun tracker_run :: "tracker_event list \<Rightarrow> (btree_id_allocator \<times> id_tracker list, unit) kop" where
  "tracker_run [] (a, ts) = (Ok (), (a, ts))"
| "tracker_run (Acquire # es) (a, ts) =
     (case auto_id_alloc a of
        (Ok t, a') \<Rightarrow> tracker_run es (a', ts @ [t])
      | (Err e, a') \<Rightarrow> tracker_run es (a', ts)
      | (Panic, a') \<Rightarrow> (Panic, (a', ts))
      | (Hang, a') \<Rightarrow> (Hang, (a', ts)))"
| "tracker_run (Release k # es) (a, ts) =
     (if k < length ts then
        (case id_tracker_drop True (ts ! k) a of
           (Ok _, a') \<Rightarrow> tracker_run es (a', take k ts @ drop (Suc k) ts)
         | (Err e, a') \<Rightarrow> (Err e, (a', ts))
         | (Panic, a') \<Rightarrow> (Panic, (a', ts))
         | (Hang, a') \<Rightarrow> (Hang, (a', ts)))
      else tracker_run es (a, ts))"

section \<open>The frame allocator\<close>

record btree_frame_allocator =
  current_ppn :: usize
  end_ppn :: usize
  frames_recycled :: "usize set"

definition frame_allocator_new :: "btree_frame_allocator" where
  "frame_allocator_new = \<lparr>current_ppn = 0, end_ppn = 0, frames_recycled = {}\<rparr>"

definition frame_init :: "usize \<Rightarrow> usize \<Rightarrow> (btree_frame_allocator, unit) kop" where
  "frame_init c e =
     kbind (kassert (c < e)) (\<lambda>_ a. (Ok (), a\<lparr>current_ppn := c, end_ppn := e\<rparr>))"

definition frame_alloc :: "(btree_frame_allocator, usize) kop" where
  "frame_alloc a =
     (case pop_first (frames_recycled a) of
        Some (p, rest) \<Rightarrow> (Ok p, a\<lparr>frames_recycled := rest\<rparr>)
      | None \<Rightarrow>
          let p = current_ppn a in
          if end_ppn a \<le> p then (Err FrameExhausted, a)
          else (Ok p, a\<lparr>current_ppn := current_ppn a + 1\<rparr>))"

definition frame_dealloc :: "usize \<Rightarrow> (btree_frame_allocator, unit) kop" where
  "frame_dealloc p a =
     (if current_ppn a \<le> p \<or> p \<in> frames_recycled a then (Err (FrameNotDeallocable p), a)
      else (Ok (), a\<lparr>frames_recycled := insert p (frames_recycled a)\<rparr>))"

section \<open>Invariants and abstraction\<close>

text \<open>
  The numbers handed out and not given back, the numbers that exist, and the invariant: what is
  recycled was handed out once, and the counter stays within its bound. The frame allocator
  does not store where it started, so its abstraction takes the first frame as an argument.
\<close>

definition id_owned :: "btree_id_allocator \<Rightarrow> usize set" where
  "id_owned a = {i. i < current_id a} - ids_recycled a"

definition id_pool :: "btree_id_allocator \<Rightarrow> usize set" where
  "id_pool a = {i. i < max_id a}"

definition id_inv :: "btree_id_allocator \<Rightarrow> bool" where
  "id_inv a \<longleftrightarrow> current_id a \<le> max_id a \<and> (\<forall>i \<in> ids_recycled a. i < current_id a)"

definition frame_owned :: "usize \<Rightarrow> btree_frame_allocator \<Rightarrow> usize set" where
  "frame_owned st a = {p. st \<le> p \<and> p < current_ppn a} - frames_recycled a"

definition frame_pool :: "usize \<Rightarrow> btree_frame_allocator \<Rightarrow> usize set" where
  "frame_pool st a = {p. st \<le> p \<and> p < end_ppn a}"

definition frame_inv :: "usize \<Rightarrow> btree_frame_allocator \<Rightarrow> bool" where
  "frame_inv st a \<longleftrightarrow>
     st \<le> current_ppn a \<and> current_ppn a \<le> end_ppn a \<and>
     (\<forall>p \<in> frames_recycled a. st \<le> p \<and> p < current_ppn a)"

section \<open>The contract\<close>

locale recycler =
  fixes ralloc :: "('s, usize) kop"
    and rdealloc :: "usize \<Rightarrow> ('s, unit) kop"
    and owned :: "'s \<Rightarrow> usize set"
    and pool :: "'s \<Rightarrow> usize set"
    and rinv :: "'s \<Rightarrow> bool"
    and exhausted :: kernel_error
    and not_deallocable :: "usize \<Rightarrow> kernel_error"
  assumes owned_pool: "rinv s \<Longrightarrow> owned s \<subseteq> pool s"
    and alloc_full: "rinv s \<Longrightarrow> owned s = pool s \<Longrightarrow> ralloc s = (Err exhausted, s)"
    and alloc_free: "rinv s \<Longrightarrow> owned s \<noteq> pool s \<Longrightarrow>
      \<exists>i s'. ralloc s = (Ok i, s') \<and> i \<in> pool s - owned s \<and> rinv s' \<and>
             owned s' = insert i (owned s) \<and> pool s' = pool s"
    and dealloc_owned: "rinv s \<Longrightarrow> i \<in> owned s \<Longrightarrow>
      \<exists>s'. rdealloc i s = (Ok (), s') \<and> rinv s' \<and>
           owned s' = owned s - {i} \<and> pool s' = pool s"
    and dealloc_free: "rinv s \<Longrightarrow> i \<in> pool s \<Longrightarrow> i \<notin> owned s \<Longrightarrow>
      rdealloc i s = (Err (not_deallocable i), s)"
begin

lemma alloc_OkD:
  assumes "rinv s" and "ralloc s = (Ok i, s')"
  shows "i \<in> pool s" and "i \<notin> owned s" and "rinv s'"
    and "owned s' = insert i (owned s)" and "pool s' = pool s"
proof -
  have "owned s \<noteq> pool s" using assms alloc_full by fastforce
  with assms alloc_free show "i \<in> pool s" "i \<notin> owned s" "rinv s'"
    "owned s' = insert i (owned s)" "pool s' = pool s"
    by fastforce+
qed

lemma alloc_never_panics: "rinv s \<Longrightarrow> fst (ralloc s) \<noteq> Panic"
  using alloc_full alloc_free by (cases "owned s = pool s") fastforce+

lemma alloc_then_dealloc:
  assumes "rinv s" and "ralloc s = (Ok i, s')"
  shows "\<exists>s''. rdealloc i s' = (Ok (), s'') \<and> rinv s'' \<and> owned s'' = owned s \<and> pool s'' = pool s"
  using dealloc_owned [of s' i] alloc_OkD [OF assms] by (auto simp: insert_absorb)

lemma double_dealloc:
  assumes "rinv s" and "i \<in> owned s" and "rdealloc i s = (r, s')"
  shows "rdealloc i s' = (Err (not_deallocable i), s')"
  using dealloc_owned [OF assms(1,2)] assms owned_pool dealloc_free [of s' i] by auto

lemma dealloc_then_alloc:
  assumes "rinv s" and "i \<in> owned s" and "rdealloc i s = (Ok (), s')"
  shows "\<exists>j s''. ralloc s' = (Ok j, s'') \<and> j \<notin> owned s - {i} \<and> j \<in> pool s"
proof -
  from dealloc_owned [OF assms(1,2)] assms(3)
  have s': "rinv s'" "owned s' = owned s - {i}" "pool s' = pool s" by auto
  then have "owned s' \<noteq> pool s'" using assms(1,2) owned_pool by blast
  from alloc_free [OF s'(1) this] s' show ?thesis by auto
qed

end

section \<open>Both allocators honour it\<close>

lemmas id_model = id_owned_def id_pool_def id_inv_def id_alloc_def id_dealloc_def

lemmas frame_model =
  frame_owned_def frame_pool_def frame_inv_def frame_alloc_def frame_dealloc_def

interpretation ids: recycler id_alloc id_dealloc id_owned id_pool id_inv IdExhausted IdNotDeallocable
proof
  fix a :: btree_id_allocator and i :: usize
  assume inv: "id_inv a"
  show "id_owned a \<subseteq> id_pool a"
    using inv by (auto simp: id_model)
  show "id_alloc a = (Err IdExhausted, a)" if full: "id_owned a = id_pool a"
  proof -
    have "ids_recycled a = {}" "max_id a \<le> current_id a"
      using inv full by (force simp: id_model)+
    then show ?thesis by (simp add: id_alloc_def)
  qed
  show "\<exists>i a'. id_alloc a = (Ok i, a') \<and> i \<in> id_pool a - id_owned a \<and> id_inv a' \<and>
          id_owned a' = insert i (id_owned a) \<and> id_pool a' = id_pool a"
    if free: "id_owned a \<noteq> id_pool a"
  proof (cases "pop_first (ids_recycled a)")
    case None
    then have rec: "ids_recycled a = {}" by simp
    then have lt: "current_id a < max_id a"
      using inv free by (force simp: id_model)
    then have "id_alloc a = (Ok (current_id a), a\<lparr>current_id := current_id a + 1\<rparr>)"
      using None by (simp add: id_alloc_def Let_def not_le)
    then show ?thesis
      using rec inv lt
      by (auto simp: id_model word_less_plus_one_iff [OF lt] word_plus_one_le [OF lt])
  next
    case (Some ir)
    then obtain i rest where ir: "ir = (i, rest)" by (cases ir)
    note sel = pop_first_SomeD [OF Some [unfolded ir]]
    show ?thesis
      using Some ir sel inv by (auto simp: id_model)
  qed
  show "\<exists>a'. id_dealloc i a = (Ok (), a') \<and> id_inv a' \<and> id_owned a' = id_owned a - {i} \<and>
          id_pool a' = id_pool a" if "i \<in> id_owned a"
    using inv that by (auto simp: id_model)
  show "id_dealloc i a = (Err (IdNotDeallocable i), a)" if "i \<in> id_pool a" "i \<notin> id_owned a"
    using inv that by (auto simp: id_model)
qed

interpretation frames: recycler frame_alloc frame_dealloc "frame_owned st" "frame_pool st"
  "frame_inv st" FrameExhausted FrameNotDeallocable for st
proof
  fix a :: btree_frame_allocator and p :: usize
  assume inv: "frame_inv st a"
  show "frame_owned st a \<subseteq> frame_pool st a"
    using inv by (auto simp: frame_model)
  show "frame_alloc a = (Err FrameExhausted, a)" if full: "frame_owned st a = frame_pool st a"
  proof -
    have "frames_recycled a = {}" "end_ppn a \<le> current_ppn a"
      using inv full by (force simp: frame_model)+
    then show ?thesis by (simp add: frame_alloc_def)
  qed
  show "\<exists>p a'. frame_alloc a = (Ok p, a') \<and> p \<in> frame_pool st a - frame_owned st a \<and>
          frame_inv st a' \<and> frame_owned st a' = insert p (frame_owned st a) \<and>
          frame_pool st a' = frame_pool st a"
    if free: "frame_owned st a \<noteq> frame_pool st a"
  proof (cases "pop_first (frames_recycled a)")
    case None
    then have rec: "frames_recycled a = {}" by simp
    then have lt: "current_ppn a < end_ppn a"
      using inv free by (force simp: frame_model)
    then have "frame_alloc a = (Ok (current_ppn a), a\<lparr>current_ppn := current_ppn a + 1\<rparr>)"
      using None by (simp add: frame_alloc_def Let_def not_le)
    moreover have "st \<le> current_ppn a + 1"
      using inv word_less_plus_one_iff [OF lt, of "current_ppn a"]
      by (force simp: frame_inv_def)
    ultimately show ?thesis
      using rec inv lt
      by (auto simp: frame_model word_less_plus_one_iff [OF lt] word_plus_one_le [OF lt])
  next
    case (Some pr)
    then obtain p rest where pr: "pr = (p, rest)" by (cases pr)
    note sel = pop_first_SomeD [OF Some [unfolded pr]]
    show ?thesis
      using Some pr sel inv by (auto simp: frame_model)
  qed
  show "\<exists>a'. frame_dealloc p a = (Ok (), a') \<and> frame_inv st a' \<and>
          frame_owned st a' = frame_owned st a - {p} \<and> frame_pool st a' = frame_pool st a"
    if "p \<in> frame_owned st a"
    using inv that by (auto simp: frame_model)
  show "frame_dealloc p a = (Err (FrameNotDeallocable p), a)"
    if "p \<in> frame_pool st a" "p \<notin> frame_owned st a"
    using inv that by (auto simp: frame_model)
qed

lemma frame_alloc_end [simp]: "end_ppn (snd (frame_alloc a)) = end_ppn a"
  by (simp add: frame_alloc_def Let_def split: option.splits prod.splits)

lemma frame_dealloc_end [simp]: "end_ppn (snd (frame_dealloc p a)) = end_ppn a"
  by (simp add: frame_dealloc_def)

section \<open>Properties\<close>

lemma id_inv_new: "id_inv (id_allocator_new m)"
  by (simp add: id_inv_def id_allocator_new_def)

lemma id_owned_new: "id_owned (id_allocator_new m) = {}"
  by (simp add: id_owned_def id_allocator_new_def)

lemma id_pool_new: "id_pool (id_allocator_new m) = {i. i < m}"
  by (simp add: id_pool_def id_allocator_new_def)

lemma auto_id_alloc_cases:
  assumes "id_inv a"
  obtains (full) "auto_id_alloc a = (Err IdExhausted, a)" and "id_owned a = id_pool a"
    | (fresh) t a' where "auto_id_alloc a = (Ok t, a')" and "tracker_id t \<notin> id_owned a"
        and "id_inv a'" and "id_owned a' = insert (tracker_id t) (id_owned a)"
        and "id_pool a' = id_pool a"
proof (cases "id_owned a = id_pool a")
  case True
  then show ?thesis using ids.alloc_full [OF assms] full by (simp add: auto_id_alloc_def)
next
  case False
  from ids.alloc_free [OF assms this] obtain i a' where
    "id_alloc a = (Ok i, a')" "i \<notin> id_owned a" "id_inv a'" "id_owned a' = insert i (id_owned a)"
    "id_pool a' = id_pool a" by auto
  then show ?thesis by (intro fresh [of "\<lparr>tracker_id = i\<rparr>" a']) (simp_all add: auto_id_alloc_def)
qed

lemma id_tracker_drop_owned:
  assumes "id_inv a" and "tracker_id t \<in> id_owned a"
  obtains a' where "id_tracker_drop True t a = (Ok (), a')" and "id_inv a'"
    and "id_owned a' = id_owned a - {tracker_id t}" and "id_pool a' = id_pool a"
  using ids.dealloc_owned [OF assms] by (auto simp: id_tracker_drop_def)

lemma tracker_run_inv:
  assumes "id_inv a" and "distinct (map tracker_id ts)" and "set (map tracker_id ts) = id_owned a"
    and "tracker_run es (a, ts) = (r, (a', ts'))"
  shows "r = Ok () \<and> id_inv a' \<and> distinct (map tracker_id ts') \<and>
         set (map tracker_id ts') = id_owned a' \<and> id_pool a' = id_pool a"
  using assms
proof (induction es arbitrary: a ts)
  case Nil
  then show ?case by simp
next
  case (Cons e es)
  show ?case
  proof (cases e)
    case Acquire
    from Cons.prems(1) show ?thesis
    proof (cases rule: auto_id_alloc_cases)
      case full
      then show ?thesis using Cons Acquire by simp
    next
      case (fresh t a1)
      then show ?thesis
        using Cons.IH [of a1 "ts @ [t]"] Cons.prems Acquire by auto
    qed
  next
    case (Release k)
    show ?thesis
    proof (cases "k < length ts")
      case True
      have ts: "ts = take k ts @ ts ! k # drop (Suc k) ts"
        using True by (rule id_take_nth_drop)
      have "tracker_id (ts ! k) \<in> id_owned a"
        using Cons.prems(3) True by auto
      then obtain a1 where a1: "id_tracker_drop True (ts ! k) a = (Ok (), a1)" "id_inv a1"
        "id_owned a1 = id_owned a - {tracker_id (ts ! k)}" "id_pool a1 = id_pool a"
        using Cons.prems(1) id_tracker_drop_owned by metis
      define rest where "rest = take k ts @ drop (Suc k) ts"
      have "distinct (map tracker_id (take k ts @ ts ! k # drop (Suc k) ts))"
        "set (map tracker_id (take k ts @ ts ! k # drop (Suc k) ts)) = id_owned a"
        using Cons.prems(2,3) by (simp_all only: ts [symmetric])
      then have "distinct (map tracker_id rest)"
        "set (map tracker_id rest) = id_owned a - {tracker_id (ts ! k)}"
        unfolding rest_def by auto
      then show ?thesis
        using Cons.IH [of a1 rest] Cons.prems Release True a1 by (simp add: rest_def)
    next
      case False
      then show ?thesis using Cons Release by simp
    qed
  qed
qed

text \<open>
  Whatever history of acquiring and dropping id trackers a client has run against a new
  \<open>AutoRecycledIdAllocator\<close>, nothing panicked, the live trackers carry pairwise different
  ids below the bound, and these are exactly the ids the allocator regards as handed out.
\<close>

theorem live_trackers_distinct:
  assumes "tracker_run es (id_allocator_new m, []) = (r, (a, ts))"
  shows "r = Ok () \<and> distinct (map tracker_id ts) \<and> (\<forall>t \<in> set ts. tracker_id t < m) \<and>
         id_owned a = tracker_id ` set ts"
proof -
  from tracker_run_inv [OF id_inv_new _ _ assms]
  have *: "r = Ok ()" "id_inv a" "distinct (map tracker_id ts)"
    "set (map tracker_id ts) = id_owned a" "id_pool a = {i. i < m}"
    by (simp_all add: id_owned_new id_pool_new)
  moreover have "\<forall>t \<in> set ts. tracker_id t < m"
    using ids.owned_pool [OF *(2)] *(4,5) by auto
  ultimately show ?thesis by auto
qed

end
