(* ===== verification/Page_Range.thy ===== *)
theory Page_Range
  imports Kernel_Prelude
begin

text \<open>
  The allocator of virtual page ranges, \<open>LinkedListPageRangeAllocator\<close> of
  src/memory/allocator.rs: a doubly linked list of nodes in which every node opens an interval of
  pages that is occupied or available.

  The nodes live in an explicit store, because the code mutates them through shared pointers
  (\<open>Arc\<close> forward, \<open>Weak\<close> backward). The store never frees a node: that
  \<open>Weak::upgrade\<close> succeeds on what the code follows is shown by the invariant, in which every
  backward pointer of a list node is its predecessor in the list. The loop that searches the list
  is a partial function whose undefined value is the result \<open>Hang\<close>.

  The development goes from the store to the list of intervals, and from there to the set of
  occupied pages, which is the contract \<open>range_allocator\<close> that the address spaces rely on.
\<close>

section \<open>Nodes and their store\<close>

type_synonym nref = nat

record page_node =
  pn_used :: bool
  pn_vpn :: usize
  pn_prev :: "nref option"
  pn_next :: "nref option"

record node_store =
  nodes :: "nref \<Rightarrow> page_node"
  fresh :: nref

definition page_node_new :: "bool \<Rightarrow> usize \<Rightarrow> page_node" where
  "page_node_new u v = \<lparr>pn_used = u, pn_vpn = v, pn_prev = None, pn_next = None\<rparr>"

definition set_node :: "nref \<Rightarrow> (page_node \<Rightarrow> page_node) \<Rightarrow> node_store \<Rightarrow> node_store" where
  "set_node a f h = h\<lparr>nodes := (nodes h)(a := f (nodes h a))\<rparr>"

text \<open>\<open>Arc::new(PageNode::new(used, vpn))\<close>.\<close>

definition new_node :: "bool \<Rightarrow> usize \<Rightarrow> node_store \<Rightarrow> nref \<times> node_store" where
  "new_node u v h =
     (fresh h, h\<lparr>nodes := (nodes h)(fresh h := page_node_new u v), fresh := Suc (fresh h)\<rparr>)"

text \<open>The four steps of \<open>PageNode::link\<close>.\<close>

definition link :: "nref \<Rightarrow> nref \<Rightarrow> node_store \<Rightarrow> node_store" where
  "link prev next' h0 =
     (let h1 = (case pn_next (nodes h0 prev) of
                  Some old_next \<Rightarrow> set_node old_next (\<lambda>n. n\<lparr>pn_prev := None\<rparr>) h0
                | None \<Rightarrow> h0);
          h2 = set_node prev (\<lambda>n. n\<lparr>pn_next := Some next'\<rparr>) h1;
          h3 = (case pn_prev (nodes h2 next') of
                  Some old_prev \<Rightarrow> set_node old_prev (\<lambda>n. n\<lparr>pn_next := None\<rparr>) h2
                | None \<Rightarrow> h2)
      in set_node next' (\<lambda>n. n\<lparr>pn_prev := Some prev\<rparr>) h3)"

definition merge_range :: "nref \<Rightarrow> node_store \<Rightarrow> node_store" where
  "merge_range a h =
     (case (pn_prev (nodes h a), pn_next (nodes h a)) of
        (Some p, Some n) \<Rightarrow>
          if pn_used (nodes h a) = pn_used (nodes h p) then link p n h else h
      | _ \<Rightarrow> h)"

section \<open>The allocator\<close>

record page_ranges =
  pr_root :: nref
  pr_store :: node_store

definition page_ranges_new :: "usize \<Rightarrow> usize \<Rightarrow> page_ranges outcome" where
  "page_ranges_new start_vpn end_vpn =
     (if start_vpn < end_vpn then
        let h0 = \<lparr>nodes = (\<lambda>_. page_node_new False 0), fresh = 0\<rparr>;
            (st, h1) = new_node False start_vpn h0;
            (en, h2) = new_node False end_vpn h1
        in Ok \<lparr>pr_root = st, pr_store = link st en h2\<rparr>
      else Panic)"

partial_function (option) find_loop ::
    "(nref \<Rightarrow> page_node) \<Rightarrow> usize \<Rightarrow> usize \<Rightarrow> nref \<Rightarrow> (nref \<times> nref) option option" where
  "find_loop N start_vpn end_vpn cur =
     (case pn_next (N cur) of
        Some nxt \<Rightarrow>
          if pn_vpn (N cur) \<le> start_vpn \<and> end_vpn \<le> pn_vpn (N nxt) then Some (Some (cur, nxt))
          else if pn_vpn (N nxt) \<le> start_vpn then find_loop N start_vpn end_vpn nxt
          else Some None
      | None \<Rightarrow> Some None)"

definition find_range_nodes ::
    "usize \<Rightarrow> usize \<Rightarrow> page_ranges \<Rightarrow> (nref \<times> nref) option option" where
  "find_range_nodes start_vpn end_vpn a =
     find_loop (nodes (pr_store a)) start_vpn end_vpn (pr_root a)"

text \<open>
  The part of \<open>change\<close> behind the search: the interval between \<open>left\<close> and
  \<open>right\<close> contains the range.
\<close>

definition change_between ::
    "nref \<Rightarrow> nref \<Rightarrow> usize \<Rightarrow> usize \<Rightarrow> bool \<Rightarrow> node_store \<Rightarrow> unit option \<times> node_store" where
  "change_between left right start_vpn end_vpn used h =
     (let left_is_start = (pn_vpn (nodes h left) = start_vpn);
          right_is_end = (pn_vpn (nodes h right) = end_vpn)
      in if pn_used (nodes h left) = used then (None, h)
         else if \<not> left_is_start \<and> \<not> right_is_end then
           let (st, h1) = new_node used start_vpn h;
               (en, h2) = new_node (\<not> used) end_vpn h1
           in (Some (), link en right (link st en (link left st h2)))
         else if \<not> left_is_start \<and> right_is_end then
           let (st, h1) = new_node (\<not> used) start_vpn h;
               h2 = set_node st (\<lambda>n. n\<lparr>pn_used := used\<rparr>) h1
           in (Some (), merge_range right (link st right (link left st h2)))
         else if left_is_start \<and> \<not> right_is_end then
           let (en, h1) = new_node (\<not> used) end_vpn h;
               h2 = set_node left (\<lambda>n. n\<lparr>pn_used := used\<rparr>) h1
           in (Some (), merge_range left (link en right (link left en h2)))
         else
           let h1 = set_node left (\<lambda>n. n\<lparr>pn_used := used\<rparr>) h
           in (Some (), merge_range right (merge_range left h1)))"

definition change :: "usize \<Rightarrow> usize \<Rightarrow> bool \<Rightarrow> (page_ranges, unit option) kop" where
  "change start_vpn end_vpn used a =
     (if end_vpn \<le> start_vpn then (Ok None, a)
      else case find_range_nodes start_vpn end_vpn a of
             None \<Rightarrow> (Hang, a)
           | Some None \<Rightarrow> (Ok None, a)
           | Some (Some (left, right)) \<Rightarrow>
               (case change_between left right start_vpn end_vpn used (pr_store a) of
                  (r, h) \<Rightarrow> (Ok r, a\<lparr>pr_store := h\<rparr>)))"

definition range_alloc :: "usize \<Rightarrow> usize \<Rightarrow> (page_ranges, unit option) kop" where
  "range_alloc start_vpn end_vpn = change start_vpn end_vpn True"

definition range_dealloc :: "usize \<Rightarrow> usize \<Rightarrow> (page_ranges, unit option) kop" where
  "range_dealloc start_vpn end_vpn = change start_vpn end_vpn False"

section \<open>From the store to the list of intervals\<close>

text \<open>
  \<open>dll N p xs q\<close>: the nodes \<open>xs\<close> are chained in both directions in the store,
  \<open>p\<close> before the first and \<open>q\<close> behind the last.
\<close>

fun dll :: "(nref \<Rightarrow> page_node) \<Rightarrow> nref option \<Rightarrow> nref list \<Rightarrow> nref option \<Rightarrow> bool" where
  "dll N p [] q \<longleftrightarrow> True"
| "dll N p (x # xs) q \<longleftrightarrow>
     pn_prev (N x) = p \<and> pn_next (N x) = (case xs of [] \<Rightarrow> q | y # _ \<Rightarrow> Some y) \<and>
     dll N (Some x) xs q"

fun walk :: "(nref \<Rightarrow> page_node) \<Rightarrow> nat \<Rightarrow> nref option \<Rightarrow> nref list" where
  "walk N 0 p = []"
| "walk N (Suc k) None = []"
| "walk N (Suc k) (Some x) = x # walk N k (pn_next (N x))"

definition pr_nodes :: "page_ranges \<Rightarrow> nref list" where
  "pr_nodes a = walk (nodes (pr_store a)) (fresh (pr_store a)) (Some (pr_root a))"

definition node_seg :: "(nref \<Rightarrow> page_node) \<Rightarrow> nref \<Rightarrow> bool \<times> usize" where
  "node_seg N x = (pn_used (N x), pn_vpn (N x))"

definition pr_segs :: "page_ranges \<Rightarrow> (bool \<times> usize) list" where
  "pr_segs a = map (node_seg (nodes (pr_store a))) (pr_nodes a)"

definition linked :: "page_ranges \<Rightarrow> nref list \<Rightarrow> bool" where
  "linked a ns \<longleftrightarrow>
     ns \<noteq> [] \<and> hd ns = pr_root a \<and> distinct ns \<and> (\<forall>x \<in> set ns. x < fresh (pr_store a)) \<and>
     dll (nodes (pr_store a)) None ns None"

section \<open>From the list of intervals to the set of occupied pages\<close>

fun used_pages :: "(bool \<times> usize) list \<Rightarrow> usize set" where
  "used_pages ((u, v) # (u', v') # xs) = (if u then {v..<v'} else {}) \<union> used_pages ((u', v') # xs)"
| "used_pages _ = {}"

text \<open>
  Neighbouring intervals differ in their status. The last node only closes the last interval.
\<close>

definition alternating :: "(bool \<times> usize) list \<Rightarrow> bool" where
  "alternating xs \<longleftrightarrow> successively (\<noteq>) (map fst (butlast xs))"

definition segs_inv :: "usize \<Rightarrow> usize \<Rightarrow> (bool \<times> usize) list \<Rightarrow> bool" where
  "segs_inv lo hi xs \<longleftrightarrow>
     2 \<le> length xs \<and> snd (hd xs) = lo \<and> snd (last xs) = hi \<and>
     sorted_wrt (<) (map snd xs) \<and> alternating xs"

definition pr_used :: "page_ranges \<Rightarrow> usize set" where
  "pr_used a = used_pages (pr_segs a)"

definition pr_inv :: "usize \<Rightarrow> usize \<Rightarrow> page_ranges \<Rightarrow> bool" where
  "pr_inv lo hi a \<longleftrightarrow> linked a (pr_nodes a) \<and> segs_inv lo hi (pr_segs a)"

section \<open>Chains under linking\<close>

lemma dll_cong:
  assumes "\<And>x. x \<in> set xs \<Longrightarrow> pn_prev (N x) = pn_prev (N' x)"
    and "\<And>x. x \<in> set xs \<Longrightarrow> pn_next (N x) = pn_next (N' x)"
  shows "dll N p xs q = dll N' p xs q"
  using assms by (induction xs arbitrary: p) auto

lemma dll_mid:
  "dll N p (A @ x # C) q \<longleftrightarrow>
     dll N p A (Some x) \<and> pn_prev (N x) = (if A = [] then p else Some (last A)) \<and>
     pn_next (N x) = (case C of [] \<Rightarrow> q | y # _ \<Rightarrow> Some y) \<and> dll N (Some x) C q"
proof (induction A arbitrary: p)
  case Nil
  then show ?case by simp
next
  case (Cons a A)
  then show ?case by (cases A) auto
qed

lemma link_used [simp]: "pn_used (nodes (link x y h) a) = pn_used (nodes h a)"
  by (simp add: link_def set_node_def Let_def split: option.split)

lemma link_vpn [simp]: "pn_vpn (nodes (link x y h) a) = pn_vpn (nodes h a)"
  by (simp add: link_def set_node_def Let_def split: option.split)

lemma link_fresh [simp]: "fresh (link x y h) = fresh h"
  by (simp add: link_def set_node_def Let_def split: option.split)

lemma link_seg [simp]: "node_seg (nodes (link x y h)) = node_seg (nodes h)"
  by (rule ext) (simp add: node_seg_def)

text \<open>
  Linking \<open>x\<close> to \<open>y\<close> joins the chain that ends in \<open>x\<close> with the chain that
  starts in \<open>y\<close>, when the node behind \<open>x\<close> and the node before \<open>y\<close> lie outside
  both, or the two are neighbours already.
\<close>

lemma link_joins:
  assumes A: "dll (nodes h) p (A @ [x]) qx" and B: "dll (nodes h) py (y # B) q"
    and dist: "distinct (A @ x # y # B)"
    and qx: "\<And>z. qx = Some z \<Longrightarrow> z \<notin> set A \<union> {x} \<union> set B"
    and py: "\<And>w. py = Some w \<Longrightarrow> w \<notin> set (A @ x # y # B) \<or> qx = Some y"
  shows "dll (nodes (link x y h)) p (A @ x # y # B) q"
proof -
  let ?N = "nodes h" and ?L = "nodes (link x y h)"
  have nx: "pn_next (?N x) = qx" and pyy: "pn_prev (?N y) = py"
    using A B by (simp_all add: dll_mid)
  have L: "pn_next (?L a) = (if a = x then Some y else pn_next (?N a))"
    if "a \<in> set (A @ x # y # B)" for a
    using that nx pyy qx py dist
    by (auto simp: link_def set_node_def Let_def split: option.splits)
  have P: "pn_prev (?L a) = (if a = y then Some x else pn_prev (?N a))"
    if "a \<in> set (A @ x # y # B)" for a
    using that nx pyy qx py dist
    by (auto simp: link_def set_node_def Let_def split: option.splits)
  have "dll ?L p A (Some x) = dll ?N p A (Some x)"
    using dist by (intro dll_cong) (auto simp: L P)
  moreover have "dll ?L (Some y) B q = dll ?N (Some y) B q"
    using dist by (intro dll_cong) (auto simp: L P)
  ultimately show ?thesis
    using A B dist by (auto simp: dll_mid L P)
qed

text \<open>A chain that the link does not touch, or whose head was behind \<open>x\<close>.\<close>

lemma link_apart:
  assumes C: "dll (nodes h) p C q" and out: "x \<notin> set C" "y \<notin> set C"
    and nx: "\<And>z. pn_next (nodes h x) = Some z \<Longrightarrow> z \<notin> set C"
    and py: "\<And>w. pn_prev (nodes h y) = Some w \<Longrightarrow> w \<notin> set C"
  shows "dll (nodes (link x y h)) p C q"
proof -
  have "dll (nodes (link x y h)) p C q = dll (nodes h) p C q"
    using out nx py
    by (intro dll_cong) (auto simp: link_def set_node_def Let_def split: option.splits)
  with C show ?thesis by simp
qed

lemma link_cuts:
  assumes C: "dll (nodes h) p (z # C) q" and dist: "distinct (z # C)"
    and out: "x \<notin> set (z # C)" "y \<notin> set (z # C)"
    and nx: "pn_next (nodes h x) = Some z"
    and py: "\<And>w. pn_prev (nodes h y) = Some w \<Longrightarrow> w \<notin> set (z # C)"
  shows "dll (nodes (link x y h)) None (z # C) q"
proof -
  have "dll (nodes (link x y h)) (Some z) C q = dll (nodes h) (Some z) C q"
    using dist out nx py
    by (intro dll_cong) (auto simp: link_def set_node_def Let_def split: option.splits)
  moreover have "pn_prev (nodes (link x y h) z) = None"
    "pn_next (nodes (link x y h) z) = pn_next (nodes h z)"
    using dist out nx py by (auto simp: link_def set_node_def Let_def split: option.splits)
  ultimately show ?thesis using C by simp
qed

text \<open>Unlinking the node between two others.\<close>

lemma link_bypasses:
  assumes "dll (nodes h) p (A @ x # m # y # B) q" and "distinct (A @ x # m # y # B)"
  shows "dll (nodes (link x y h)) p (A @ x # y # B) q"
proof (rule link_joins)
  show "dll (nodes h) p (A @ [x]) (Some m)" "dll (nodes h) (Some m) (y # B) q"
    using assms(1) by (auto simp: dll_mid)
qed (use assms(2) in auto)

lemma new_node_simps [simp]:
  "fst (new_node u v h) = fresh h"
  "fresh (snd (new_node u v h)) = Suc (fresh h)"
  "nodes (snd (new_node u v h)) = (nodes h)(fresh h := page_node_new u v)"
  by (simp_all add: new_node_def)

lemma dll_update_outside [simp]:
  "x \<notin> set xs \<Longrightarrow> dll (N(x := n)) p xs q = dll N p xs q"
  by (rule dll_cong) auto

text \<open>Inserting one unlinked node, or two, between neighbours.\<close>

lemma link_inserts_one:
  assumes C: "dll (nodes h) p (A @ l # r # B) q"
    and dist: "distinct (A @ l # r # B)" and new: "s \<notin> set (A @ l # r # B)"
    and s: "pn_prev (nodes h s) = None" "pn_next (nodes h s) = None"
  shows "dll (nodes (link s r (link l s h))) p (A @ l # s # r # B) q"
proof -
  have l: "dll (nodes h) p (A @ [l]) (Some r)" and r: "dll (nodes h) (Some l) (r # B) q"
    using C by (auto simp: dll_mid)
  have "dll (nodes h) None [s] None" using s by simp
  from link_joins [OF l this] have ls: "dll (nodes (link l s h)) p (A @ [l, s]) None"
    using dist new by auto
  have rB: "dll (nodes (link l s h)) None (r # B) q"
    using dist new s l by (intro link_cuts [OF r]) (auto simp: dll_mid)
  from ls have "dll (nodes (link l s h)) p ((A @ [l]) @ [s]) None" by simp
  from link_joins [OF this rB] show ?thesis
    using dist new by auto
qed

lemma link_inserts_two:
  assumes C: "dll (nodes h) p (A @ l # r # B) q"
    and dist: "distinct (A @ l # r # B)" and new: "s \<notin> set (A @ l # r # B)" "e \<notin> set (A @ l # r # B)"
    and se: "s \<noteq> e"
    and s: "pn_prev (nodes h s) = None" "pn_next (nodes h s) = None"
    and e: "pn_prev (nodes h e) = None" "pn_next (nodes h e) = None"
  shows "dll (nodes (link e r (link s e (link l s h)))) p (A @ l # s # e # r # B) q"
proof -
  let ?h1 = "link l s h" and ?h2 = "link s e (link l s h)"
  have l: "dll (nodes h) p (A @ [l]) (Some r)" and r: "dll (nodes h) (Some l) (r # B) q"
    using C by (auto simp: dll_mid)
  have "dll (nodes h) None [s] None" using s by simp
  from link_joins [OF l this] have ls: "dll (nodes ?h1) p ((A @ [l]) @ [s]) None"
    using dist new by auto
  have r1: "dll (nodes ?h1) None (r # B) q"
    using dist new s l by (intro link_cuts [OF r]) (auto simp: dll_mid)
  have e1: "dll (nodes ?h1) None [e] None"
    using dist new s e se l
    by (intro link_apart) (auto simp: dll_mid)
  from link_joins [OF ls e1] have lse: "dll (nodes ?h2) p ((A @ [l, s]) @ [e]) None"
    using dist new se by auto
  have r2: "dll (nodes ?h2) None (r # B) q"
    using dist new se ls e1 by (intro link_apart [OF r1]) (auto simp: dll_mid)
  from link_joins [OF lse r2] show ?thesis
    using dist new se by auto
qed

text \<open>Merging a node into its predecessor.\<close>

lemma merge_range_chain:
  assumes "dll (nodes h) None (A @ m # B) None" and "distinct (A @ m # B)"
  shows "merge_range m h =
           (if A \<noteq> [] \<and> B \<noteq> [] \<and> pn_used (nodes h m) = pn_used (nodes h (last A))
            then link (last A) (hd B) h else h)"
  using assms by (auto simp: merge_range_def dll_mid split: list.split option.split)

lemma merge_range_dll:
  assumes "dll (nodes h) None (A @ m # B) None" and "distinct (A @ m # B)"
    and "A \<noteq> []" and "B \<noteq> []" and "pn_used (nodes h m) = pn_used (nodes h (last A))"
  shows "dll (nodes (merge_range m h)) None (A @ B) None"
proof -
  obtain A' x where A: "A = A' @ [x]" using assms(3) by (cases A rule: rev_cases) auto
  obtain y B' where B: "B = y # B'" using assms(4) by (cases B) auto
  show ?thesis
    using assms link_bypasses [of h None A' x m y B' None]
    by (simp add: merge_range_chain [OF assms(1,2)] A B)
qed

lemma merge_range_keeps [simp]:
  "fresh (merge_range m h) = fresh h"
  "node_seg (nodes (merge_range m h)) = node_seg (nodes h)"
  "pn_used (nodes (merge_range m h) a) = pn_used (nodes h a)"
  "pn_vpn (nodes (merge_range m h) a) = pn_vpn (nodes h a)"
  by (simp_all add: merge_range_def split: option.split)

section \<open>The set of occupied pages under splitting and merging of intervals\<close>

lemma used_pages_split:
  "used_pages (A @ (u, v) # B) = used_pages (A @ [(u', v)]) \<union> used_pages ((u, v) # B)"
proof (induction A)
  case Nil
  then show ?case by simp
next
  case (Cons a A)
  then show ?case by (cases a; cases A) auto
qed

lemma used_pages_below:
  assumes "sorted_wrt (<) (map snd (A @ [(u, v)]))" and "p \<in> used_pages (A @ [(u, v)])"
  shows "p < v"
  using assms
proof (induction A rule: used_pages.induct)
  case (1 u1 v1 u2 v2 A)
  then show ?case by (auto split: if_splits)
qed (auto split: if_splits)

lemma used_pages_above:
  assumes "sorted_wrt (<) (map snd ((u, v) # B))" and "p \<in> used_pages ((u, v) # B)"
  shows "v \<le> p"
  using assms
proof (induction B arbitrary: u v)
  case (Cons y B)
  then show ?case by (cases y) (fastforce split: if_splits)
qed simp

lemma used_pages_drop_empty:
  "used_pages (A @ (u, v) # (u', v) # B) = used_pages (A @ (u', v) # B)"
  using used_pages_split [of A u v "(u', v) # B" u'] used_pages_split [of A u' v B u'] by simp

lemma used_pages_merge:
  assumes "v \<le> w" and "w \<le> v'"
  shows "used_pages (A @ (u, v) # (u, w) # (u', v') # B) = used_pages (A @ (u, v) # (u', v') # B)"
  using assms used_pages_split [of A u v "(u, w) # (u', v') # B" u]
    used_pages_split [of A u v "(u', v') # B" u]
  by (auto simp: ivl_disj_un_two(3) simp flip: Un_assoc)

lemma used_pages_carve:
  assumes sorted: "sorted_wrt (<) (map snd (A @ (\<not> u, l) # (ru, r) # B))"
    and "l \<le> s" and "s < e" and "e \<le> r"
  shows "used_pages (A @ (\<not> u, l) # (u, s) # (\<not> u, e) # (ru, r) # B) =
           (if u then used_pages (A @ (\<not> u, l) # (ru, r) # B) \<union> {s..<e}
            else used_pages (A @ (\<not> u, l) # (ru, r) # B) - {s..<e})"
proof -
  have "p < l" if "p \<in> used_pages (A @ [(True, l)])" for p
    using used_pages_below [OF _ that] sorted by (simp add: sorted_wrt_append)
  moreover have "r \<le> p" if "p \<in> used_pages ((ru, r) # B)" for p
    using used_pages_above [OF _ that] sorted by (simp add: sorted_wrt_append)
  ultimately show ?thesis
    using assms(2-4) used_pages_split [of A "\<not> u" l "(u, s) # (\<not> u, e) # (ru, r) # B" True]
      used_pages_split [of A "\<not> u" l "(ru, r) # B" True]
    by fastforce
qed

section \<open>Walking the list\<close>

lemma walk_dll:
  assumes "dll N p (x # xs) None" and "length (x # xs) \<le> k"
  shows "walk N k (Some x) = x # xs"
  using assms
proof (induction xs arbitrary: p x k)
  case Nil
  then show ?case by (cases k; cases "k - 1") auto
next
  case (Cons y ys)
  then show ?case by (cases k) auto
qed

lemma linked_length: "linked a ns \<Longrightarrow> length ns \<le> fresh (pr_store a)"
  using card_mono [of "{..<fresh (pr_store a)}" "set ns"]
  by (auto simp: linked_def distinct_card)

lemma linked_pr_nodes:
  assumes "linked a ns"
  shows "pr_nodes a = ns"
proof -
  obtain xs where "ns = pr_root a # xs"
    using assms by (cases ns) (auto simp: linked_def)
  then show ?thesis
    using assms linked_length [OF assms] by (auto simp: pr_nodes_def linked_def intro: walk_dll)
qed

text \<open>
  The search ends on every chain: it finds the neighbours around the range, or the range starts
  outside the list, or it runs over the end of the interval it starts in.
\<close>

lemma find_loop_spec:
  assumes "dll N p (x # xs) None"
  shows "(\<exists>A l r B. x # xs = A @ l # r # B \<and> find_loop N s e x = Some (Some (l, r)) \<and>
            pn_vpn (N l) \<le> s \<and> e \<le> pn_vpn (N r)) \<or>
         (find_loop N s e x = Some None \<and>
           (s < pn_vpn (N x) \<or> pn_vpn (N (last (x # xs))) \<le> s \<or>
            (\<exists>A l r B. x # xs = A @ l # r # B \<and> pn_vpn (N l) \<le> s \<and> s < pn_vpn (N r) \<and>
               pn_vpn (N r) < e)))"
  using assms
proof (induction xs arbitrary: p x)
  case Nil
  then show ?case by (subst find_loop.simps) auto
next
  case (Cons y ys)
  then have nxt: "pn_next (N x) = Some y" and rest: "dll N (Some x) (y # ys) None" by auto
  consider (found) "pn_vpn (N x) \<le> s" "e \<le> pn_vpn (N y)"
    | (on) "\<not> (pn_vpn (N x) \<le> s \<and> e \<le> pn_vpn (N y))" "pn_vpn (N y) \<le> s"
    | (off) "\<not> (pn_vpn (N x) \<le> s \<and> e \<le> pn_vpn (N y))" "s < pn_vpn (N y)"
    by force
  then show ?case
  proof cases
    case found
    then have "find_loop N s e x = Some (Some (x, y))"
      by (subst find_loop.simps) (simp add: nxt)
    moreover have "x # y # ys = [] @ x # y # ys" by simp
    ultimately show ?thesis using found by blast
  next
    case on
    then have step: "find_loop N s e x = find_loop N s e y"
      by (subst find_loop.simps) (auto simp: nxt)
    have ext: "x # y # ys = (x # A) @ l # r # B" if "y # ys = A @ l # r # B" for A l r B
      using that by simp
    have last: "last (x # y # ys) = last (y # ys)" by simp
    from on(2) have "\<not> s < pn_vpn (N y)" by simp
    with Cons.IH [OF rest] show ?thesis
      unfolding step last
    proof (elim disjE exE conjE, goal_cases)
      case (1 A l r B)
      then show ?case using ext [OF 1(2)] by (intro disjI1 exI [of _ "x # A"] exI conjI)
    next
      case (4 A l r B)
      then show ?case using ext [OF 4(3)]
        by (intro disjI2 conjI exI [of _ "x # A"] exI) simp_all
    qed simp_all
  next
    case off
    then have "find_loop N s e x = Some None"
      by (subst find_loop.simps) (auto simp: nxt)
    moreover have "s < pn_vpn (N x) \<or> pn_vpn (N x) \<le> s \<and> pn_vpn (N y) < e"
      using off by force
    moreover have "x # y # ys = [] @ x # y # ys" by simp
    ultimately show ?thesis using off(2) by blast
  qed
qed

end
