(* ===== verification/Page_Range_Segments.thy ===== *)
theory Page_Range_Segments
  imports Page_Range
begin

text \<open>
  What \<open>change\<close> of src/memory/allocator.rs does to the list of intervals (one lemma for each of
  its four successful branches), and what that list change means for the set of occupied pages.
\<close>

section \<open>Every branch of \<open>change\<close> on the list of intervals\<close>

lemma linked_fresh:
  assumes "linked a ns"
  shows "fresh (pr_store a) \<notin> set ns" and "Suc (fresh (pr_store a)) \<notin> set ns"
proof -
  have "\<forall>x \<in> set ns. x < fresh (pr_store a)" using assms by (simp add: linked_def)
  then show "fresh (pr_store a) \<notin> set ns" "Suc (fresh (pr_store a)) \<notin> set ns"
    using less_not_refl Suc_lessD by blast+
qed

lemma linked_new_node:
  assumes "linked a ns"
  shows "linked (a\<lparr>pr_store := snd (new_node u v (pr_store a))\<rparr>) ns"
  using assms by (auto simp: linked_def)

lemma linked_set_used:
  assumes "linked a ns"
  shows "linked (a\<lparr>pr_store := set_node x (\<lambda>n. n\<lparr>pn_used := u\<rparr>) (pr_store a)\<rparr>) ns"
proof -
  have "dll (nodes (set_node x (\<lambda>n. n\<lparr>pn_used := u\<rparr>) (pr_store a))) None ns None =
        dll (nodes (pr_store a)) None ns None"
    by (rule dll_cong) (auto simp: set_node_def)
  with assms show ?thesis by (simp add: linked_def set_node_def)
qed

lemma linked_insert_one:
  assumes "linked a (A @ l # r # B)" and "s \<notin> set (A @ l # r # B)" and "s < fresh (pr_store a)"
    and "pn_prev (nodes (pr_store a) s) = None" and "pn_next (nodes (pr_store a) s) = None"
  shows "linked (a\<lparr>pr_store := link s r (link l s (pr_store a))\<rparr>) (A @ l # s # r # B)"
  using assms link_inserts_one [of "pr_store a" None A l r B None s]
  by (cases A) (auto simp: linked_def)

lemma linked_insert_two:
  assumes "linked a (A @ l # r # B)" and "s \<notin> set (A @ l # r # B)" and "e \<notin> set (A @ l # r # B)"
    and "s \<noteq> e" and "s < fresh (pr_store a)" and "e < fresh (pr_store a)"
    and "pn_prev (nodes (pr_store a) s) = None" and "pn_next (nodes (pr_store a) s) = None"
    and "pn_prev (nodes (pr_store a) e) = None" and "pn_next (nodes (pr_store a) e) = None"
  shows "linked (a\<lparr>pr_store := link e r (link s e (link l s (pr_store a)))\<rparr>) (A @ l # s # e # r # B)"
  using assms link_inserts_two [of "pr_store a" None A l r B None s e]
  by (cases A) (auto simp: linked_def)

lemma linked_merge:
  assumes "linked a (A @ m # B)"
  shows "linked (a\<lparr>pr_store := merge_range m (pr_store a)\<rparr>)
           (if A \<noteq> [] \<and> B \<noteq> [] \<and>
               pn_used (nodes (pr_store a) m) = pn_used (nodes (pr_store a) (last A))
            then A @ B else A @ m # B)"
proof (cases "A \<noteq> [] \<and> B \<noteq> [] \<and>
               pn_used (nodes (pr_store a) m) = pn_used (nodes (pr_store a) (last A))")
  case True
  then show ?thesis
    using assms merge_range_dll [of "pr_store a" A m B] by (auto simp: linked_def)
next
  case False
  then have "merge_range m (pr_store a) = pr_store a"
    using assms merge_range_chain [of "pr_store a" A m B] by (auto simp: linked_def)
  then show ?thesis using False assms by (subst if_not_P) simp_all
qed

text \<open>The list with the node before or behind a changed interval merged away.\<close>

definition left_merged :: "(bool \<times> usize) list \<Rightarrow> bool \<times> usize \<Rightarrow> (bool \<times> usize) list" where
  "left_merged A x = (if A \<noteq> [] \<and> fst (last A) = fst x then A else A @ [x])"

definition right_merged :: "bool \<Rightarrow> bool \<times> usize \<Rightarrow> (bool \<times> usize) list \<Rightarrow> (bool \<times> usize) list" where
  "right_merged u y B = (if B \<noteq> [] \<and> fst y = u then B else y # B)"

definition changed_segs ::
    "(bool \<times> usize) list \<Rightarrow> usize \<Rightarrow> bool \<times> usize \<Rightarrow> (bool \<times> usize) list \<Rightarrow>
     usize \<Rightarrow> usize \<Rightarrow> bool \<Rightarrow> (bool \<times> usize) list" where
  "changed_segs A l y B s e u =
     (if l \<noteq> s \<and> snd y \<noteq> e then A @ (\<not> u, l) # (u, s) # (\<not> u, e) # y # B
      else if l \<noteq> s then A @ (\<not> u, l) # (u, s) # right_merged u y B
      else if snd y \<noteq> e then left_merged A (u, l) @ (\<not> u, e) # y # B
      else left_merged A (u, l) @ right_merged u y B)"

text \<open>The result that each branch of \<open>change\<close> has to produce.\<close>

definition changes_to ::
    "page_ranges \<Rightarrow> nref list \<Rightarrow> nref \<Rightarrow> nref \<Rightarrow> nref list \<Rightarrow> usize \<Rightarrow> usize \<Rightarrow> bool \<Rightarrow> bool" where
  "changes_to a A l r B s e u \<longleftrightarrow>
     (\<exists>h ns. change_between l r s e u (pr_store a) = (Some (), h) \<and>
        linked (a\<lparr>pr_store := h\<rparr>) ns \<and>
        map (node_seg (nodes h)) ns =
          changed_segs (map (node_seg (nodes (pr_store a))) A) (pn_vpn (nodes (pr_store a) l))
            (node_seg (nodes (pr_store a)) r) (map (node_seg (nodes (pr_store a))) B) s e u)"

lemma node_seg_update_outside [simp]:
  "x \<notin> set ns \<Longrightarrow> map (node_seg (N(x := n))) ns = map (node_seg N) ns"
  by (simp add: node_seg_def)

lemma node_seg_fst: "fst (node_seg N x) = pn_used (N x)"
  by (simp add: node_seg_def)

lemma fst_last_segs: "A \<noteq> [] \<Longrightarrow> fst (last (map (node_seg N) A)) = pn_used (N (last A))"
  by (simp add: last_map node_seg_fst)

lemma change_inside:
  assumes a: "linked a (A @ l # r # B)" and diff: "pn_used (nodes (pr_store a) l) \<noteq> u"
    and vpns: "pn_vpn (nodes (pr_store a) l) \<noteq> s" "pn_vpn (nodes (pr_store a) r) \<noteq> e"
  shows "changes_to a A l r B s e u"
proof -
  let ?h = "pr_store a" and ?N = "nodes (pr_store a)"
  have dist: "distinct (A @ l # r # B)" using a by (simp add: linked_def)
  note new = linked_fresh [OF a]
  have last: "last A \<noteq> l" "last A \<noteq> fresh ?h" if "A \<noteq> []"
    using dist new last_in_set [OF that] by auto
  define h2 where "h2 = snd (new_node (\<not> u) e (snd (new_node u s ?h)))"
  define h3 where "h3 = link (Suc (fresh ?h)) r
    (link (fresh ?h) (Suc (fresh ?h)) (link l (fresh ?h) h2))"
  have "linked (a\<lparr>pr_store := h2\<rparr>) (A @ l # r # B)"
    using linked_new_node [OF linked_new_node [OF a]] by (simp add: h2_def)
  then have k: "linked (a\<lparr>pr_store := h3\<rparr>) (A @ l # fresh ?h # Suc (fresh ?h) # r # B)"
    using new linked_insert_two [of "a\<lparr>pr_store := h2\<rparr>" A l r B "fresh ?h" "Suc (fresh ?h)"]
    by (simp add: h2_def h3_def page_node_new_def)
  have c: "change_between l r s e u ?h = (Some (), h3)"
    using vpns diff by (simp add: change_between_def new_node_def h2_def h3_def)
  have "map (node_seg (nodes h3)) (A @ l # fresh ?h # Suc (fresh ?h) # r # B) =
      changed_segs (map (node_seg ?N) A) (pn_vpn (?N l)) (node_seg ?N r) (map (node_seg ?N) B) s e u"
    using vpns new diff
    by (auto simp: h3_def h2_def changed_segs_def node_seg_def page_node_new_def)
  with c k show ?thesis unfolding changes_to_def by blast
qed

lemma change_right_aligned:
  assumes a: "linked a (A @ l # r # B)" and diff: "pn_used (nodes (pr_store a) l) \<noteq> u"
    and vpns: "pn_vpn (nodes (pr_store a) l) \<noteq> s" "pn_vpn (nodes (pr_store a) r) = e"
  shows "changes_to a A l r B s e u"
proof -
  let ?h = "pr_store a" and ?N = "nodes (pr_store a)"
  have dist: "distinct (A @ l # r # B)" using a by (simp add: linked_def)
  note new = linked_fresh [OF a]
  have last: "last A \<noteq> l" "last A \<noteq> fresh ?h" if "A \<noteq> []"
    using dist new last_in_set [OF that] by auto
  define h2 where "h2 = set_node (fresh ?h) (\<lambda>n. n\<lparr>pn_used := u\<rparr>) (snd (new_node (\<not> u) s ?h))"
  define h3 where "h3 = link (fresh ?h) r (link l (fresh ?h) h2)"
  have "linked (a\<lparr>pr_store := h2\<rparr>) (A @ l # r # B)"
    using linked_set_used [OF linked_new_node [OF a]] by (simp add: h2_def)
  then have "linked (a\<lparr>pr_store := h3\<rparr>) ((A @ [l, fresh ?h]) @ r # B)"
    using new linked_insert_one [of "a\<lparr>pr_store := h2\<rparr>" A l r B "fresh ?h"]
    by (simp add: h2_def h3_def page_node_new_def set_node_def)
  from linked_merge [OF this]
  have k: "linked (a\<lparr>pr_store := merge_range r h3\<rparr>)
      ((A @ [l, fresh ?h]) @ (if B \<noteq> [] \<and> pn_used (?N r) = u then B else r # B))"
    using new by (auto simp: h3_def h2_def page_node_new_def set_node_def split: if_splits)
  have c: "change_between l r s e u ?h = (Some (), merge_range r h3)"
    using vpns diff by (simp add: change_between_def new_node_def h2_def h3_def)
  have "map (node_seg (nodes (merge_range r h3)))
      ((A @ [l, fresh ?h]) @ (if B \<noteq> [] \<and> pn_used (?N r) = u then B else r # B)) =
      changed_segs (map (node_seg ?N) A) (pn_vpn (?N l)) (node_seg ?N r) (map (node_seg ?N) B) s e u"
    using vpns new diff
    by (auto simp: h3_def h2_def changed_segs_def right_merged_def node_seg_def
          page_node_new_def set_node_def)
  with c k show ?thesis unfolding changes_to_def by blast
qed

lemma change_left_aligned:
  assumes a: "linked a (A @ l # r # B)" and diff: "pn_used (nodes (pr_store a) l) \<noteq> u"
    and vpns: "pn_vpn (nodes (pr_store a) l) = s" "pn_vpn (nodes (pr_store a) r) \<noteq> e"
  shows "changes_to a A l r B s e u"
proof -
  let ?h = "pr_store a" and ?N = "nodes (pr_store a)"
  have dist: "distinct (A @ l # r # B)" using a by (simp add: linked_def)
  note new = linked_fresh [OF a]
  have last: "last A \<noteq> l" "last A \<noteq> fresh ?h" if "A \<noteq> []"
    using dist new last_in_set [OF that] by auto
  define h2 where "h2 = set_node l (\<lambda>n. n\<lparr>pn_used := u\<rparr>) (snd (new_node (\<not> u) e ?h))"
  define h3 where "h3 = link (fresh ?h) r (link l (fresh ?h) h2)"
  have "linked (a\<lparr>pr_store := h2\<rparr>) (A @ l # r # B)"
    using linked_set_used [OF linked_new_node [OF a]] by (simp add: h2_def)
  then have "linked (a\<lparr>pr_store := h3\<rparr>) (A @ l # fresh ?h # r # B)"
    using new linked_insert_one [of "a\<lparr>pr_store := h2\<rparr>" A l r B "fresh ?h"]
    by (simp add: h2_def h3_def page_node_new_def set_node_def)
  from linked_merge [OF this]
  have k: "linked (a\<lparr>pr_store := merge_range l h3\<rparr>)
      ((if A \<noteq> [] \<and> pn_used (?N (last A)) = u then A else A @ [l]) @ fresh ?h # r # B)"
    using new dist last
    by (auto simp: h3_def h2_def page_node_new_def set_node_def split: if_splits)
  have c: "change_between l r s e u ?h = (Some (), merge_range l h3)"
    using vpns diff by (simp add: change_between_def new_node_def h2_def h3_def)
  have "map (node_seg (nodes (merge_range l h3)))
      ((if A \<noteq> [] \<and> pn_used (?N (last A)) = u then A else A @ [l]) @ fresh ?h # r # B) =
      changed_segs (map (node_seg ?N) A) (pn_vpn (?N l)) (node_seg ?N r) (map (node_seg ?N) B) s e u"
    using vpns new diff dist
    by (auto simp: h3_def h2_def changed_segs_def left_merged_def node_seg_def last_map
          page_node_new_def set_node_def)
  with c k show ?thesis unfolding changes_to_def by blast
qed

lemma change_whole:
  assumes a: "linked a (A @ l # r # B)" and diff: "pn_used (nodes (pr_store a) l) \<noteq> u"
    and vpns: "pn_vpn (nodes (pr_store a) l) = s" "pn_vpn (nodes (pr_store a) r) = e"
  shows "changes_to a A l r B s e u"
proof -
  let ?h = "pr_store a" and ?N = "nodes (pr_store a)"
  have dist: "distinct (A @ l # r # B)" using a by (simp add: linked_def)
  note new = linked_fresh [OF a]
  have last: "last A \<noteq> l" "last A \<noteq> fresh ?h" if "A \<noteq> []"
    using dist new last_in_set [OF that] by auto
  define h2 where "h2 = set_node l (\<lambda>n. n\<lparr>pn_used := u\<rparr>) ?h"
  have h2: "linked (a\<lparr>pr_store := h2\<rparr>) (A @ l # r # B)"
    using linked_set_used [OF a] by (simp add: h2_def)
  define L where "L = (if A \<noteq> [] \<and> pn_used (?N (last A)) = u then A else A @ [l])"
  from linked_merge [OF h2] have "linked (a\<lparr>pr_store := merge_range l h2\<rparr>) (L @ r # B)"
    using dist last
    by (auto simp: L_def h2_def set_node_def split: if_splits)
  moreover have "L \<noteq> []" "pn_used (nodes h2 (last L)) = u"
    using dist last by (auto simp: L_def h2_def set_node_def)
  ultimately have k: "linked (a\<lparr>pr_store := merge_range r (merge_range l h2)\<rparr>)
      (L @ (if B \<noteq> [] \<and> pn_used (?N r) = u then B else r # B))"
    using linked_merge [of "a\<lparr>pr_store := merge_range l h2\<rparr>" L r B] dist
    by (auto simp: h2_def set_node_def split: if_splits)
  have c: "change_between l r s e u ?h = (Some (), merge_range r (merge_range l h2))"
    using vpns diff by (simp add: change_between_def h2_def)
  have "map (node_seg (nodes (merge_range r (merge_range l h2))))
      (L @ (if B \<noteq> [] \<and> pn_used (?N r) = u then B else r # B)) =
      changed_segs (map (node_seg ?N) A) (pn_vpn (?N l)) (node_seg ?N r) (map (node_seg ?N) B) s e u"
    using vpns diff dist
    by (auto simp: L_def h2_def changed_segs_def left_merged_def right_merged_def
          node_seg_def last_map set_node_def)
  with c k show ?thesis unfolding changes_to_def by blast
qed

lemma change_between_segs:
  assumes "linked a (A @ l # r # B)" and "pn_used (nodes (pr_store a) l) \<noteq> u"
  shows "changes_to a A l r B s e u"
  using assms change_inside change_right_aligned change_left_aligned change_whole by metis

section \<open>The effect of \<open>change\<close> on the set of occupied pages\<close>

lemma used_pages_right_merged:
  assumes "s \<le> r" and "\<forall>b \<in> set B. r \<le> snd b"
  shows "used_pages (A @ (u, s) # right_merged u (ru, r) B) = used_pages (A @ (u, s) # (ru, r) # B)"
proof (cases "B \<noteq> [] \<and> ru = u")
  case True
  then obtain b w B' where "B = (b, w) # B'" "ru = u" by (cases B) auto
  then show ?thesis
    using assms used_pages_merge [of s r w A u b B'] by (simp add: right_merged_def)
next
  case False
  then show ?thesis by (auto simp: right_merged_def)
qed

lemma left_merged_snoc:
  assumes "\<forall>a \<in> set A. snd a \<le> l"
  obtains A' v where "left_merged A (u, l) = A' @ [(u, v)]" and "v \<le> l" and
    "\<And>y B. l \<le> snd y \<Longrightarrow> used_pages (A' @ (u, v) # y # B) = used_pages (A @ (u, l) # y # B)"
proof (cases "A \<noteq> [] \<and> fst (last A) = u")
  case True
  then obtain A' v where A: "A = A' @ [(u, v)]" by (cases A rule: rev_cases) auto
  have "used_pages (A' @ (u, v) # y # B) = used_pages (A @ (u, l) # y # B)" if "l \<le> snd y" for y B
    using that assms used_pages_merge [of v l "snd y" A' u "fst y" B] by (simp add: A)
  moreover have "left_merged A (u, l) = A' @ [(u, v)]" "v \<le> l"
    using assms by (simp_all add: left_merged_def A)
  ultimately show ?thesis using that by blast
next
  case False
  then have "left_merged A (u, l) = A @ [(u, l)]" by (auto simp: left_merged_def)
  then show ?thesis using that [of A l] by blast
qed

lemma changed_segs_carved:
  assumes sorted: "sorted_wrt (<) (map snd (A @ (\<not> u, l) # (ru, r) # B))"
    and "l \<le> s" and "s < e" and "e \<le> r"
  shows "used_pages (changed_segs A l (ru, r) B s e u) =
         used_pages (A @ (\<not> u, l) # (u, s) # (\<not> u, e) # (ru, r) # B)"
proof -
  have B: "\<forall>b \<in> set B. r \<le> snd b" and A: "\<forall>a \<in> set A. snd a \<le> l" and lr: "l \<le> r"
    using sorted by (auto simp: sorted_wrt_append)
  obtain A' v where L: "left_merged A (u, l) = A' @ [(u, v)]" "v \<le> l"
    "\<And>y B. l \<le> snd y \<Longrightarrow> used_pages (A' @ (u, v) # y # B) = used_pages (A @ (u, l) # y # B)"
    using left_merged_snoc [OF A, of u] by blast
  consider (FF) "l \<noteq> s" "r \<noteq> e" | (FT) "l \<noteq> s" "r = e" | (TF) "l = s" "r \<noteq> e" | (TT) "l = s" "r = e"
    by blast
  then show ?thesis
  proof cases
    case FF
    then show ?thesis by (simp add: changed_segs_def)
  next
    case FT
    then show ?thesis
      using used_pages_drop_empty [of "A @ [(\<not> u, l), (u, s)]" "\<not> u" r ru B] assms(2-4)
        used_pages_right_merged [of s r B "A @ [(\<not> u, l)]" u ru, OF _ B]
      by (simp add: changed_segs_def)
  next
    case TF
    then show ?thesis
      using used_pages_drop_empty [of A "\<not> u" l u "(\<not> u, e) # (ru, r) # B"]
        L(3) [of "(\<not> u, e)" "(ru, r) # B"] assms(3) L(1)
      by (simp add: changed_segs_def)
  next
    case TT
    have "v \<le> r" using L(2) lr by simp
    have "used_pages (changed_segs A l (ru, r) B s e u) = used_pages (A' @ (u, v) # right_merged u (ru, r) B)"
      using TT L(1) by (simp add: changed_segs_def)
    also have "\<dots> = used_pages (A' @ (u, v) # (ru, r) # B)"
      using used_pages_right_merged [OF \<open>v \<le> r\<close> B] by simp
    also have "\<dots> = used_pages (A @ (u, l) # (ru, r) # B)"
      using L(3) lr by simp
    also have "\<dots> = used_pages (A @ (u, l) # (\<not> u, r) # (ru, r) # B)"
      using used_pages_drop_empty [of "A @ [(u, l)]" "\<not> u" r ru B] by simp
    also have "\<dots> = used_pages (A @ (\<not> u, l) # (u, s) # (\<not> u, e) # (ru, r) # B)"
      using used_pages_drop_empty [of A "\<not> u" l u "(\<not> u, r) # (ru, r) # B"] TT by simp
    finally show ?thesis .
  qed
qed

lemma changed_segs_used:
  assumes "sorted_wrt (<) (map snd (A @ (\<not> u, l) # (ru, r) # B))"
    and "l \<le> s" and "s < e" and "e \<le> r"
  shows "used_pages (changed_segs A l (ru, r) B s e u) =
           (if u then used_pages (A @ (\<not> u, l) # (ru, r) # B) \<union> {s..<e}
            else used_pages (A @ (\<not> u, l) # (ru, r) # B) - {s..<e})"
  using changed_segs_carved [OF assms] used_pages_carve [OF assms] by simp

lemma alternating_snoc [simp]: "alternating (A @ [x]) \<longleftrightarrow> successively (\<noteq>) (map fst A)"
  by (simp add: alternating_def)

lemma alternating_middle:
  assumes "B \<noteq> []"
  shows "alternating (A @ x # B) \<longleftrightarrow> successively (\<noteq>) (map fst (A @ [x])) \<and> alternating (x # B)"
  using assms
  by (auto simp: alternating_def butlast_append successively_append_iff successively_Cons)

lemma alternating_head:
  "B \<noteq> [] \<Longrightarrow> alternating (x # y # B) \<longleftrightarrow> fst x \<noteq> fst y \<and> alternating (y # B)"
  "alternating [x, y]"
  by (auto simp: alternating_def)

lemma successively_left_merged:
  assumes "successively (\<noteq>) (map fst (A @ [(\<not> u, l)]))"
  shows "successively (\<noteq>) (map fst (left_merged A (u, l)))" and "fst (last (left_merged A (u, l))) = u"
    and "left_merged A (u, l) \<noteq> []"
  using assms by (auto simp: left_merged_def successively_append_iff last_map)

lemma right_merged_alternating:
  assumes "alternating ((\<not> u, l) # (ru, r) # B)"
  shows "alternating ((u, s) # right_merged u (ru, r) B)"
proof (cases B)
  case (Cons b B')
  then show ?thesis
    using assms by (cases B') (auto simp: right_merged_def alternating_head)
qed (auto simp: right_merged_def alternating_head)

lemma alternating_changed:
  assumes "alternating (A @ (\<not> u, l) # (ru, r) # B)"
  shows "alternating (changed_segs A l (ru, r) B s e u)"
proof -
  have A: "successively (\<noteq>) (map fst (A @ [(\<not> u, l)]))" and B: "alternating ((\<not> u, l) # (ru, r) # B)"
    using assms by (simp_all add: alternating_middle)
  note L = successively_left_merged [OF A]
  note R = right_merged_alternating [OF B]
  have R1: "right_merged u (ru, r) B \<noteq> []" by (auto simp: right_merged_def)
  obtain L' v where L': "left_merged A (u, l) = L' @ [(u, v)]"
    using L by (cases "left_merged A (u, l)" rule: rev_cases) auto
  have B': "alternating ((\<not> u, e) # (ru, r) # B)"
    using B by (cases B) (auto simp: alternating_head)
  show ?thesis
    using A B B' L R R1 L'
    by (auto simp: changed_segs_def alternating_middle alternating_head successively_append_iff)
qed

lemma sorted_changed:
  assumes "sorted_wrt (<) (map snd (A @ (\<not> u, l) # (ru, r) # B))"
    and "l \<le> s" and "s < e" and "e \<le> r"
  shows "sorted_wrt (<) (map snd (changed_segs A l (ru, r) B s e u))"
proof -
  have A: "sorted_wrt (<) (map snd (left_merged A (u, l)))" "\<forall>x \<in> set (left_merged A (u, l)). snd x \<le> l"
    using assms(1) by (auto simp: left_merged_def sorted_wrt_append)
  have B: "sorted_wrt (<) (map snd (right_merged u (ru, r) B))"
    "\<forall>x \<in> set (right_merged u (ru, r) B). r \<le> snd x"
    using assms(1) by (auto simp: right_merged_def sorted_wrt_append)
  have "sorted_wrt (<) (map snd (A @ [(\<not> u, l)]))" "sorted_wrt (<) (map snd ((ru, r) # B))"
    "\<forall>x \<in> set A. snd x < l" "\<forall>x \<in> set B. r < snd x"
    using assms(1) by (auto simp: sorted_wrt_append)
  with A B assms(2-4) show ?thesis
    by (fastforce simp: changed_segs_def sorted_wrt_append)
qed

lemma left_merged_hd:
  "A \<noteq> [] \<Longrightarrow> hd (left_merged A x) = hd A" "left_merged [] x = [x]" "left_merged A x \<noteq> []"
  by (auto simp: left_merged_def)

lemma right_merged_last:
  "last (right_merged u y B) = last (y # B)" "right_merged u y B \<noteq> []"
  by (auto simp: right_merged_def)

lemma changed_segs_inv:
  assumes "segs_inv lo hi (A @ (\<not> u, l) # (ru, r) # B)"
    and "l \<le> s" and "s < e" and "e \<le> r"
  shows "segs_inv lo hi (changed_segs A l (ru, r) B s e u)"
proof -
  let ?C = "changed_segs A l (ru, r) B s e u"
  from assms(1) have "snd (hd (A @ [(\<not> u, l)])) = lo" "snd (last ((ru, r) # B)) = hi"
    by (auto simp: segs_inv_def hd_append)
  then have "snd (hd ?C) = lo" "snd (last ?C) = hi"
    by (cases A; auto simp: changed_segs_def left_merged_hd right_merged_last hd_append)+
  moreover have "2 \<le> length ?C"
    using left_merged_hd(3) [of A "(u, l)"] right_merged_last(2) [of u "(ru, r)" B]
    by (cases "left_merged A (u, l)"; cases "right_merged u (ru, r) B")
       (auto simp: changed_segs_def)
  ultimately show ?thesis
    using assms sorted_changed [OF _ assms(2-4)] alternating_changed
    by (simp add: segs_inv_def)
qed

end
