(* ===== verification/Page_Range_Contract.thy ===== *)
theory Page_Range_Contract
  imports Page_Range_Segments
begin

text \<open>
  The contract of the page range allocator over sets of pages, that the linked list of
  src/memory/allocator.rs honours it, and its properties.
\<close>

section \<open>\<open>change\<close> on sets of pages\<close>

lemma page_status:
  assumes sorted: "sorted_wrt (<) (map snd (A @ (v, l) # (w, r) # B))" and "l \<le> p" and "p < r"
  shows "p \<in> used_pages (A @ (v, l) # (w, r) # B) \<longleftrightarrow> v"
proof -
  have "p \<notin> used_pages (A @ [(True, l)])"
    using used_pages_below [of A True l p] sorted assms(2) by (auto simp: sorted_wrt_append)
  moreover have "p \<notin> used_pages ((w, r) # B)"
    using used_pages_above [of w r B p] sorted assms(3) by (auto simp: sorted_wrt_append)
  ultimately show ?thesis
    using used_pages_split [of A v l "(w, r) # B" True] assms(2,3) by auto
qed

text \<open>
  When a change of the range to the status \<open>u\<close> goes through: the range is not empty, it lies
  within the bounds, and all its pages have the other status.
\<close>

definition range_ok :: "usize \<Rightarrow> usize \<Rightarrow> usize set \<Rightarrow> usize \<Rightarrow> usize \<Rightarrow> bool \<Rightarrow> bool" where
  "range_ok lo hi S s e u \<longleftrightarrow>
     s < e \<and> lo \<le> s \<and> e \<le> hi \<and> (if u then {s..<e} \<inter> S = {} else {s..<e} \<subseteq> S)"

lemma range_ok_inside:
  assumes "segs_inv lo hi (A @ (v, l) # (w, r) # B)" and "l \<le> s" and "s < e" and "e \<le> r"
  shows "range_ok lo hi (used_pages (A @ (v, l) # (w, r) # B)) s e u \<longleftrightarrow> v \<noteq> u"
proof -
  have sorted: "sorted_wrt (<) (map snd (A @ (v, l) # (w, r) # B))"
    using assms(1) by (simp add: segs_inv_def)
  have status: "p \<in> used_pages (A @ (v, l) # (w, r) # B) \<longleftrightarrow> v" if "p \<in> {s..<e}" for p
    using page_status [OF sorted, of p] that assms(2,4) by auto
  have "lo \<le> l" using assms(1) sorted by (cases A) (auto simp: segs_inv_def)
  moreover have "r \<le> hi"
    using assms(1) sorted by (cases B rule: rev_cases) (auto simp: segs_inv_def sorted_wrt_append)
  moreover have "s \<in> {s..<e}" using assms(3) by simp
  ultimately show ?thesis
    using assms(2-4) status by (cases u; cases v) (auto simp: range_ok_def)
qed

lemma mixed_status:
  assumes "x \<in> I" and "y \<in> I" and "(x \<in> S) \<noteq> (y \<in> S)"
  shows "\<not> (if u then I \<inter> S = {} else I \<subseteq> S)"
  using assms by auto

lemma range_ok_straddling:
  assumes "segs_inv lo hi (A @ (v, l) # (w, r) # B)" and "l \<le> s" and "s < r" and "r < e"
  shows "\<not> range_ok lo hi (used_pages (A @ (v, l) # (w, r) # B)) s e u"
proof (cases B)
  case Nil
  then show ?thesis using assms by (auto simp: segs_inv_def range_ok_def)
next
  case (Cons b B')
  have sorted: "sorted_wrt (<) (map snd (A @ (v, l) # (w, r) # B))"
    using assms(1) by (simp add: segs_inv_def)
  have "v \<noteq> w"
    using assms(1) by (auto simp: segs_inv_def Cons alternating_middle alternating_head)
  moreover have "s \<in> used_pages (A @ (v, l) # (w, r) # B) \<longleftrightarrow> v"
    using page_status [OF sorted] assms by simp
  moreover have "r \<in> used_pages (A @ (v, l) # (w, r) # B) \<longleftrightarrow> w"
    using page_status [of "A @ [(v, l)]" w r "fst b" "snd b" B' r] sorted
    by (auto simp: Cons sorted_wrt_append)
  moreover have "s \<in> {s..<e}" "r \<in> {s..<e}" using assms by auto
  ultimately have "\<not> (if u then {s..<e} \<inter> used_pages (A @ (v, l) # (w, r) # B) = {}
                      else {s..<e} \<subseteq> used_pages (A @ (v, l) # (w, r) # B))"
    by (intro mixed_status [of s _ r]) auto
  then show ?thesis by (simp add: range_ok_def)
qed

lemma change_found:
  assumes inv: "pr_inv lo hi a" and ns: "pr_nodes a = A @ l # r # B" and "s < e"
    and vpns: "pn_vpn (nodes (pr_store a) l) \<le> s" "e \<le> pn_vpn (nodes (pr_store a) r)"
    and found: "find_range_nodes s e a = Some (Some (l, r))"
  shows "if range_ok lo hi (pr_used a) s e u
         then \<exists>a'. change s e u a = (Ok (Some ()), a') \<and> pr_inv lo hi a' \<and>
                pr_used a' = (if u then pr_used a \<union> {s..<e} else pr_used a - {s..<e})
         else change s e u a = (Ok None, a)"
proof -
  let ?N = "nodes (pr_store a)"
  have lk: "linked a (A @ l # r # B)" and segs: "segs_inv lo hi (pr_segs a)"
    using inv ns by (auto simp: pr_inv_def)
  have seq: "pr_segs a = map (node_seg ?N) A @ node_seg ?N l # node_seg ?N r # map (node_seg ?N) B"
    using ns by (simp add: pr_segs_def)
  have ch: "change s e u a = (case change_between l r s e u (pr_store a) of
      (x, h) \<Rightarrow> (Ok x, a\<lparr>pr_store := h\<rparr>))"
    using \<open>s < e\<close> found by (auto simp: change_def)
  have ok: "range_ok lo hi (pr_used a) s e u \<longleftrightarrow> pn_used (?N l) \<noteq> u"
    using range_ok_inside [of lo hi _ _ _ _ _ _ s e u] segs vpns \<open>s < e\<close>
    by (simp add: pr_used_def seq node_seg_def)
  show ?thesis
  proof (cases "pn_used (?N l) = u")
    case True
    then show ?thesis using ok ch by (simp add: change_between_def Let_def)
  next
    case False
    from change_between_segs [OF lk False, of s e]
    obtain h ms where h: "change_between l r s e u (pr_store a) = (Some (), h)"
      "linked (a\<lparr>pr_store := h\<rparr>) ms"
      "map (node_seg (nodes h)) ms =
         changed_segs (map (node_seg ?N) A) (pn_vpn (?N l)) (node_seg ?N r) (map (node_seg ?N) B) s e u"
      unfolding changes_to_def by blast
    let ?a' = "a\<lparr>pr_store := h\<rparr>"
    have segs': "pr_segs ?a' =
        changed_segs (map (node_seg ?N) A) (pn_vpn (?N l)) (node_seg ?N r) (map (node_seg ?N) B) s e u"
      using h(3) linked_pr_nodes [OF h(2)] by (simp add: pr_segs_def)
    have u: "pn_used (?N l) = (\<not> u)" using False by auto
    have "segs_inv lo hi (pr_segs ?a')"
      using changed_segs_inv [of lo hi _ u _ _ _ _ s e] segs vpns \<open>s < e\<close> u
      by (simp add: seq segs' node_seg_def)
    moreover have "pr_used ?a' = (if u then pr_used a \<union> {s..<e} else pr_used a - {s..<e})"
      using changed_segs_used [of _ u _ _ _ _ s e] segs vpns \<open>s < e\<close> u
      by (simp add: seq segs' pr_used_def segs_inv_def node_seg_def)
    ultimately show ?thesis
      using ok False ch h(1) h(2) linked_pr_nodes [OF h(2)] by (simp add: pr_inv_def)
  qed
qed

lemma change_spec:
  assumes inv: "pr_inv lo hi a"
  shows "if range_ok lo hi (pr_used a) s e u
         then \<exists>a'. change s e u a = (Ok (Some ()), a') \<and> pr_inv lo hi a' \<and>
                pr_used a' = (if u then pr_used a \<union> {s..<e} else pr_used a - {s..<e})
         else change s e u a = (Ok None, a)"
proof (cases "s < e")
  case False
  then show ?thesis by (simp add: change_def range_ok_def not_less)
next
  case True
  let ?N = "nodes (pr_store a)"
  have lk: "linked a (pr_nodes a)" and segs: "segs_inv lo hi (pr_segs a)"
    using inv by (auto simp: pr_inv_def)
  obtain xs where ns: "pr_nodes a = pr_root a # xs"
    using lk by (cases "pr_nodes a") (auto simp: linked_def)
  have "dll ?N None (pr_root a # xs) None" using lk ns by (simp add: linked_def)
  from find_loop_spec [OF this, of s e] show ?thesis
  proof (elim disjE exE conjE, goal_cases)
    case (1 A l r B)
    then show ?case
      using change_found [OF inv _ True, of A l r B u] ns by (simp add: find_range_nodes_def)
  next
    case 2
    then have "\<not> range_ok lo hi (pr_used a) s e u"
      using segs ns by (auto simp: segs_inv_def pr_segs_def range_ok_def node_seg_def)
    then show ?case using 2(1) True by (simp add: change_def find_range_nodes_def)
  next
    case 3
    have "snd (last (map (node_seg ?N) (pr_root a # xs))) = hi"
      using segs ns by (simp add: segs_inv_def pr_segs_def)
    then have "pn_vpn (?N (last (pr_root a # xs))) = hi"
      unfolding last_map [OF list.discI [OF refl]] by (simp add: node_seg_def)
    then have "\<not> range_ok lo hi (pr_used a) s e u"
      using 3(2) True by (auto simp: range_ok_def)
    then show ?case using 3(1) True by (simp add: change_def find_range_nodes_def)
  next
    case (4 A l r B)
    have seq: "pr_segs a = map (node_seg ?N) A @ node_seg ?N l # node_seg ?N r # map (node_seg ?N) B"
      using 4(2) ns by (simp add: pr_segs_def)
    have "\<not> range_ok lo hi (pr_used a) s e u"
      using range_ok_straddling [of lo hi _ _ _ _ _ _ s e u] segs 4(3-5)
      by (simp add: pr_used_def seq node_seg_def)
    then show ?case using 4(1) True by (simp add: change_def find_range_nodes_def)
  qed
qed

section \<open>The contract of a page range allocator\<close>

locale range_allocator =
  fixes ralloc :: "usize \<Rightarrow> usize \<Rightarrow> ('s, unit option) kop"
    and rdealloc :: "usize \<Rightarrow> usize \<Rightarrow> ('s, unit option) kop"
    and occupied :: "'s \<Rightarrow> usize set"
    and rinv :: "'s \<Rightarrow> bool"
    and lo :: usize
    and hi :: usize
  assumes alloc_ok: "rinv a \<Longrightarrow> range_ok lo hi (occupied a) s e True \<Longrightarrow>
      \<exists>a'. ralloc s e a = (Ok (Some ()), a') \<and> rinv a' \<and> occupied a' = occupied a \<union> {s..<e}"
    and alloc_refused: "rinv a \<Longrightarrow> \<not> range_ok lo hi (occupied a) s e True \<Longrightarrow>
      ralloc s e a = (Ok None, a)"
    and dealloc_ok: "rinv a \<Longrightarrow> range_ok lo hi (occupied a) s e False \<Longrightarrow>
      \<exists>a'. rdealloc s e a = (Ok (Some ()), a') \<and> rinv a' \<and> occupied a' = occupied a - {s..<e}"
    and dealloc_refused: "rinv a \<Longrightarrow> \<not> range_ok lo hi (occupied a) s e False \<Longrightarrow>
      rdealloc s e a = (Ok None, a)"
begin

lemma alloc_SomeD:
  assumes "rinv a" and "ralloc s e a = (Ok (Some ()), a')"
  shows "range_ok lo hi (occupied a) s e True" and "rinv a'"
    and "occupied a' = occupied a \<union> {s..<e}"
proof -
  show ok: "range_ok lo hi (occupied a) s e True"
    using assms alloc_refused by fastforce
  show "rinv a'" "occupied a' = occupied a \<union> {s..<e}"
    using alloc_ok [OF assms(1) ok] assms(2) by auto
qed

lemma alloc_returns:
  assumes "rinv a"
  obtains (taken) a' where "ralloc s e a = (Ok (Some ()), a')"
      and "range_ok lo hi (occupied a) s e True" and "rinv a'"
      and "occupied a' = occupied a \<union> {s..<e}"
    | (refused) "ralloc s e a = (Ok None, a)" and "\<not> range_ok lo hi (occupied a) s e True"
  using alloc_ok alloc_refused assms by metis

lemma dealloc_returns:
  assumes "rinv a"
  obtains (freed) a' where "rdealloc s e a = (Ok (Some ()), a')"
      and "range_ok lo hi (occupied a) s e False" and "rinv a'"
      and "occupied a' = occupied a - {s..<e}"
    | (refused) "rdealloc s e a = (Ok None, a)" and "\<not> range_ok lo hi (occupied a) s e False"
  using dealloc_ok dealloc_refused assms by metis

lemma alloc_overlap_refused:
  assumes "rinv a" and "ralloc s e a = (Ok (Some ()), a')" and "{s..<e} \<inter> {s'..<e'} \<noteq> {}"
  shows "ralloc s' e' a' = (Ok None, a')"
proof (rule alloc_refused)
  show "rinv a'" using alloc_SomeD [OF assms(1,2)] by simp
  have "{s'..<e'} \<inter> occupied a' \<noteq> {}"
    using alloc_SomeD(3) [OF assms(1,2)] assms(3) by blast
  then show "\<not> range_ok lo hi (occupied a') s' e' True"
    unfolding range_ok_def by simp
qed

lemma alloc_dealloc_roundtrip:
  assumes "rinv a" and "ralloc s e a = (Ok (Some ()), a')"
  shows "\<exists>a''. rdealloc s e a' = (Ok (Some ()), a'') \<and> rinv a'' \<and> occupied a'' = occupied a"
proof -
  note al = alloc_SomeD [OF assms]
  have "range_ok lo hi (occupied a') s e False"
    using al(1,3) unfolding range_ok_def by simp
  from dealloc_ok [OF al(2) this] al show ?thesis
    unfolding range_ok_def by fastforce
qed

end

interpretation pages: range_allocator range_alloc range_dealloc pr_used "pr_inv lo hi" lo hi for lo hi
proof
  fix a s e
  assume inv: "pr_inv lo hi a"
  show "\<exists>a'. range_alloc s e a = (Ok (Some ()), a') \<and> pr_inv lo hi a' \<and>
          pr_used a' = pr_used a \<union> {s..<e}" if "range_ok lo hi (pr_used a) s e True"
    using change_spec [OF inv, of s e True] that by (simp add: range_alloc_def)
  show "range_alloc s e a = (Ok None, a)" if "\<not> range_ok lo hi (pr_used a) s e True"
    using change_spec [OF inv, of s e True] that by (simp add: range_alloc_def)
  show "\<exists>a'. range_dealloc s e a = (Ok (Some ()), a') \<and> pr_inv lo hi a' \<and>
          pr_used a' = pr_used a - {s..<e}" if "range_ok lo hi (pr_used a) s e False"
    using change_spec [OF inv, of s e False] that by (simp add: range_dealloc_def)
  show "range_dealloc s e a = (Ok None, a)" if "\<not> range_ok lo hi (pr_used a) s e False"
    using change_spec [OF inv, of s e False] that by (simp add: range_dealloc_def)
qed

lemma page_ranges_new_inv:
  assumes "page_ranges_new lo hi = Ok a"
  shows "pr_inv lo hi a" and "pr_used a = {}"
proof -
  have lt: "lo < hi" using assms by (simp add: page_ranges_new_def split: if_splits)
  have lk: "linked a [0, 1]"
    using assms by (auto simp: page_ranges_new_def new_node_def page_node_new_def linked_def
        link_def set_node_def Let_def split: if_splits)
  have segs: "pr_segs a = [(False, lo), (False, hi)]"
    using assms linked_pr_nodes [OF lk]
    by (auto simp: page_ranges_new_def new_node_def page_node_new_def pr_segs_def node_seg_def
        link_def set_node_def Let_def split: if_splits)
  show "pr_inv lo hi a" "pr_used a = {}"
    using lk lt by (simp_all add: pr_inv_def pr_used_def segs linked_pr_nodes [OF lk] segs_inv_def
        alternating_head)
qed

section \<open>Properties\<close>

text \<open>A history of allocations (\<open>True\<close>) and releases (\<open>False\<close>).\<close>

fun range_run :: "(bool \<times> usize \<times> usize) list \<Rightarrow> (page_ranges, unit option list) kop" where
  "range_run [] = kret []"
| "range_run ((u, s, e) # cs) =
     kbind (if u then range_alloc s e else range_dealloc s e) (\<lambda>r.
     kbind (range_run cs) (\<lambda>rs. kret (r # rs)))"

fun pages_run :: "usize \<Rightarrow> usize \<Rightarrow> (bool \<times> usize \<times> usize) list \<Rightarrow> usize set \<Rightarrow> unit option list \<times> usize set" where
  "pages_run lo hi [] S = ([], S)"
| "pages_run lo hi ((u, s, e) # cs) S =
     (if range_ok lo hi S s e u
      then case pages_run lo hi cs (if u then S \<union> {s..<e} else S - {s..<e}) of (rs, T) \<Rightarrow> (Some () # rs, T)
      else case pages_run lo hi cs S of (rs, T) \<Rightarrow> (None # rs, T))"

lemma range_run_spec:
  assumes "pr_inv lo hi a"
  shows "\<exists>a'. range_run cs a = (Ok (fst (pages_run lo hi cs (pr_used a))), a') \<and> pr_inv lo hi a' \<and>
              pr_used a' = snd (pages_run lo hi cs (pr_used a))"
  using assms
proof (induction cs arbitrary: a)
  case Nil
  then show ?case by simp
next
  case (Cons c cs)
  obtain u s e where c: "c = (u, s, e)" by (cases c)
  have step: "(if u then range_alloc s e else range_dealloc s e) a = change s e u a"
    by (simp add: range_alloc_def range_dealloc_def)
  show ?case
  proof (cases "range_ok lo hi (pr_used a) s e u")
    case True
    then obtain a1 where a1: "change s e u a = (Ok (Some ()), a1)" "pr_inv lo hi a1"
      "pr_used a1 = (if u then pr_used a \<union> {s..<e} else pr_used a - {s..<e})"
      using change_spec [OF Cons.prems, of s e u] by auto
    obtain a2 where a2: "range_run cs a1 = (Ok (fst (pages_run lo hi cs (pr_used a1))), a2)"
      "pr_inv lo hi a2" "pr_used a2 = snd (pages_run lo hi cs (pr_used a1))"
      using Cons.IH [OF a1(2)] by blast
    have "range_run (c # cs) a = (Ok (Some () # fst (pages_run lo hi cs (pr_used a1))), a2)"
      using a1(1) a2(1) step by (simp add: c kbind_def split: if_splits)
    then show ?thesis
      using True a1(3) a2(2,3) by (simp add: c split: prod.splits)
  next
    case False
    then have a1: "change s e u a = (Ok None, a)"
      using change_spec [OF Cons.prems, of s e u] by simp
    obtain a2 where a2: "range_run cs a = (Ok (fst (pages_run lo hi cs (pr_used a))), a2)"
      "pr_inv lo hi a2" "pr_used a2 = snd (pages_run lo hi cs (pr_used a))"
      using Cons.IH [OF Cons.prems] by blast
    have "range_run (c # cs) a = (Ok (None # fst (pages_run lo hi cs (pr_used a))), a2)"
      using a1 a2(1) step by (simp add: c kbind_def split: if_splits)
    then show ?thesis
      using False a2(2,3) by (simp add: c split: prod.splits)
  qed
qed

text \<open>
  C5. For any bounds and any history of allocation and release requests, the linked list gives the
  answers, and ends with the occupied pages, of a plain set of pages that grants an allocation
  exactly when the range is not empty, lies within the bounds and is free, and a release exactly
  when all its pages are occupied. No search runs forever, and at the end two consecutive
  intervals never have the same status.
\<close>

theorem page_range_history:
  assumes "lo < hi"
  shows "\<exists>a a'. page_ranges_new lo hi = Ok a \<and>
           range_run cs a = (Ok (fst (pages_run lo hi cs {})), a') \<and>
           pr_used a' = snd (pages_run lo hi cs {}) \<and>
           successively (\<noteq>) (map fst (butlast (pr_segs a')))"
proof -
  obtain a where a: "page_ranges_new lo hi = Ok a"
    using assms by (simp add: page_ranges_new_def new_node_def Let_def)
  note inv = page_ranges_new_inv [OF a]
  from range_run_spec [OF inv(1), of cs] inv(2) a show ?thesis
    by (auto simp: pr_inv_def segs_inv_def alternating_def)
qed

theorem page_range_history_witness:
  "\<exists>a a'. page_ranges_new 0 16 = Ok a \<and>
     range_run [(True, 2, 5), (True, 4, 8), (True, 5, 8), (False, 3, 6), (False, 2, 4)] a =
       (Ok [Some (), None, Some (), Some (), None], a') \<and>
     pr_used a' = {2..<5} \<union> {5..<8} - {3..<6}"
proof -
  have "(4::usize) \<in> {4..<8} \<inter> {2..<5}" "(3::usize) \<in> {2..<4}"
    "(3::usize) \<notin> {2..<5} \<union> {5..<8} - {3..<6}"
    by (auto simp: word_less_nat_alt word_le_nat_alt)
  then have "{4..<8} \<inter> {2..<5 :: usize} \<noteq> {}" "\<not> {2..<4} \<subseteq> {2..<5} \<union> {5..<8} - {3..<6 :: usize}"
    by blast+
  moreover have "{5..<8} \<inter> {2..<5 :: usize} = {}" "{3..<6} \<subseteq> {2..<5} \<union> {5..<8 :: usize}"
    by (auto simp: word_less_nat_alt word_le_nat_alt)
  ultimately have run: "pages_run 0 16
      [(True, 2, 5), (True, 4, 8), (True, 5, 8), (False, 3, 6), (False, 2, 4)] {} =
      ([Some (), None, Some (), Some (), None], {2..<5} \<union> {5..<8} - {3..<6})"
    by (simp add: range_ok_def)
  have "(0 :: usize) < 16" by simp
  from page_range_history [OF this,
      of "[(True, 2, 5), (True, 4, 8), (True, 5, 8), (False, 3, 6), (False, 2, 4)]"]
  show ?thesis unfolding run fst_conv snd_conv by blast
qed

text \<open>
  After a range was allocated, an allocation of any range that shares a page with it is refused
  and changes nothing: no page is handed out twice.
\<close>

theorem allocated_range_exclusive:
  assumes "pr_inv lo hi a" and "range_alloc s e a = (Ok (Some ()), a')"
    and "{s..<e} \<inter> {s'..<e'} \<noteq> {}"
  shows "range_alloc s' e' a' = (Ok None, a')"
  by (rule pages.alloc_overlap_refused [OF assms])

text \<open>
  Releasing a range that was just allocated succeeds and gives back the pages that were
  occupied before.
\<close>

theorem range_alloc_dealloc_roundtrip:
  assumes "pr_inv lo hi a" and "range_alloc s e a = (Ok (Some ()), a')"
  shows "\<exists>a''. range_dealloc s e a' = (Ok (Some ()), a'') \<and> pr_inv lo hi a'' \<and> pr_used a'' = pr_used a"
  by (rule pages.alloc_dealloc_roundtrip [OF assms])

end
