(* ===== verification/Buffers.thy ===== *)
theory Buffers
  imports Kernel_Prelude
begin

text \<open>
  The buffers of src/lang/buffer.rs.

  \<^item> \<open>byte_buffers\<close>: user memory that is scattered over several page slices
    (\<open>ByteBuffers\<close>) and the iterator that reads or writes it as if it were contiguous
    (\<open>ByteBuffersU8Iterator\<close>). A slice is the list of its bytes. The iterator is shown to be a
    cursor into the concatenation of the slices.
  \<^item> \<open>ring_buffer\<close>: the buffer of a pipe (\<open>RingBuffer\<close>), shown to be a bounded FIFO
    queue of bytes. The locale \<open>byte_queue\<close> is that contract.

  Indices and lengths are natural numbers: a \<open>Vec\<close> or a slice holds at most
  \<open>isize::MAX\<close> bytes, so no index computation here can wrap around.
\<close>

section \<open>Scattered buffers\<close>

record byte_buffers =
  bb_inner :: "u8 list list"
  bb_length :: usize

definition byte_buffers_new :: "u8 list list \<Rightarrow> usize \<Rightarrow> byte_buffers" where
  "byte_buffers_new inner len = \<lparr>bb_inner = inner, bb_length = len\<rparr>"

definition into_slices :: "byte_buffers \<Rightarrow> u8 list list" where
  "into_slices b = bb_inner b"

text \<open>\<open>string.push(*byte as char)\<close>: the code point is the byte.\<close>

definition into_utf8_str :: "byte_buffers \<Rightarrow> string outcome" where
  "into_utf8_str b =
     Ok (fold (\<lambda>slice str. fold (\<lambda>byte str. str @ [char_of (unat byte)]) slice str)
           (bb_inner b) [])"

record byte_iter =
  it_buffer :: "u8 list list"
  it_index :: nat
  it_offset :: nat

definition into_iter :: "byte_buffers \<Rightarrow> byte_iter" where
  "into_iter b = \<lparr>it_buffer = bb_inner b, it_index = 0, it_offset = 0\<rparr>"

function iter_next :: "byte_iter \<Rightarrow> u8 option \<times> byte_iter" where
  "iter_next it =
     (if it_index it < length (it_buffer it) then
        let inner = it_buffer it ! it_index it in
        if it_offset it < length inner
        then (Some (inner ! it_offset it), it\<lparr>it_offset := it_offset it + 1\<rparr>)
        else iter_next (it\<lparr>it_index := it_index it + 1, it_offset := 0\<rparr>)
      else (None, it))"
  by pat_completeness auto
termination
  by (relation "measure (\<lambda>it. length (it_buffer it) - it_index it)") auto

function iter_next_mut :: "u8 \<Rightarrow> byte_iter \<Rightarrow> unit outcome \<times> byte_iter" where
  "iter_next_mut byte it =
     (if it_index it < length (it_buffer it) then
        let inner = it_buffer it ! it_index it in
        if it_offset it < length inner
        then (Ok (), it\<lparr>it_offset := it_offset it + 1,
                       it_buffer := (it_buffer it)[it_index it := inner[it_offset it := byte]]\<rparr>)
        else iter_next_mut byte (it\<lparr>it_index := it_index it + 1, it_offset := 0\<rparr>)
      else (Err EOB, it))"
  by pat_completeness auto
termination
  by (relation "measure (\<lambda>(_, it). length (it_buffer it) - it_index it)") auto

declare iter_next.simps [simp del] iter_next_mut.simps [simp del]

section \<open>The ring buffer\<close>

datatype ring_buffer_status = EMPTY | FULL | NORMAL nat

record ring_buffer =
  rb_head :: nat
  rb_tail :: nat
  rb_status :: ring_buffer_status
  rb_buffer :: "u8 list"

definition ring_buffer_new :: "nat \<Rightarrow> ring_buffer outcome" where
  "ring_buffer_new cap =
     (if 2 < cap
      then Ok \<lparr>rb_head = 0, rb_tail = 0, rb_status = EMPTY, rb_buffer = replicate cap 0\<rparr>
      else Panic)"

definition rb_capacity :: "ring_buffer \<Rightarrow> nat" where
  "rb_capacity rb = length (rb_buffer rb)"

definition rb_len :: "ring_buffer \<Rightarrow> nat" where
  "rb_len rb = (case rb_status rb of EMPTY \<Rightarrow> 0 | FULL \<Rightarrow> rb_capacity rb | NORMAL sz \<Rightarrow> sz)"

definition read_byte :: "(ring_buffer, u8 option) kop" where
  "read_byte rb =
     (let sz = rb_len rb in
      if sz = 0 then (Ok None, rb)
      else if rb_tail rb < length (rb_buffer rb) then
        let byte = rb_buffer rb ! rb_tail rb;
            tail = (if rb_tail rb + 1 = rb_capacity rb then 0 else rb_tail rb + 1);
            status = (if tail = rb_head rb then EMPTY else NORMAL (sz - 1))
        in (Ok (Some byte), rb\<lparr>rb_tail := tail, rb_status := status\<rparr>)
      else (Panic, rb))"

definition write_byte :: "u8 \<Rightarrow> (ring_buffer, unit) kop" where
  "write_byte byte rb =
     (let capacity = rb_capacity rb; sz = rb_len rb in
      if sz = capacity then (Err EOB, rb)
      else if rb_head rb < length (rb_buffer rb) then
        let head = (if rb_head rb + 1 = capacity then 0 else rb_head rb + 1);
            status = (if rb_tail rb = head then FULL else NORMAL (sz + 1))
        in (Ok (), rb\<lparr>rb_buffer := (rb_buffer rb)[rb_head rb := byte], rb_head := head,
                      rb_status := status\<rparr>)
      else (Panic, rb))"

text \<open>The bytes waiting to be read, the oldest first, and the invariant.\<close>

definition rb_contents :: "ring_buffer \<Rightarrow> u8 list" where
  "rb_contents rb =
     map (\<lambda>i. rb_buffer rb ! ((rb_tail rb + i) mod rb_capacity rb)) [0..<rb_len rb]"

definition rb_inv :: "ring_buffer \<Rightarrow> bool" where
  "rb_inv rb \<longleftrightarrow>
     2 < rb_capacity rb \<and> rb_tail rb < rb_capacity rb \<and>
     rb_head rb = (rb_tail rb + rb_len rb) mod rb_capacity rb \<and>
     (case rb_status rb of NORMAL n \<Rightarrow> 0 < n \<and> n < rb_capacity rb | _ \<Rightarrow> True)"

section \<open>The contract of a bounded byte queue\<close>

locale byte_queue =
  fixes qread :: "('s, u8 option) kop"
    and qwrite :: "u8 \<Rightarrow> ('s, unit) kop"
    and contents :: "'s \<Rightarrow> u8 list"
    and bound :: "'s \<Rightarrow> nat"
    and qinv :: "'s \<Rightarrow> bool"
  assumes bounded: "qinv q \<Longrightarrow> length (contents q) \<le> bound q"
    and read_empty: "qinv q \<Longrightarrow> contents q = [] \<Longrightarrow> qread q = (Ok None, q)"
    and read_front: "qinv q \<Longrightarrow> contents q = b # bs \<Longrightarrow>
      \<exists>q'. qread q = (Ok (Some b), q') \<and> qinv q' \<and> contents q' = bs \<and> bound q' = bound q"
    and write_full: "qinv q \<Longrightarrow> length (contents q) = bound q \<Longrightarrow> qwrite b q = (Err EOB, q)"
    and write_back: "qinv q \<Longrightarrow> length (contents q) < bound q \<Longrightarrow>
      \<exists>q'. qwrite b q = (Ok (), q') \<and> qinv q' \<and> contents q' = contents q @ [b] \<and> bound q' = bound q"
begin

text \<open>Writing a list of bytes that fits appends it; reading takes the front off.\<close>

lemma write_list:
  assumes "qinv q" and "length (contents q) + length bs \<le> bound q"
  shows "\<exists>q'. kfor bs qwrite q = (Ok (), q') \<and> qinv q' \<and> contents q' = contents q @ bs \<and>
              bound q' = bound q"
  using assms
proof (induction bs arbitrary: q)
  case Nil
  then show ?case by simp
next
  case (Cons b bs)
  then obtain q1 where "qwrite b q = (Ok (), q1)" "qinv q1" "contents q1 = contents q @ [b]"
    "bound q1 = bound q"
    using write_back [of q b] by auto
  with Cons show ?case by fastforce
qed

lemma write_then_read:
  assumes "qinv q" and "contents q = []" and "0 < bound q"
  shows "\<exists>q' q''. qwrite b q = (Ok (), q') \<and> qread q' = (Ok (Some b), q'') \<and> qinv q'' \<and>
                  contents q'' = []"
  using write_back [of q b] read_front assms by fastforce

lemma never_panics:
  assumes "qinv q"
  shows "fst (qread q) \<noteq> Panic" and "fst (qwrite b q) \<noteq> Panic"
proof -
  show "fst (qread q) \<noteq> Panic"
    using read_empty [OF assms] read_front [OF assms] by (cases "contents q") fastforce+
  show "fst (qwrite b q) \<noteq> Panic"
    using write_full [OF assms, of b] write_back [OF assms, of b] bounded [OF assms]
    by (cases "length (contents q) = bound q") fastforce+
qed

end

section \<open>The ring buffer honours it\<close>

lemma wrap_mod: "i < c \<Longrightarrow> t < c \<Longrightarrow> (t + i) mod c = (if t + i < c then t + i else t + i - c)" for t :: nat
  by (simp add: le_mod_geq)

lemma wrap_inj:
  fixes t :: nat
  assumes "t < c" and "i < c" and "j < c"
  shows "(t + i) mod c = (t + j) mod c \<longleftrightarrow> i = j"
  using assms by (auto simp: wrap_mod split: if_splits)

lemma wrap_step: "i < c \<Longrightarrow> (if i + 1 = c then 0 else i + 1) = (i + 1) mod c" for i :: nat
  by auto

lemma rb_len_contents [simp]: "length (rb_contents rb) = rb_len rb"
  by (simp add: rb_contents_def)

lemma rb_contents_nth:
  "i < rb_len rb \<Longrightarrow> rb_contents rb ! i = rb_buffer rb ! ((rb_tail rb + i) mod rb_capacity rb)"
  by (simp add: rb_contents_def del: upt_Suc)

lemma rb_len_le: "rb_inv rb \<Longrightarrow> rb_len rb \<le> rb_capacity rb"
  by (auto simp: rb_inv_def rb_len_def split: ring_buffer_status.splits)

lemma write_byte_appends:
  assumes inv: "rb_inv rb" and room: "rb_len rb < rb_capacity rb"
  shows "\<exists>rb'. write_byte b rb = (Ok (), rb') \<and> rb_inv rb' \<and> rb_contents rb' = rb_contents rb @ [b] \<and>
               rb_capacity rb' = rb_capacity rb"
proof -
  let ?c = "rb_capacity rb" and ?n = "rb_len rb" and ?t = "rb_tail rb"
  have c: "2 < ?c" "?t < ?c" and h: "rb_head rb = (?t + ?n) mod ?c"
    using inv by (auto simp: rb_inv_def)
  have hc: "rb_head rb < ?c" using c h by simp
  define h' where "h' = (if rb_head rb + 1 = ?c then 0 else rb_head rb + 1)"
  have h': "h' = (?t + (?n + 1)) mod ?c"
    using wrap_step [OF hc] h by (simp add: h'_def mod_simps)
  define rb' where "rb' = rb\<lparr>rb_buffer := (rb_buffer rb)[rb_head rb := b], rb_head := h',
      rb_status := (if ?t = h' then FULL else NORMAL (?n + 1))\<rparr>"
  have wr: "write_byte b rb = (Ok (), rb')"
    using room hc by (simp add: write_byte_def rb'_def h'_def rb_capacity_def Let_def)
  have full: "?t = h' \<longleftrightarrow> ?n + 1 = ?c"
  proof (cases "?n + 1 = ?c")
    case True
    have "h' = ?t" using h' c by (simp only: True mod_add_self2 mod_less)
    then show ?thesis using True by simp
  next
    case False
    then show ?thesis using h' room c wrap_inj [of ?t ?c "?n + 1" 0] by auto
  qed
  have cap: "rb_capacity rb' = ?c" by (simp add: rb'_def rb_capacity_def)
  have len: "rb_len rb' = ?n + 1"
    using full cap by (auto simp: rb_len_def rb'_def)
  have "rb_inv rb'"
    using c h' len cap full room by (auto simp: rb_inv_def rb'_def)
  moreover have "rb_contents rb' = rb_contents rb @ [b]"
  proof (rule nth_equalityI)
    fix i
    assume "i < length (rb_contents rb')"
    then have i: "i \<le> ?n" using len by simp
    have hit: "(?t + i) mod ?c = rb_head rb \<longleftrightarrow> i = ?n"
      using wrap_inj [of ?t ?c i ?n] c room i h by simp
    have "rb_contents rb' ! i = (rb_buffer rb)[rb_head rb := b] ! ((?t + i) mod ?c)"
      using i cap len by (simp add: rb_contents_nth) (simp add: rb'_def)
    moreover have "(rb_contents rb @ [b]) ! i = (if i = ?n then b else rb_buffer rb ! ((?t + i) mod ?c))"
      using i by (auto simp: nth_append rb_contents_nth)
    ultimately show "rb_contents rb' ! i = (rb_contents rb @ [b]) ! i"
      using hit hc by (auto simp: nth_list_update rb_capacity_def)
  qed (simp add: len)
  ultimately show ?thesis using wr cap by blast
qed

lemma read_byte_takes:
  assumes inv: "rb_inv rb" and some: "0 < rb_len rb"
  shows "\<exists>rb'. read_byte rb = (Ok (Some (hd (rb_contents rb))), rb') \<and> rb_inv rb' \<and>
               rb_contents rb' = tl (rb_contents rb) \<and> rb_capacity rb' = rb_capacity rb"
proof -
  let ?c = "rb_capacity rb" and ?n = "rb_len rb" and ?t = "rb_tail rb"
  have c: "2 < ?c" "?t < ?c" and h: "rb_head rb = (?t + ?n) mod ?c"
    using inv by (auto simp: rb_inv_def)
  define t' where "t' = (if ?t + 1 = ?c then 0 else ?t + 1)"
  have t': "t' = (?t + 1) mod ?c"
    using wrap_step [OF c(2)] by (simp add: t'_def)
  define rb' where "rb' = rb\<lparr>rb_tail := t', rb_status := (if t' = rb_head rb then EMPTY else NORMAL (?n - 1))\<rparr>"
  have rd: "read_byte rb = (Ok (Some (rb_buffer rb ! ?t)), rb')"
    using some c by (simp add: read_byte_def rb'_def t'_def rb_capacity_def Let_def)
  have n: "?n - 1 < ?c" using rb_len_le [OF inv] some by simp
  obtain m where "?n = Suc m" using some gr0_implies_Suc by blast
  then have h2: "rb_head rb = (t' + (?n - 1)) mod ?c"
    using h by (simp add: t' mod_simps)
  have "t' = (t' + 0) mod ?c" using t' c by simp
  then have empty: "t' = rb_head rb \<longleftrightarrow> ?n = 1"
    using wrap_inj [of t' ?c 0 "?n - 1"] h2 n t' c some by auto
  have cap: "rb_capacity rb' = ?c" by (simp add: rb'_def rb_capacity_def)
  have len: "rb_len rb' = ?n - 1" using empty by (auto simp: rb_len_def rb'_def)
  have "rb_inv rb'"
    using c h2 len cap empty n some t' by (auto simp: rb_inv_def rb'_def)
  moreover have "rb_contents rb' = tl (rb_contents rb)"
  proof (rule nth_equalityI)
    fix i
    assume "i < length (rb_contents rb')"
    then have i: "Suc i < ?n" using len by simp
    have "rb_contents rb' ! i = rb_buffer rb ! ((t' + i) mod ?c)"
      using i cap len by (simp add: rb_contents_nth) (simp add: rb'_def)
    then show "rb_contents rb' ! i = tl (rb_contents rb) ! i"
      using i by (simp add: nth_tl rb_contents_nth t' mod_simps)
  qed (simp add: len)
  moreover have "hd (rb_contents rb) = rb_buffer rb ! ?t"
    using some c by (simp add: rb_contents_def hd_map)
  ultimately show ?thesis using rd cap by auto
qed

interpretation ring: byte_queue read_byte write_byte rb_contents rb_capacity rb_inv
proof
  fix q :: ring_buffer and b :: u8 and bs
  assume inv: "rb_inv q"
  show "length (rb_contents q) \<le> rb_capacity q" using rb_len_le [OF inv] by simp
  show "read_byte q = (Ok None, q)" if "rb_contents q = []"
    using that rb_len_contents [of q] by (simp add: read_byte_def del: rb_len_contents)
  show "\<exists>q'. read_byte q = (Ok (Some b), q') \<and> rb_inv q' \<and> rb_contents q' = bs \<and>
          rb_capacity q' = rb_capacity q" if "rb_contents q = b # bs"
    using read_byte_takes [OF inv] that rb_len_contents [of q] by (simp del: rb_len_contents)
  show "write_byte b q = (Err EOB, q)" if "length (rb_contents q) = rb_capacity q"
    using that by (simp add: write_byte_def)
  show "\<exists>q'. write_byte b q = (Ok (), q') \<and> rb_inv q' \<and> rb_contents q' = rb_contents q @ [b] \<and>
          rb_capacity q' = rb_capacity q" if "length (rb_contents q) < rb_capacity q"
    using write_byte_appends [OF inv] that by simp
qed

section \<open>The iterator is a cursor into the concatenated slices\<close>

text \<open>
  \<open>iter_pos\<close> is the number of bytes before the cursor. The invariant only says that the offset
  does not exceed the slice it is in.
\<close>

definition iter_pos :: "byte_iter \<Rightarrow> nat" where
  "iter_pos it = length (concat (take (it_index it) (it_buffer it))) + it_offset it"

definition iter_inv :: "byte_iter \<Rightarrow> bool" where
  "iter_inv it \<longleftrightarrow>
     (if it_index it < length (it_buffer it)
      then it_offset it \<le> length (it_buffer it ! it_index it) else it_offset it = 0)"

lemma concat_split_at:
  assumes "i < length xss"
  shows "concat xss = concat (take i xss) @ xss ! i @ concat (drop (Suc i) xss)"
  using assms by (metis concat.simps(2) concat_append id_take_nth_drop)

lemma iter_pos_advance:
  assumes "it_index it < length (it_buffer it)" and "it_offset it = length (it_buffer it ! it_index it)"
  shows "iter_pos (it\<lparr>it_index := it_index it + 1, it_offset := 0\<rparr>) = iter_pos it"
  using assms by (simp add: iter_pos_def take_Suc_conv_app_nth)

lemma iter_inv_advance: "iter_inv (it\<lparr>it_index := i, it_offset := 0\<rparr>)"
  by (simp add: iter_inv_def)

lemma iter_pos_inside:
  assumes "it_index it < length (it_buffer it)" and "it_offset it < length (it_buffer it ! it_index it)"
  shows "iter_pos it < length (concat (it_buffer it))"
    and "concat (it_buffer it) ! iter_pos it = it_buffer it ! it_index it ! it_offset it"
  using assms concat_split_at [OF assms(1)]
  by (simp_all add: iter_pos_def nth_append)

lemma iter_pos_end:
  assumes "iter_inv it" and "\<not> it_index it < length (it_buffer it)"
  shows "iter_pos it = length (concat (it_buffer it))"
  using assms by (simp add: iter_pos_def iter_inv_def)

lemma iter_next_cursor:
  assumes "iter_inv it"
  shows "fst (iter_next it) =
           (if iter_pos it < length (concat (it_buffer it))
            then Some (concat (it_buffer it) ! iter_pos it) else None) \<and>
         iter_inv (snd (iter_next it)) \<and> it_buffer (snd (iter_next it)) = it_buffer it \<and>
         iter_pos (snd (iter_next it)) = min (iter_pos it + 1) (length (concat (it_buffer it)))"
  using assms
proof (induction it rule: iter_next.induct)
  case (1 it)
  show ?case
  proof (cases "it_index it < length (it_buffer it)")
    case index: True
    let ?inner = "it_buffer it ! it_index it"
    show ?thesis
    proof (cases "it_offset it < length ?inner")
      case True
      have "iter_next it = (Some (?inner ! it_offset it), it\<lparr>it_offset := it_offset it + 1\<rparr>)"
        using index True by (subst iter_next.simps) (simp add: Let_def)
      then show ?thesis
        using index True iter_pos_inside [OF index True] by (simp add: iter_inv_def iter_pos_def)
    next
      case False
      define it' where "it' = it\<lparr>it_index := it_index it + 1, it_offset := 0\<rparr>"
      have "it_offset it = length ?inner" using False 1(2) index by (simp add: iter_inv_def)
      then have pos: "iter_pos it' = iter_pos it" and buf: "it_buffer it' = it_buffer it"
        using iter_pos_advance [OF index] by (simp_all add: it'_def)
      have eq: "iter_next it = iter_next it'"
        using index False by (subst iter_next.simps) (simp add: it'_def)
      from 1(1) [OF index refl False iter_inv_advance, folded it'_def]
      show ?thesis unfolding eq pos buf .
    qed
  next
    case False
    then have "iter_next it = (None, it)"
      by (subst iter_next.simps) simp
    then show ?thesis
      using 1(2) iter_pos_end [OF 1(2) False] by simp
  qed
qed

lemma concat_update:
  assumes "i < length xss" and "j < length (xss ! i)"
  shows "concat (xss[i := (xss ! i)[j := b]]) =
         (concat xss)[length (concat (take i xss)) + j := b]"
proof -
  have "concat (xss[i := (xss ! i)[j := b]]) =
        concat (take i xss) @ (xss ! i)[j := b] @ concat (drop (Suc i) xss)"
    using assms by (simp add: upd_conv_take_nth_drop)
  then show ?thesis
    using assms by (subst concat_split_at [OF assms(1)]) (simp add: list_update_append)
qed

lemma iter_next_mut_cursor:
  assumes "iter_inv it"
  shows "(if iter_pos it < length (concat (it_buffer it))
          then fst (iter_next_mut b it) = Ok () \<and>
               concat (it_buffer (snd (iter_next_mut b it))) = (concat (it_buffer it))[iter_pos it := b]
          else fst (iter_next_mut b it) = Err EOB \<and>
               it_buffer (snd (iter_next_mut b it)) = it_buffer it) \<and>
         iter_inv (snd (iter_next_mut b it)) \<and>
         map length (it_buffer (snd (iter_next_mut b it))) = map length (it_buffer it) \<and>
         iter_pos (snd (iter_next_mut b it)) = min (iter_pos it + 1) (length (concat (it_buffer it)))"
  using assms
proof (induction b it rule: iter_next_mut.induct)
  case (1 b it)
  show ?case
  proof (cases "it_index it < length (it_buffer it)")
    case index: True
    let ?inner = "it_buffer it ! it_index it"
    show ?thesis
    proof (cases "it_offset it < length ?inner")
      case True
      have "iter_next_mut b it = (Ok (), it\<lparr>it_offset := it_offset it + 1,
          it_buffer := (it_buffer it)[it_index it := ?inner[it_offset it := b]]\<rparr>)"
        using index True by (subst iter_next_mut.simps) (simp add: Let_def)
      then show ?thesis
        using index True iter_pos_inside [OF index True] concat_update [OF index True, of b]
        by (simp add: iter_inv_def iter_pos_def map_update list_update_same_conv)
    next
      case False
      define it' where "it' = it\<lparr>it_index := it_index it + 1, it_offset := 0\<rparr>"
      have "it_offset it = length ?inner" using False 1(2) index by (simp add: iter_inv_def)
      then have pos: "iter_pos it' = iter_pos it" and buf: "it_buffer it' = it_buffer it"
        using iter_pos_advance [OF index] by (simp_all add: it'_def)
      have eq: "iter_next_mut b it = iter_next_mut b it'"
        using index False by (subst iter_next_mut.simps) (simp add: it'_def)
      from 1(1) [OF index refl False iter_inv_advance, folded it'_def]
      show ?thesis unfolding eq pos buf .
    qed
  next
    case False
    then have "iter_next_mut b it = (Err EOB, it)"
      by (subst iter_next_mut.simps) simp
    then show ?thesis
      using 1(2) iter_pos_end [OF 1(2) False] by simp
  qed
qed

section \<open>Properties of the iterator\<close>

text \<open>Reading \<open>n\<close> bytes, as far as they exist.\<close>

fun iter_take :: "nat \<Rightarrow> byte_iter \<Rightarrow> u8 list" where
  "iter_take 0 it = []"
| "iter_take (Suc n) it =
     (case iter_next it of (Some b, it') \<Rightarrow> b # iter_take n it' | (None, it') \<Rightarrow> [])"

lemma iter_inv_into_iter [simp]: "iter_inv (into_iter b)"
  by (simp add: iter_inv_def into_iter_def)

lemma iter_pos_into_iter [simp]: "iter_pos (into_iter b) = 0"
  by (simp add: iter_pos_def into_iter_def)

lemma iter_take_cursor:
  assumes "iter_inv it"
  shows "iter_take n it = take n (drop (iter_pos it) (concat (it_buffer it)))"
  using assms
proof (induction n arbitrary: it)
  case 0
  then show ?case by simp
next
  case (Suc n)
  note cur = iter_next_cursor [OF Suc.prems]
  obtain r it' where step: "iter_next it = (r, it')" by (cases "iter_next it")
  show ?case
  proof (cases "iter_pos it < length (concat (it_buffer it))")
    case True
    then show ?thesis
      using cur step Suc.IH [of it'] by (simp add: take_Suc_conv_app_nth Cons_nth_drop_Suc [symmetric])
  next
    case False
    then show ?thesis using cur step by simp
  qed
qed

lemma iter_write_cursor:
  assumes "iter_inv it" and "iter_pos it + length bs \<le> length (concat (it_buffer it))"
  shows "\<exists>it'. kfor bs iter_next_mut it = (Ok (), it') \<and> iter_inv it' \<and>
           iter_pos it' = iter_pos it + length bs \<and>
           map length (it_buffer it') = map length (it_buffer it) \<and>
           concat (it_buffer it') =
             take (iter_pos it) (concat (it_buffer it)) @ bs @
             drop (iter_pos it + length bs) (concat (it_buffer it))"
  using assms
proof (induction bs arbitrary: it)
  case Nil
  then show ?case by simp
next
  case (Cons b bs)
  let ?c = "concat (it_buffer it)" and ?p = "iter_pos it"
  obtain r it1 where step: "iter_next_mut b it = (r, it1)" by (cases "iter_next_mut b it")
  have lt: "?p < length ?c" using Cons.prems(2) by simp
  have it1: "r = Ok ()" "concat (it_buffer it1) = ?c[?p := b]" "iter_inv it1"
    "map length (it_buffer it1) = map length (it_buffer it)" "iter_pos it1 = ?p + 1"
    using iter_next_mut_cursor [OF Cons.prems(1), of b] lt step by auto
  have "iter_pos it1 + length bs \<le> length (concat (it_buffer it1))"
    using Cons.prems(2) it1 by simp
  from Cons.IH [OF it1(3) this] obtain it2 where it2: "kfor bs iter_next_mut it1 = (Ok (), it2)"
    "iter_inv it2" "iter_pos it2 = ?p + 1 + length bs"
    "map length (it_buffer it2) = map length (it_buffer it)"
    "concat (it_buffer it2) = take (?p + 1) (?c[?p := b]) @ bs @ drop (?p + 1 + length bs) (?c[?p := b])"
    using it1 by auto
  have "take (?p + 1) (?c[?p := b]) = take ?p ?c @ [b]"
    using lt by (simp add: take_Suc_conv_app_nth)
  then show ?case using it2 step it1(1) by simp
qed

text \<open>
  Writing bytes through the iterator of a scattered buffer that has room for them succeeds,
  keeps the length of every slice, replaces the first bytes of the concatenated slices and nothing
  else, and reading the result through a new iterator gives the bytes back.
\<close>

theorem scattered_write_read:
  assumes "length bs \<le> length (concat (bb_inner b))"
  shows "\<exists>it. kfor bs iter_next_mut (into_iter b) = (Ok (), it) \<and>
           map length (it_buffer it) = map length (bb_inner b) \<and>
           concat (it_buffer it) = bs @ drop (length bs) (concat (bb_inner b)) \<and>
           iter_take (length bs) (into_iter (b\<lparr>bb_inner := it_buffer it\<rparr>)) = bs"
proof -
  have buf: "it_buffer (into_iter b) = bb_inner b" for b by (simp add: into_iter_def)
  obtain it where it: "kfor bs iter_next_mut (into_iter b) = (Ok (), it)"
    "map length (it_buffer it) = map length (bb_inner b)"
    "concat (it_buffer it) = bs @ drop (length bs) (concat (bb_inner b))"
    using iter_write_cursor [of "into_iter b" bs] assms by (auto simp: buf)
  then show ?thesis by (simp add: iter_take_cursor buf)
qed

text \<open>
  The string that the kernel reads from user memory has one character per byte, whose code
  point is that byte, and the conversion never fails, whatever the bytes are.
\<close>

theorem into_utf8_str_bytes:
  "into_utf8_str b = Ok (map (\<lambda>byte. char_of (unat byte)) (concat (bb_inner b)))"
proof -
  have inner: "fold (\<lambda>byte str. str @ [char_of (unat byte)]) slice str =
      str @ map (\<lambda>byte. char_of (unat byte)) slice" for slice :: "u8 list" and str
    by (induction slice arbitrary: str) auto
  have "fold (\<lambda>slice str. fold (\<lambda>byte str. str @ [char_of (unat byte)]) slice str) ss str =
      str @ map (\<lambda>byte. char_of (unat byte)) (concat ss)" for ss :: "u8 list list" and str
    by (induction ss arbitrary: str) (simp_all add: inner)
  then show ?thesis by (simp add: into_utf8_str_def)
qed

section \<open>Properties of the ring buffer\<close>

text \<open>A history of writes and reads, and the answers of a bounded FIFO list.\<close>

datatype ring_event = Put u8 | Get

datatype ring_answer = Written | BufferFull | Got "u8 option"

fun ring_run :: "ring_event list \<Rightarrow> (ring_buffer, ring_answer list) kop" where
  "ring_run [] = kret []"
| "ring_run (Put b # es) =
     (\<lambda>rb. case write_byte b rb of
        (Err EOB, rb') \<Rightarrow> kbind (ring_run es) (\<lambda>rs. kret (BufferFull # rs)) rb'
      | (Ok _, rb') \<Rightarrow> kbind (ring_run es) (\<lambda>rs. kret (Written # rs)) rb'
      | (_, rb') \<Rightarrow> (Panic, rb'))"
| "ring_run (Get # es) =
     kbind read_byte (\<lambda>r. kbind (ring_run es) (\<lambda>rs. kret (Got r # rs)))"

fun fifo_run :: "nat \<Rightarrow> ring_event list \<Rightarrow> u8 list \<Rightarrow> ring_answer list" where
  "fifo_run cap [] q = []"
| "fifo_run cap (Put b # es) q =
     (if length q = cap then BufferFull # fifo_run cap es q else Written # fifo_run cap es (q @ [b]))"
| "fifo_run cap (Get # es) q =
     (case q of [] \<Rightarrow> Got None # fifo_run cap es [] | b # q' \<Rightarrow> Got (Some b) # fifo_run cap es q')"

lemma ring_run_fifo:
  assumes "rb_inv rb"
  shows "\<exists>rb'. ring_run es rb = (Ok (fifo_run (rb_capacity rb) es (rb_contents rb)), rb')"
  using assms
proof (induction es arbitrary: rb)
  case Nil
  then show ?case by simp
next
  case (Cons e es)
  show ?case
  proof (cases e)
    case (Put b)
    show ?thesis
    proof (cases "length (rb_contents rb) = rb_capacity rb")
      case True
      then show ?thesis
        using Put ring.write_full [OF Cons.prems True, of b] Cons.IH [OF Cons.prems]
        by (auto simp: kbind_def)
    next
      case False
      then have "length (rb_contents rb) < rb_capacity rb"
        using ring.bounded [OF Cons.prems] by linarith
      then obtain rb1 where rb1: "write_byte b rb = (Ok (), rb1)" "rb_inv rb1"
        "rb_contents rb1 = rb_contents rb @ [b]" "rb_capacity rb1 = rb_capacity rb"
        using ring.write_back [OF Cons.prems] by blast
      obtain rb2 where "ring_run es rb1 = (Ok (fifo_run (rb_capacity rb1) es (rb_contents rb1)), rb2)"
        using Cons.IH [OF rb1(2)] by blast
      then show ?thesis
        using Put False rb1(1,3,4) by simp
    qed
  next
    case Get
    show ?thesis
    proof (cases "rb_contents rb")
      case Nil
      then show ?thesis
        using Get ring.read_empty [OF Cons.prems Nil] Cons.IH [OF Cons.prems]
        by (auto simp: kbind_def)
    next
      case front: (Cons b q)
      then obtain rb1 where "read_byte rb = (Ok (Some b), rb1)" "rb_inv rb1"
        "rb_contents rb1 = q" "rb_capacity rb1 = rb_capacity rb"
        using ring.read_front [OF Cons.prems front] by blast
      then show ?thesis
        using Get front Cons.IH [of rb1] by (auto simp: kbind_def)
    qed
  qed
qed

lemma ring_buffer_new_inv:
  assumes "2 < cap"
  shows "\<exists>rb. ring_buffer_new cap = Ok rb \<and> rb_inv rb \<and> rb_contents rb = [] \<and> rb_capacity rb = cap"
  using assms
  by (simp add: ring_buffer_new_def rb_inv_def rb_contents_def rb_len_def rb_capacity_def)

text \<open>
  A ring buffer of any legal capacity answers every history of reads and writes like a FIFO
  list of that many bytes: bytes come out in the order they went in, none is lost, invented or
  overwritten, a write fails exactly when the buffer holds its capacity, and no index ever leaves
  the buffer.
\<close>

theorem ring_buffer_fifo:
  assumes "2 < cap"
  shows "\<exists>rb rb'. ring_buffer_new cap = Ok rb \<and> ring_run es rb = (Ok (fifo_run cap es []), rb')"
proof -
  obtain rb where "ring_buffer_new cap = Ok rb" "rb_inv rb" "rb_contents rb = []" "rb_capacity rb = cap"
    using ring_buffer_new_inv [OF assms] by blast
  then show ?thesis using ring_run_fifo [of rb es] by simp
qed

end
