(* ===== verification/Crates.thy ===== *)
theory Crates
  imports Kernel_Prelude
begin

text \<open>
  The crates that src/memory/ calls and that are not part of the repository, as one record of
  functions that every definition using them takes as an argument, and their documented behaviour
  as a predicate \<open>crates_ok\<close>.

  \<^item> \<open>bit_field\<close>: \<open>get_bit\<close>, \<open>set_bit\<close>, \<open>get_bits(lo..hi)\<close> and
    \<open>set_bits(lo..hi, v)\<close> on \<open>usize\<close>; \<open>set_bits\<close> panics (here \<open>None\<close>) when the value does not fit the range.
  \<^item> \<open>bitflags\<close>: \<open>from_bits\<close> (given the mask of the declared flags), \<open>contains\<close>,
    \<open>is_empty\<close> on a \<open>u8\<close> flag set.
  \<^item> \<open>riscv\<close>: the numeric value of \<open>satp::Mode::Sv39\<close>.
\<close>

unbundle bit_operations_syntax

record crates =
  get_bit_of :: "usize \<Rightarrow> nat \<Rightarrow> bool"
  set_bit_of :: "usize \<Rightarrow> nat \<Rightarrow> bool \<Rightarrow> usize"
  get_bits_of :: "usize \<Rightarrow> nat \<Rightarrow> nat \<Rightarrow> usize"
  set_bits_of :: "usize \<Rightarrow> nat \<Rightarrow> nat \<Rightarrow> usize \<Rightarrow> usize option"
  flags_from_bits :: "u8 \<Rightarrow> u8 \<Rightarrow> u8 option"
  flags_contains :: "u8 \<Rightarrow> u8 \<Rightarrow> bool"
  flags_is_empty :: "u8 \<Rightarrow> bool"
  satp_mode_sv39 :: usize

definition crates_ok :: "crates \<Rightarrow> bool" where
  "crates_ok K \<longleftrightarrow>
     (\<forall>x n. n < 64 \<longrightarrow> get_bit_of K x n = bit x n) \<and>
     (\<forall>x n b k. n < 64 \<longrightarrow> bit (set_bit_of K x n b) k = (if k = n then b else bit x k)) \<and>
     (\<forall>x lo hi n. lo < hi \<and> hi \<le> 64 \<longrightarrow>
        bit (get_bits_of K x lo hi) n = (n < hi - lo \<and> bit x (lo + n))) \<and>
     (\<forall>x lo hi v. lo < hi \<and> hi \<le> 64 \<longrightarrow>
        (case set_bits_of K x lo hi v of
           Some y \<Rightarrow>
             (\<forall>n. bit v n \<longrightarrow> n < hi - lo) \<and>
             (\<forall>n. bit y n = (if lo \<le> n \<and> n < hi then bit v (n - lo) else bit x n))
         | None \<Rightarrow> (\<exists>n. bit v n \<and> hi - lo \<le> n))) \<and>
     (\<forall>declared b. flags_from_bits K declared b = (if b AND NOT declared = 0 then Some b else None)) \<and>
     (\<forall>a b. flags_contains K a b = (a AND b = b)) \<and>
     (\<forall>a. flags_is_empty K a = (a = 0)) \<and>
     satp_mode_sv39 K < 16"

text \<open>One concrete implementation, with which the hypotheses of the properties are met.\<close>

definition rust_crates :: crates where
  "rust_crates = \<lparr>
     get_bit_of = bit,
     set_bit_of = (\<lambda>x n b. if b then x OR push_bit n 1 else x AND NOT (push_bit n 1)),
     get_bits_of = (\<lambda>x lo hi. take_bit (hi - lo) (drop_bit lo x)),
     set_bits_of = (\<lambda>x lo hi v.
       if take_bit (hi - lo) v = v
       then Some ((x AND NOT (push_bit lo (mask (hi - lo)))) OR push_bit lo v) else None),
     flags_from_bits = (\<lambda>declared b. if b AND NOT declared = 0 then Some b else None),
     flags_contains = (\<lambda>a b. a AND b = b),
     flags_is_empty = (\<lambda>a. a = 0),
     satp_mode_sv39 = 8\<rparr>"

lemma take_bit_fits:
  fixes v :: usize
  shows "take_bit k v = v \<longleftrightarrow> (\<forall>n. bit v n \<longrightarrow> n < k)"
proof
  assume "take_bit k v = v"
  then show "\<forall>n. bit v n \<longrightarrow> n < k" by (metis bit_take_bit_iff)
next
  assume "\<forall>n. bit v n \<longrightarrow> n < k"
  then show "take_bit k v = v" by (intro bit_word_eqI) (auto simp: bit_take_bit_iff)
qed

lemma rust_crates_ok: "crates_ok rust_crates"
proof -
  have "case set_bits_of rust_crates x lo hi v of
           Some y \<Rightarrow> (\<forall>n. bit v n \<longrightarrow> n < hi - lo) \<and>
             (\<forall>n. bit y n = (if lo \<le> n \<and> n < hi then bit v (n - lo) else bit x n))
         | None \<Rightarrow> (\<exists>n. bit v n \<and> hi - lo \<le> n)" if "lo < hi \<and> hi \<le> 64" for x lo hi v
  proof (cases "take_bit (hi - lo) v = v")
    case True
    have fits: "\<forall>n. bit v n \<longrightarrow> n < hi - lo" using True take_bit_fits by blast
    have "bit ((x AND NOT (push_bit lo (mask (hi - lo)))) OR push_bit lo v) n =
        (if lo \<le> n \<and> n < hi then bit v (n - lo) else bit x n)" for n
    proof (cases "n < 64")
      case True
      show ?thesis
      proof (cases "lo \<le> n")
        case le: True
        then have "n - lo < hi - lo \<longleftrightarrow> n < hi" using that by auto
        then show ?thesis
          using True that fits le
          by (auto simp: bit_or_iff bit_and_iff bit_not_iff bit_push_bit_iff bit_mask_iff)
      qed (use True that in \<open>auto simp: bit_or_iff bit_and_iff bit_not_iff bit_push_bit_iff bit_mask_iff\<close>)
    next
      case False
      then have "\<not> bit y n" for y :: usize using bit_imp_le_length [of y n] by auto
      then show ?thesis using that False by auto
    qed
    with True fits show ?thesis by (simp add: rust_crates_def)
  next
    case False
    then show ?thesis
      using take_bit_fits [of "hi - lo" v] by (auto simp: rust_crates_def not_less)
  qed
  moreover have "bit (set_bit_of rust_crates x n b) k = (if k = n then b else bit x k)"
    if "n < 64" for x n b k
    using that bit_imp_le_length [of x k]
    by (auto simp: rust_crates_def bit_or_iff bit_and_iff bit_not_iff bit_exp_iff)
  moreover have "satp_mode_sv39 rust_crates < 16"
    by (simp add: rust_crates_def)
  moreover have "bit (get_bits_of rust_crates x lo hi) n = (n < hi - lo \<and> bit x (lo + n))" for x lo hi n
    by (simp add: rust_crates_def bit_take_bit_iff bit_drop_bit_eq add.commute)
  ultimately show ?thesis
    unfolding crates_ok_def by (simp add: rust_crates_def)
qed

section \<open>The documented behaviour as rewrite rules\<close>

lemma get_bit_ok: "crates_ok K \<Longrightarrow> n < 64 \<Longrightarrow> get_bit_of K x n = bit x n"
  by (simp add: crates_ok_def)

lemma set_bit_ok:
  "crates_ok K \<Longrightarrow> n < 64 \<Longrightarrow> bit (set_bit_of K x n b) k = (if k = n then b else bit x k)"
  by (simp add: crates_ok_def)

lemma get_bits_ok:
  assumes "crates_ok K" and "lo < hi" and "hi \<le> 64"
  shows "get_bits_of K x lo hi = take_bit (hi - lo) (drop_bit lo x)"
  using assms by (intro bit_word_eqI) (simp add: crates_ok_def bit_take_bit_iff bit_drop_bit_eq)

lemma set_bits_Some:
  assumes "crates_ok K" and "lo < hi" and "hi \<le> 64" and "set_bits_of K x lo hi v = Some y"
  shows "bit y n = (if lo \<le> n \<and> n < hi then bit v (n - lo) else bit x n)"
    and "bit v m \<Longrightarrow> m < hi - lo"
proof -
  have "case set_bits_of K x lo hi v of
           Some y \<Rightarrow> (\<forall>n. bit v n \<longrightarrow> n < hi - lo) \<and>
             (\<forall>n. bit y n = (if lo \<le> n \<and> n < hi then bit v (n - lo) else bit x n))
         | None \<Rightarrow> (\<exists>n. bit v n \<and> hi - lo \<le> n)"
    using assms(1-3) unfolding crates_ok_def by blast
  then show "bit y n = (if lo \<le> n \<and> n < hi then bit v (n - lo) else bit x n)"
    and "bit v m \<Longrightarrow> m < hi - lo"
    by (auto simp: assms(4))
qed

lemma set_bits_fits:
  assumes "crates_ok K" and "lo < hi" and "hi \<le> 64"
  shows "set_bits_of K x lo hi v = None \<longleftrightarrow> take_bit (hi - lo) v \<noteq> v"
proof -
  have "case set_bits_of K x lo hi v of
           Some y \<Rightarrow> (\<forall>n. bit v n \<longrightarrow> n < hi - lo) \<and>
             (\<forall>n. bit y n = (if lo \<le> n \<and> n < hi then bit v (n - lo) else bit x n))
         | None \<Rightarrow> (\<exists>n. bit v n \<and> hi - lo \<le> n)"
    using assms unfolding crates_ok_def by blast
  then show ?thesis
    unfolding take_bit_fits by (cases "set_bits_of K x lo hi v") (auto simp: not_less)
qed

lemma minus_1_u8: "(- 1 :: u8) = 255"
  by simp

lemma flags_from_bits_all: "crates_ok K \<Longrightarrow> flags_from_bits K 255 b = Some b"
  unfolding crates_ok_def minus_1_u8 [symmetric] by simp

lemma flags_contains_ok: "crates_ok K \<Longrightarrow> flags_contains K a b = (a AND b = b)"
  by (simp add: crates_ok_def)

lemma flags_is_empty_ok: "crates_ok K \<Longrightarrow> flags_is_empty K a = (a = 0)"
  by (simp add: crates_ok_def)

lemma unat_pow2:
  assumes "k < 64"
  shows "unat (2 ^ k :: usize) = 2 ^ k"
proof -
  have "(2 :: nat) ^ k < 2 ^ 64" using assms by (intro power_strict_increasing) auto
  moreover have "(2 ^ k :: usize) = of_nat (2 ^ k)" by simp
  ultimately show ?thesis by (simp only: unat_of_nat) simp
qed

lemma take_bit_lt:
  fixes v :: usize
  assumes "k < 64"
  shows "take_bit k v = v \<longleftrightarrow> v < 2 ^ k"
proof -
  have "take_bit k v = v \<longleftrightarrow> take_bit k (unat v) = unat v"
    by (metis unsigned_take_bit_eq unsigned_word_eqI)
  also have "\<dots> \<longleftrightarrow> unat v < 2 ^ k" by (simp add: take_bit_nat_eq_self_iff)
  also have "\<dots> \<longleftrightarrow> v < 2 ^ k" by (simp add: word_less_nat_alt unat_pow2 [OF assms])
  finally show ?thesis .
qed

end
