(* ===== verification/Configs.thy ===== *)
theory Configs
  imports Kernel_Prelude
begin

text \<open>The constants of src/configs.rs for the qemu board, and the timer of src/lang/timer.rs.\<close>

definition MEMORY_PAGE_BYTE_SIZE :: usize where "MEMORY_PAGE_BYTE_SIZE = 4096"
definition MEMORY_PAGE_BIT_SITE :: nat where "MEMORY_PAGE_BIT_SITE = 12"
definition USER_TASK_STACK_BYTE_SIZE :: usize where
  "USER_TASK_STACK_BYTE_SIZE = MEMORY_PAGE_BYTE_SIZE * 8"
definition KERNEL_TASK_STACK_BYTE_SIZE :: usize where
  "KERNEL_TASK_STACK_BYTE_SIZE = MEMORY_PAGE_BYTE_SIZE * 2"
definition KERNEL_HEAP_BYTE_SIZE :: usize where
  "KERNEL_HEAP_BYTE_SIZE = MEMORY_PAGE_BYTE_SIZE * 1024"
definition KERNEL_GUARD_PAGE_COUNT :: usize where "KERNEL_GUARD_PAGE_COUNT = 1"
definition MAX_VIRTUAL_ADDRESS :: usize where "MAX_VIRTUAL_ADDRESS = 18446744073709551615"
definition INIT_PROCESS_PATH :: string where "INIT_PROCESS_PATH = ''/initproc''"
definition MAX_PID_COUNT :: usize where "MAX_PID_COUNT = 65536"
definition MAX_TID_COUNT :: usize where "MAX_TID_COUNT = 10240"
definition TRAMPOLINE_VIRTUAL_BASE_ADDR :: usize where
  "TRAMPOLINE_VIRTUAL_BASE_ADDR = MAX_VIRTUAL_ADDRESS - MEMORY_PAGE_BYTE_SIZE + 1"
definition TRAP_CTX_VIRTUAL_BASE_ADDR :: usize where
  "TRAP_CTX_VIRTUAL_BASE_ADDR = TRAMPOLINE_VIRTUAL_BASE_ADDR - MEMORY_PAGE_BYTE_SIZE"
definition TICKS_PER_SEC :: usize where "TICKS_PER_SEC = 100"
definition MAX_FD_COUNT :: nat where "MAX_FD_COUNT = 65536"
definition MAX_MUTEX_COUNT :: nat where "MAX_MUTEX_COUNT = 1024"
definition MAX_SEMAPHORE_COUNT :: nat where "MAX_SEMAPHORE_COUNT = MAX_MUTEX_COUNT"
definition MAX_CONDVAR_COUNT :: nat where "MAX_CONDVAR_COUNT = MAX_MUTEX_COUNT"
definition PIPE_RING_BUFFER_LENGTH :: nat where "PIPE_RING_BUFFER_LENGTH = 32"
definition COMMAND_LINE_ARGUMENTS_BYTE_SIZE :: usize where
  "COMMAND_LINE_ARGUMENTS_BYTE_SIZE = 512"
definition BOARD_CLOCK_FREQ :: usize where "BOARD_CLOCK_FREQ = 12500000"

definition MICRO_PER_SEC :: usize where "MICRO_PER_SEC = 1000000"

lemmas config_defs =
  MEMORY_PAGE_BYTE_SIZE_def MEMORY_PAGE_BIT_SITE_def USER_TASK_STACK_BYTE_SIZE_def
  KERNEL_TASK_STACK_BYTE_SIZE_def KERNEL_GUARD_PAGE_COUNT_def MAX_VIRTUAL_ADDRESS_def
  TRAMPOLINE_VIRTUAL_BASE_ADDR_def TRAP_CTX_VIRTUAL_BASE_ADDR_def

text \<open>
  The timer reads and sets the cycle counter through the firmware; the counter is an argument.
  The product wraps around at 64 bits, as it does in the release build.
\<close>

definition set_next_trigger :: "usize \<Rightarrow> usize" where
  "set_next_trigger now = now + BOARD_CLOCK_FREQ div TICKS_PER_SEC"

definition get_timer_us :: "usize \<Rightarrow> usize" where
  "get_timer_us now = now * MICRO_PER_SEC div BOARD_CLOCK_FREQ"

text \<open>
  The product wraps around after 18446744073709 cycles, some 17 days: the time goes back.
\<close>

lemma timer_goes_back: "get_timer_us 18446744073709 = 1475739525896" "get_timer_us 18446744073710 = 0"
  by (simp_all add: get_timer_us_def MICRO_PER_SEC_def BOARD_CLOCK_FREQ_def)

end
