(* ===== verification/Addresses.thy ===== *)
theory Addresses
  imports Crates Configs
begin

text \<open>
  Addresses, page numbers and page table entries of the Sv39 scheme: the first part of
  src/memory/page_table_riscv.rs and the page numbers of src/memory/mod.rs.

  A page table entry is the 64-bit word it is in memory. \<open>PTEFlags\<close> and
  \<open>PageTableFlags\<close> are their bits (all eight bits are declared flags). A function that calls
  \<open>set_bits\<close> can panic; that is the outcome \<open>Panic\<close> or the value \<open>None\<close>.
\<close>

unbundle bit_operations_syntax

section \<open>Page numbers\<close>

definition get_ppn_with :: "crates \<Rightarrow> usize \<Rightarrow> usize" where
  "get_ppn_with K pa = get_bits_of K pa 12 56"

definition get_vpn_with :: "crates \<Rightarrow> usize \<Rightarrow> usize" where
  "get_vpn_with K va = get_bits_of K va 12 39"

definition get_pa_offset :: "crates \<Rightarrow> usize \<Rightarrow> usize" where
  "get_pa_offset K pa = get_bits_of K pa 0 12"

definition get_va_offset :: "crates \<Rightarrow> usize \<Rightarrow> usize" where
  "get_va_offset K va = get_pa_offset K va"

definition cal_base_va_with :: "crates \<Rightarrow> usize \<Rightarrow> usize outcome" where
  "cal_base_va_with K vpn =
     (let va = push_bit MEMORY_PAGE_BIT_SITE vpn in
      if get_bit_of K va 38
      then case set_bits_of K va 39 64 (push_bit 25 1 - 1) of Some va' \<Rightarrow> Ok va' | None \<Rightarrow> Panic
      else Ok va)"

definition MAX_VIRTUAL_PAGE_NUMBER :: "crates \<Rightarrow> usize" where
  "MAX_VIRTUAL_PAGE_NUMBER K = get_vpn_with K MAX_VIRTUAL_ADDRESS"

definition TRAMPOLINE_VIRTUAL_PAGE_NUMBER :: "crates \<Rightarrow> usize" where
  "TRAMPOLINE_VIRTUAL_PAGE_NUMBER K = get_vpn_with K TRAMPOLINE_VIRTUAL_BASE_ADDR"

definition TRAP_CONTEXT_VIRTUAL_PAGE_NUMBER :: "crates \<Rightarrow> usize" where
  "TRAP_CONTEXT_VIRTUAL_PAGE_NUMBER K = get_vpn_with K TRAP_CTX_VIRTUAL_BASE_ADDR"

text \<open>
  The indexes of a virtual page number in the three levels of mappers: the loop over
  \<open>(0..PAGE_LEVEL).rev()\<close> fills the array from its end.
\<close>

definition PAGE_LEVEL :: nat where "PAGE_LEVEL = 3"

definition PTE_OFFSET_BIT_SIZE :: nat where "PTE_OFFSET_BIT_SIZE = 9"

definition PTE_COUNT :: nat where "PTE_COUNT = 512"

definition page_indexes :: "crates \<Rightarrow> usize \<Rightarrow> usize list" where
  "page_indexes K vpn =
     snd (fold (\<lambda>i (offset, indexes).
            (offset + PTE_OFFSET_BIT_SIZE,
             indexes[i := get_bits_of K vpn offset (offset + PTE_OFFSET_BIT_SIZE)]))
          (rev [0..<PAGE_LEVEL]) (0, replicate PAGE_LEVEL 0))"

section \<open>Page table entries\<close>

definition PTE_V :: u8 where "PTE_V = 1"
definition PTE_DECLARED :: u8 where "PTE_DECLARED = 255"

definition FLAGS_EMPTY :: u8 where "FLAGS_EMPTY = 0"
definition FLAGS_R :: u8 where "FLAGS_R = 2"
definition FLAGS_W :: u8 where "FLAGS_W = 4"
definition FLAGS_X :: u8 where "FLAGS_X = 8"
definition FLAGS_U :: u8 where "FLAGS_U = 16"
definition FLAGS_RX :: u8 where "FLAGS_RX = FLAGS_R OR FLAGS_X"
definition FLAGS_RW :: u8 where "FLAGS_RW = FLAGS_R OR FLAGS_W"
definition FLAGS_RXU :: u8 where "FLAGS_RXU = FLAGS_RX OR FLAGS_U"
definition FLAGS_RWU :: u8 where "FLAGS_RWU = FLAGS_RW OR FLAGS_U"

definition pte_new :: "crates \<Rightarrow> usize \<Rightarrow> u8 \<Rightarrow> usize option" where
  "pte_new K ppn flags =
     (case set_bits_of K 0 10 54 ppn of
        Some bits \<Rightarrow> set_bits_of K bits 0 8 (ucast flags)
      | None \<Rightarrow> None)"

definition pte_empty :: usize where "pte_empty = 0"

definition pte_ppn :: "crates \<Rightarrow> usize \<Rightarrow> usize" where
  "pte_ppn K e = get_bits_of K e 10 54"

definition pte_flags :: "crates \<Rightarrow> usize \<Rightarrow> u8 option" where
  "pte_flags K e = flags_from_bits K PTE_DECLARED (ucast e)"

definition pte_is_valid :: "crates \<Rightarrow> usize \<Rightarrow> bool option" where
  "pte_is_valid K e = map_option (\<lambda>f. flags_contains K f PTE_V) (pte_flags K e)"

section \<open>The value of the satp register\<close>

definition MAX_TASK_ID :: usize where "MAX_TASK_ID = push_bit 16 1 - 1"

definition mmu_token_of :: "crates \<Rightarrow> usize \<Rightarrow> usize \<Rightarrow> usize option" where
  "mmu_token_of K asid ppn =
     Option.bind (set_bits_of K 0 60 64 (satp_mode_sv39 K)) (\<lambda>t.
     Option.bind (set_bits_of K t 44 60 asid) (\<lambda>t.
     set_bits_of K t 0 44 ppn))"

section \<open>Lemmas\<close>

lemma page_indexes_eq:
  assumes "crates_ok K"
  shows "page_indexes K vpn =
           [take_bit 9 (drop_bit 18 vpn), take_bit 9 (drop_bit 9 vpn), take_bit 9 vpn]"
proof -
  have "rev [0..<3::nat] = [2, 1, 0]" by (simp add: upt_rec)
  then show ?thesis
    using assms
    by (simp add: page_indexes_def PAGE_LEVEL_def PTE_OFFSET_BIT_SIZE_def get_bits_ok
        numeral_3_eq_3)
qed

lemma take_bit_9_bound: "unat (take_bit 9 (x :: usize)) < 512"
  using take_bit_nat_less_exp [of 9 "unat x"] by (simp add: unsigned_take_bit_eq)

lemma page_indexes_bound:
  assumes "crates_ok K" and "i < PAGE_LEVEL"
  shows "unat (page_indexes K vpn ! i) < PTE_COUNT"
  using assms take_bit_9_bound
  by (auto simp: page_indexes_eq PAGE_LEVEL_def PTE_COUNT_def nth_Cons' less_Suc_eq numeral_3_eq_3)

lemma page_indexes_inj:
  assumes "crates_ok K" and "v < 2 ^ 27" and "w < 2 ^ 27"
    and "page_indexes K v = page_indexes K w"
  shows "v = w"
proof (rule bit_word_eqI)
  fix n
  have eq: "take_bit 9 (drop_bit k v) = take_bit 9 (drop_bit k w)" if "k \<in> {0, 9, 18}" for k
    using assms(4) that by (auto simp: page_indexes_eq [OF assms(1)])
  have slice: "bit v (k + m) = bit w (k + m)" if "k \<in> {0, 9, 18}" "m < 9" for k m
    using arg_cong [OF eq [OF that(1)], of "\<lambda>x. bit x m"] that(2)
    by (simp add: bit_take_bit_iff bit_drop_bit_eq)
  have high: "\<not> bit x n" if "x < 2 ^ 27" "27 \<le> n" for x :: usize
    using that take_bit_lt [of 27 x] take_bit_fits [of 27 x] by auto
  consider "n < 9" | "9 \<le> n" "n < 18" | "18 \<le> n" "n < 27" | "27 \<le> n" by linarith
  then show "bit v n = bit w n"
    using slice [of 0 n] slice [of 9 "n - 9"] slice [of 18 "n - 18"] high assms(2,3)
    by cases auto
qed

lemma word_bits_lt:
  fixes v :: usize
  assumes "k < 64"
  shows "v < 2 ^ k \<longleftrightarrow> (\<forall>n. bit v n \<longrightarrow> n < k)"
  using take_bit_lt [OF assms, of v] take_bit_fits [of k v] by simp

lemma ucast_u8_bits: "bit (ucast (f :: u8) :: usize) n = bit f n"
  by (auto simp: bit_ucast_iff dest: bit_imp_le_length)

lemma pte_new_cases:
  assumes K: "crates_ok K"
  shows "pte_new K ppn flags = None \<longleftrightarrow> 2 ^ 44 \<le> ppn"
    and "pte_new K ppn flags = Some e \<Longrightarrow> pte_ppn K e = ppn"
    and "pte_new K ppn flags = Some e \<Longrightarrow> pte_flags K e = Some flags"
proof -
  have ppn: "set_bits_of K 0 10 54 ppn = None \<longleftrightarrow> 2 ^ 44 \<le> ppn"
    using set_bits_fits [OF K, of 10 54 0 ppn] take_bit_lt [of 44 ppn] by (auto simp: not_less)
  have "take_bit 8 (ucast flags :: usize) = ucast flags"
    by (rule bit_word_eqI) (auto simp: bit_take_bit_iff ucast_u8_bits dest: bit_imp_le_length)
  then have flags: "set_bits_of K bits 0 8 (ucast flags) \<noteq> None" for bits
    using set_bits_fits [OF K, of 0 8 bits "ucast flags"] by simp
  show "pte_new K ppn flags = None \<longleftrightarrow> 2 ^ 44 \<le> ppn"
    using ppn by (cases "set_bits_of K 0 10 54 ppn") (simp_all add: pte_new_def flags del: not_None_eq)
  assume "pte_new K ppn flags = Some e"
  then obtain b where b: "set_bits_of K 0 10 54 ppn = Some b" "set_bits_of K b 0 8 (ucast flags) = Some e"
    by (auto simp: pte_new_def split: option.splits)
  have e: "bit e n = (if n < 8 then bit flags n else 10 \<le> n \<and> n < 54 \<and> bit ppn (n - 10))" for n
    using set_bits_Some(1) [OF K _ _ b(1), of n] set_bits_Some(1) [OF K _ _ b(2), of n]
    by (auto simp: ucast_u8_bits)
  have fits: "bit ppn m \<Longrightarrow> m < 44" for m
    using set_bits_Some(2) [OF K _ _ b(1), of m] by simp
  show "pte_ppn K e = ppn"
    by (rule bit_word_eqI)
       (auto simp: pte_ppn_def get_bits_ok [OF K] bit_take_bit_iff bit_drop_bit_eq e dest: fits)
  have "(ucast e :: u8) = flags"
    by (rule bit_word_eqI) (simp add: bit_ucast_iff e)
  then show "pte_flags K e = Some flags"
    by (simp add: pte_flags_def PTE_DECLARED_def flags_from_bits_all [OF K])
qed

lemma pte_new_some:
  assumes "crates_ok K" and "ppn < 2 ^ 44"
  obtains e where "pte_new K ppn flags = Some e" and "pte_ppn K e = ppn" and "pte_flags K e = Some flags"
  using pte_new_cases [OF assms(1), of ppn flags] assms(2) by (cases "pte_new K ppn flags") auto

lemma pte_is_valid_bit:
  assumes "crates_ok K"
  shows "pte_is_valid K e = Some (bit e 0)"
proof -
  have "(ucast e :: u8) AND 1 = 1 \<longleftrightarrow> bit e 0"
    by (simp add: and_one_eq odd_iff_mod_2_eq_one [symmetric] bit_ucast_iff flip: bit_0)
  then show ?thesis
    by (simp add: pte_is_valid_def pte_flags_def PTE_DECLARED_def PTE_V_def
        flags_from_bits_all [OF assms] flags_contains_ok [OF assms])
qed

lemma pte_empty_invalid: "\<not> bit pte_empty 0"
  by (simp add: pte_empty_def)

lemma pte_new_valid:
  assumes K: "crates_ok K" and "pte_new K ppn flags = Some e" and "bit flags 0"
  shows "bit e 0"
proof -
  have "(ucast e :: u8) = flags"
    using pte_new_cases(3) [OF K assms(2)]
    by (simp add: pte_flags_def PTE_DECLARED_def flags_from_bits_all [OF K])
  then have "bit (ucast e :: u8) 0" using assms(3) by simp
  then show ?thesis by (simp add: bit_ucast_iff)
qed

lemma cal_base_va_bits:
  assumes K: "crates_ok K"
  obtains va where "cal_base_va_with K vpn = Ok va"
    and "\<And>n. n < 64 \<Longrightarrow> bit va n =
           (if n < 39 then 12 \<le> n \<and> bit vpn (n - 12) else bit vpn 26 \<or> bit vpn (n - 12))"
proof -
  let ?va = "push_bit 12 vpn"
  have sign: "get_bit_of K ?va 38 = bit vpn 26"
    using get_bit_ok [OF K] by (simp add: bit_push_bit_iff)
  define c :: usize where "c = push_bit 25 1 - 1"
  have m: "mask 25 = c" by (simp add: c_def mask_eq_exp_minus_1)
  have ones: "bit c n = (n < 25)" for n
    using bit_mask_iff [where 'a = usize, of 25 n, unfolded m] by auto
  show ?thesis
  proof (cases "bit vpn 26")
    case True
    have "take_bit 25 c = c"
      by (rule bit_word_eqI) (auto simp: bit_take_bit_iff ones)
    then obtain va where va: "set_bits_of K ?va 39 64 c = Some va"
      using set_bits_fits [OF K, of 39 64 ?va c] by auto
    show ?thesis
    proof (rule that [of va])
      show "cal_base_va_with K vpn = Ok va"
        unfolding cal_base_va_with_def MEMORY_PAGE_BIT_SITE_def c_def [symmetric]
        using va sign True by simp
      show "bit va n = (if n < 39 then 12 \<le> n \<and> bit vpn (n - 12) else bit vpn 26 \<or> bit vpn (n - 12))"
        if "n < 64" for n
        using set_bits_Some(1) [OF K _ _ va, of n] that True by (auto simp: bit_push_bit_iff ones)
    qed
  next
    case False
    then show ?thesis
      using sign by (intro that [of ?va])
        (auto simp: cal_base_va_with_def MEMORY_PAGE_BIT_SITE_def bit_push_bit_iff)
  qed
qed

lemma vpn_bits:
  assumes "crates_ok K"
  shows "bit (get_vpn_with K va) n = (n < 27 \<and> bit va (12 + n))"
  using get_bits_ok [OF assms, of 12 39 va]
  by (simp add: get_vpn_with_def bit_take_bit_iff bit_drop_bit_eq)

lemma offset_bits:
  assumes "crates_ok K"
  shows "bit (get_va_offset K va) n = (n < 12 \<and> bit va n)"
  using get_bits_ok [OF assms, of 0 12 va]
  by (simp add: get_va_offset_def get_pa_offset_def bit_take_bit_iff bit_drop_bit_eq)

section \<open>Properties\<close>

text \<open>
  The base address of a 27-bit virtual page number is always computed, is page aligned and
  canonical (bits 39 to 63 repeat bit 38), and its page number is the one it was computed from.
\<close>

theorem base_va_roundtrip:
  assumes "crates_ok K" and "vpn < 2 ^ 27"
  shows "\<exists>va. cal_base_va_with K vpn = Ok va \<and> get_vpn_with K va = vpn \<and> get_va_offset K va = 0 \<and>
           (\<forall>n. 38 \<le> n \<and> n < 64 \<longrightarrow> bit va n = bit va 38)"
proof -
  obtain va where va: "cal_base_va_with K vpn = Ok va"
    "\<And>n. n < 64 \<Longrightarrow> bit va n =
       (if n < 39 then 12 \<le> n \<and> bit vpn (n - 12) else bit vpn 26 \<or> bit vpn (n - 12))"
    using cal_base_va_bits [OF assms(1)] by blast
  have small: "bit vpn n \<Longrightarrow> n < 27" for n
    using assms(2) word_bits_lt [of 27 vpn] by simp
  have "bit (get_vpn_with K va) n = bit vpn n" for n
    using va(2) [of "12 + n"] small [of n] by (cases "n < 27") (auto simp: vpn_bits [OF assms(1)])
  then have "get_vpn_with K va = vpn" by (intro bit_word_eqI)
  moreover have "get_va_offset K va = 0"
    by (rule bit_word_eqI) (auto simp: offset_bits [OF assms(1)] va(2))
  moreover have "bit va n = bit va 38" if "38 \<le> n" "n < 64" for n
    using that va(2) [of n] va(2) [of 38] small [of "n - 12"] by (cases "n = 38") auto
  ultimately show ?thesis using va(1) by blast
qed

text \<open>
  A page table entry made of a physical page number and flags panics exactly when the number
  has more than 44 bits; otherwise reading the entry gives back the same number and flags.
\<close>

theorem pte_roundtrip:
  assumes "crates_ok K"
  shows "case pte_new K ppn flags of
           Some e \<Rightarrow> ppn < 2 ^ 44 \<and> pte_ppn K e = ppn \<and> pte_flags K e = Some flags
         | None \<Rightarrow> 2 ^ 44 \<le> ppn"
  using pte_new_cases [OF assms, of ppn flags]
  by (cases "pte_new K ppn flags") (auto simp: not_less [symmetric])

text \<open>
  The value for the satp register can be built exactly when the address space id has 16 bits
  and the root page number 44, and then each field can be read back from its bits.
\<close>

theorem mmu_token_fields:
  assumes K: "crates_ok K"
  shows "case mmu_token_of K asid ppn of
           Some t \<Rightarrow> asid < 2 ^ 16 \<and> ppn < 2 ^ 44 \<and>
             take_bit 44 t = ppn \<and> take_bit 16 (drop_bit 44 t) = asid \<and> drop_bit 60 t = satp_mode_sv39 K
         | None \<Rightarrow> 2 ^ 16 \<le> asid \<or> 2 ^ 44 \<le> ppn"
proof (cases "mmu_token_of K asid ppn")
  case None
  have "take_bit 4 (satp_mode_sv39 K) = satp_mode_sv39 K"
    using K take_bit_lt [of 4 "satp_mode_sv39 K"] by (simp add: crates_ok_def)
  then obtain t1 where "set_bits_of K 0 60 64 (satp_mode_sv39 K) = Some t1"
    using set_bits_fits [OF K, of 60 64 0] by auto
  then show ?thesis
    using None set_bits_fits [OF K, of 44 60 t1 asid] set_bits_fits [OF K, of 0 44 _ ppn]
      take_bit_lt [of 16 asid] take_bit_lt [of 44 ppn]
    by (cases "set_bits_of K t1 44 60 asid") (auto simp: mmu_token_of_def not_less)
next
  case (Some t)
  then obtain t1 t2 where t: "set_bits_of K 0 60 64 (satp_mode_sv39 K) = Some t1"
    "set_bits_of K t1 44 60 asid = Some t2" "set_bits_of K t2 0 44 ppn = Some t"
    by (auto simp: mmu_token_of_def bind_eq_Some_conv)
  have fits: "bit asid n \<Longrightarrow> n < 16" "bit ppn n \<Longrightarrow> n < 44" "bit (satp_mode_sv39 K) n \<Longrightarrow> n < 4" for n
    using set_bits_Some(2) [OF K _ _ t(1), of n] set_bits_Some(2) [OF K _ _ t(2), of n]
      set_bits_Some(2) [OF K _ _ t(3), of n] by auto
  have bits: "bit t n = (if n < 44 then bit ppn n else if n < 60 then bit asid (n - 44)
      else n < 64 \<and> bit (satp_mode_sv39 K) (n - 60))" for n
    using set_bits_Some(1) [OF K _ _ t(1), of n] set_bits_Some(1) [OF K _ _ t(2), of n]
      set_bits_Some(1) [OF K _ _ t(3), of n] by auto
  have "take_bit 44 t = ppn" "take_bit 16 (drop_bit 44 t) = asid" "drop_bit 60 t = satp_mode_sv39 K"
    by (rule bit_word_eqI; auto simp: bit_take_bit_iff bit_drop_bit_eq bits dest: fits)+
  moreover have "asid < 2 ^ 16" "ppn < 2 ^ 44"
    using fits word_bits_lt [of 16 asid] word_bits_lt [of 44 ppn] by auto
  ultimately show ?thesis using Some by simp
qed

end
