(* ===== verification/Phys_Memory.thy ===== *)
theory Phys_Memory
  imports Recyclers Addresses
begin

text \<open>
  Physical memory and frame trackers (src/memory/frame.rs).

  A frame is addressed by its physical page number and holds 512 little-endian 64-bit words; byte
  \<open>o\<close> of a frame is byte \<open>o mod 8\<close> of word \<open>o div 8\<close>. The global
  \<open>FRAME_ALLOCATOR\<close> and the memory form the state \<open>machine\<close>. A \<open>FrameTracker\<close> is
  its page number: creating one clears the frame, dropping one gives the frame back and unwraps
  the result.
\<close>

unbundle bit_operations_syntax

type_synonym memory = "usize \<Rightarrow> nat \<Rightarrow> usize"

record machine =
  mem :: memory
  frame_allocator :: btree_frame_allocator

definition frame_clear :: "usize \<Rightarrow> memory \<Rightarrow> memory" where
  "frame_clear ppn M = M(ppn := (\<lambda>_. 0))"

definition frame_pa :: "usize \<Rightarrow> usize" where
  "frame_pa ppn = ppn * MEMORY_PAGE_BYTE_SIZE"

text \<open>
  The address that \<open>as_kernel_mut::<U>(offset)\<close> of a tracker hands out; \<open>mem_size\<close> is
  the size of \<open>U\<close>.
\<close>

definition frame_as_kernel_mut :: "usize \<Rightarrow> usize \<Rightarrow> usize \<Rightarrow> usize outcome" where
  "frame_as_kernel_mut ppn offset mem_size =
     (if offset + mem_size \<le> MEMORY_PAGE_BYTE_SIZE then Ok (frame_pa ppn + offset) else Panic)"

definition frame_byte :: "memory \<Rightarrow> usize \<Rightarrow> nat \<Rightarrow> u8" where
  "frame_byte M ppn o' = ucast (drop_bit (8 * (o' mod 8)) (M ppn (o' div 8)))"

definition frame_set_byte :: "usize \<Rightarrow> nat \<Rightarrow> u8 \<Rightarrow> memory \<Rightarrow> memory" where
  "frame_set_byte ppn o' b M =
     M(ppn := (M ppn)(o' div 8 :=
       (M ppn (o' div 8) AND NOT (push_bit (8 * (o' mod 8)) (mask 8)))
       OR push_bit (8 * (o' mod 8)) (ucast b)))"

definition frame_get_byte_array :: "memory \<Rightarrow> usize \<Rightarrow> u8 list" where
  "frame_get_byte_array M ppn = map (frame_byte M ppn) [0..<4096]"

definition tracker_alloc :: "(machine, usize) kop" where
  "tracker_alloc m =
     (case frame_alloc (frame_allocator m) of
        (Ok ppn, a) \<Rightarrow> (Ok ppn, m\<lparr>frame_allocator := a, mem := frame_clear ppn (mem m)\<rparr>)
      | (Err e, a) \<Rightarrow> (Err e, m\<lparr>frame_allocator := a\<rparr>)
      | (Panic, a) \<Rightarrow> (Panic, m\<lparr>frame_allocator := a\<rparr>)
      | (Hang, a) \<Rightarrow> (Hang, m\<lparr>frame_allocator := a\<rparr>))"

definition tracker_drop :: "usize \<Rightarrow> (machine, unit) kop" where
  "tracker_drop ppn m =
     (case kunwrap (frame_dealloc ppn) (frame_allocator m) of
        (r, a) \<Rightarrow> (r, m\<lparr>frame_allocator := a\<rparr>))"

text \<open>\<open>init_frame_allocator\<close>; the linker symbols of the free memory are its arguments.\<close>

definition init_frame_allocator :: "crates \<Rightarrow> usize \<Rightarrow> usize \<Rightarrow> (machine, unit) kop" where
  "init_frame_allocator K free_mem_start free_mem_end m =
     (case frame_init (get_ppn_with K free_mem_start) (get_ppn_with K free_mem_end) (frame_allocator m) of
        (r, a) \<Rightarrow> (r, m\<lparr>frame_allocator := a\<rparr>))"

section \<open>Lemmas\<close>

abbreviation owned_frames :: "usize \<Rightarrow> machine \<Rightarrow> usize set" where
  "owned_frames st m \<equiv> frame_owned st (frame_allocator m)"

abbreviation free_frames :: "usize \<Rightarrow> machine \<Rightarrow> usize set" where
  "free_frames st m \<equiv> frame_pool st (frame_allocator m) - frame_owned st (frame_allocator m)"

lemma tracker_alloc_cases:
  assumes "frame_inv st (frame_allocator m)"
  obtains (full) "tracker_alloc m = (Err FrameExhausted, m)" and "free_frames st m = {}"
    | (fresh) ppn m' where "tracker_alloc m = (Ok ppn, m')"
        and "frame_inv st (frame_allocator m')" and "ppn \<in> free_frames st m"
        and "owned_frames st m' = insert ppn (owned_frames st m)"
        and "frame_pool st (frame_allocator m') = frame_pool st (frame_allocator m)"
        and "mem m' = frame_clear ppn (mem m)"
        and "end_ppn (frame_allocator m') = end_ppn (frame_allocator m)"
proof (cases "owned_frames st m = frame_pool st (frame_allocator m)")
  case True
  then show ?thesis
    using frames.alloc_full [OF assms] full by (simp add: tracker_alloc_def)
next
  case False
  from frames.alloc_free [OF assms this] obtain p a where
    "frame_alloc (frame_allocator m) = (Ok p, a)" "p \<in> free_frames st m"
    "frame_inv st a" "frame_owned st a = insert p (owned_frames st m)"
    "frame_pool st a = frame_pool st (frame_allocator m)" by blast
  moreover from this have "end_ppn a = end_ppn (frame_allocator m)"
    using frame_alloc_end [of "frame_allocator m"] by simp
  ultimately show ?thesis
    by (intro fresh [of p "m\<lparr>frame_allocator := a, mem := frame_clear p (mem m)\<rparr>"])
       (simp_all add: tracker_alloc_def)
qed

lemma tracker_drop_owned:
  assumes "frame_inv st (frame_allocator m)" and "ppn \<in> owned_frames st m"
  obtains m' where "tracker_drop ppn m = (Ok (), m')" and "frame_inv st (frame_allocator m')"
    and "owned_frames st m' = owned_frames st m - {ppn}"
    and "frame_pool st (frame_allocator m') = frame_pool st (frame_allocator m)"
    and "mem m' = mem m" and "end_ppn (frame_allocator m') = end_ppn (frame_allocator m)"
proof -
  from frames.dealloc_owned [OF assms] obtain a where
    "frame_dealloc ppn (frame_allocator m) = (Ok (), a)" "frame_inv st a"
    "frame_owned st a = owned_frames st m - {ppn}"
    "frame_pool st a = frame_pool st (frame_allocator m)" by blast
  moreover from this have "end_ppn a = end_ppn (frame_allocator m)"
    using frame_dealloc_end [of ppn "frame_allocator m"] by simp
  ultimately show ?thesis
    by (intro that [of "m\<lparr>frame_allocator := a\<rparr>"]) (simp_all add: tracker_drop_def)
qed

text \<open>Reading a byte after writing one.\<close>

lemma frame_byte_set_same: "frame_byte (frame_set_byte p k b M) p k = b"
proof (rule bit_word_eqI)
  fix n
  assume "n < LENGTH(8)"
  moreover from this have "8 * (k mod 8) + n < 64" by simp
  ultimately show "bit (frame_byte (frame_set_byte p k b M) p k) n = bit b n"
    by (auto simp: frame_byte_def frame_set_byte_def bit_ucast_iff bit_drop_bit_eq bit_or_iff
        bit_and_iff bit_not_iff bit_push_bit_iff bit_mask_iff)
qed

lemma frame_byte_set_other:
  assumes "p \<noteq> q \<or> j \<noteq> k"
  shows "frame_byte (frame_set_byte p k b M) q j = frame_byte M q j"
proof (cases "p = q \<and> j div 8 = k div 8")
  case True
  then have ne: "j mod 8 \<noteq> k mod 8"
    using assms by (metis div_mult_mod_eq)
  show ?thesis
  proof (rule bit_word_eqI)
    fix n
    assume n: "n < LENGTH(8)"
    then have "8 * (j mod 8) + n < 64" by simp
    moreover have "\<not> (8 * (k mod 8) \<le> 8 * (j mod 8) + n \<and> 8 * (j mod 8) + n - 8 * (k mod 8) < 8)"
      using ne n by simp linarith
    ultimately show "bit (frame_byte (frame_set_byte p k b M) q j) n = bit (frame_byte M q j) n"
      using True n
      by (auto simp: frame_byte_def frame_set_byte_def bit_ucast_iff bit_drop_bit_eq bit_or_iff
          bit_and_iff bit_not_iff bit_push_bit_iff bit_mask_iff dest: bit_imp_le_length)
  qed
qed (auto simp: frame_byte_def frame_set_byte_def)

lemma frame_byte_clear: "frame_byte (frame_clear p M) p k = 0"
  by (simp add: frame_byte_def frame_clear_def)

end
