(* ===== verification/Page_Table.thy ===== *)
theory Page_Table
  imports Phys_Memory
begin

text \<open>
  The three-level page table of src/memory/page_table_riscv.rs: \<open>PageMapper\<close>,
  \<open>PageTable\<close> and the operations of its \<open>PageTableTr\<close> implementation.

  The entries of a mapper are the words of the frame its tracker owns. A mapper that the code
  holds a reference to is named by \<open>mapper_ref\<close>: the root, or a key of the map
  \<open>mappers\<close>. An operation works on a page table and the machine; it returns its outcome and both,
  because what was written before an early return stays written.
\<close>

section \<open>State\<close>

record page_mapper =
  pm_parent :: "usize option"
  pm_count :: usize
  pm_tracker :: usize

record page_table =
  pt_asid :: usize
  pt_root :: page_mapper
  pt_mappers :: "usize \<rightharpoonup> page_mapper"
  pt_trackers :: "usize \<rightharpoonup> usize"

datatype mapper_ref = Root | Mapper usize

type_synonym pt_state = "page_table \<times> machine"

fun mapper_at :: "page_table \<Rightarrow> mapper_ref \<Rightarrow> page_mapper option" where
  "mapper_at t Root = Some (pt_root t)"
| "mapper_at t (Mapper p) = pt_mappers t p"

fun set_mapper :: "mapper_ref \<Rightarrow> page_mapper \<Rightarrow> page_table \<Rightarrow> page_table" where
  "set_mapper Root mp t = t\<lparr>pt_root := mp\<rparr>"
| "set_mapper (Mapper p) mp t = t\<lparr>pt_mappers := (pt_mappers t)(p \<mapsto> mp)\<rparr>"

section \<open>Auxiliary steps\<close>

definition on_machine :: "('m, 'a) kop \<Rightarrow> ('t \<times> 'm, 'a) kop" where
  "on_machine f = (\<lambda>(t, m). case f m of (r, m') \<Rightarrow> (r, (t, m')))"

text \<open>A value whose absence is a panic.\<close>

definition kopt :: "'a option \<Rightarrow> ('s, 'a) kop" where
  "kopt x = (case x of Some y \<Rightarrow> kret y | None \<Rightarrow> kpanic)"

text \<open>What is dropped when \<open>f\<close> returns early with an error.\<close>

definition on_error :: "('s, 'a) kop \<Rightarrow> ('s, unit) kop \<Rightarrow> ('s, 'a) kop" where
  "on_error f cleanup s =
     (case f s of
        (Err e, s') \<Rightarrow> kbind cleanup (\<lambda>_. kerr e) s'
      | r \<Rightarrow> r)"

text \<open>Following a reference; a reference always has its mapper.\<close>

definition deref :: "mapper_ref \<Rightarrow> (pt_state, page_mapper) kop" where
  "deref r = (\<lambda>(t, m). kopt (mapper_at t r) (t, m))"

text \<open>Reading and writing \<open>entries[index]\<close> of the array in a frame.\<close>

definition read_entry :: "usize \<Rightarrow> usize \<Rightarrow> (pt_state, usize) kop" where
  "read_entry p i =
     (\<lambda>(t, m). if unat i < PTE_COUNT then (Ok (mem m p (unat i)), (t, m)) else (Panic, (t, m)))"

definition write_word :: "usize \<Rightarrow> nat \<Rightarrow> usize \<Rightarrow> memory \<Rightarrow> memory" where
  "write_word p i e M = M(p := (M p)(i := e))"

definition write_entry :: "usize \<Rightarrow> usize \<Rightarrow> usize \<Rightarrow> (pt_state, unit) kop" where
  "write_entry p i e =
     (\<lambda>(t, m). if unat i < PTE_COUNT
        then (Ok (), (t, m\<lparr>mem := write_word p (unat i) e (mem m)\<rparr>)) else (Panic, (t, m)))"

section \<open>Page mappers\<close>

definition page_mapper_new :: "usize option \<Rightarrow> usize \<Rightarrow> page_mapper" where
  "page_mapper_new parent tracker = \<lparr>pm_parent = parent, pm_count = 0, pm_tracker = tracker\<rparr>"

definition mapper_is_empty :: "page_mapper \<Rightarrow> bool" where
  "mapper_is_empty mp \<longleftrightarrow> pm_count mp = 0"

definition mapper_is_full :: "page_mapper \<Rightarrow> bool" where
  "mapper_is_full mp \<longleftrightarrow> unat (pm_count mp) = PTE_COUNT"

definition mapper_incr :: "mapper_ref \<Rightarrow> (pt_state, usize) kop" where
  "mapper_incr r =
     kbind (deref r) (\<lambda>mp.
       if mapper_is_full mp then kerr (AllocFullPageMapper (pm_tracker mp))
       else (\<lambda>(t, m). (Ok (pm_count mp + 1),
               (set_mapper r (mp\<lparr>pm_count := pm_count mp + 1\<rparr>) t, m))))"

definition mapper_decr :: "mapper_ref \<Rightarrow> (pt_state, usize) kop" where
  "mapper_decr r =
     kbind (deref r) (\<lambda>mp.
       if mapper_is_empty mp then kerr (DeallocEmptyPageMapper (pm_tracker mp))
       else (\<lambda>(t, m). (Ok (pm_count mp - 1),
               (set_mapper r (mp\<lparr>pm_count := pm_count mp - 1\<rparr>) t, m))))"

section \<open>The page table\<close>

definition page_table_new :: "usize \<Rightarrow> (machine, page_table) kop" where
  "page_table_new asid =
     kbind tracker_alloc (\<lambda>tracker.
       kret \<lparr>pt_asid = asid, pt_root = page_mapper_new None tracker,
             pt_mappers = Map.empty, pt_trackers = Map.empty\<rparr>)"

definition mmu_token :: "crates \<Rightarrow> page_table \<Rightarrow> usize outcome" where
  "mmu_token K t =
     (case mmu_token_of K (pt_asid t) (pm_tracker (pt_root t)) of Some v \<Rightarrow> Ok v | None \<Rightarrow> Panic)"

text \<open>Putting a mapper into the map; the one it displaces is returned.\<close>

definition insert_mapper :: "usize \<Rightarrow> page_mapper \<Rightarrow> (pt_state, page_mapper option) kop" where
  "insert_mapper p mp =
     (\<lambda>(t, m). (Ok (pt_mappers t p), (t\<lparr>pt_mappers := (pt_mappers t)(p \<mapsto> mp)\<rparr>, m)))"

text \<open>The branch of \<open>map_without_alloc\<close> that creates the next mapper.\<close>

definition create_child :: "crates \<Rightarrow> usize \<Rightarrow> mapper_ref \<Rightarrow> page_mapper \<Rightarrow> (pt_state, usize) kop" where
  "create_child K i r mapper =
     kbind (on_machine tracker_alloc) (\<lambda>child_ppn.
     kbind (kopt (pte_new K child_ppn PTE_V)) (\<lambda>e.
     kbind (write_entry (pm_tracker mapper) i e) (\<lambda>_.
     kbind (on_error (mapper_incr r) (on_machine (tracker_drop child_ppn))) (\<lambda>_.
     kbind (insert_mapper child_ppn (page_mapper_new (Some (pm_tracker mapper)) child_ppn)) (\<lambda>old.
       case old of
         Some o' \<Rightarrow> kbind (on_machine (tracker_drop (pm_tracker o')))
                         (\<lambda>_. kerr (PPNAlreadyMapped child_ppn))
       | None \<Rightarrow> kret child_ppn)))))"

definition find_mapper :: "usize \<Rightarrow> (pt_state, mapper_ref) kop" where
  "find_mapper p =
     (\<lambda>(t, m). case pt_mappers t p of
        Some _ \<Rightarrow> (Ok (Mapper p), (t, m))
      | None \<Rightarrow> (Err (PPNNotMapped p), (t, m)))"

definition map_next :: "crates \<Rightarrow> usize \<Rightarrow> mapper_ref \<Rightarrow> (pt_state, mapper_ref) kop" where
  "map_next K i r =
     kbind (deref r) (\<lambda>mapper.
     kbind (read_entry (pm_tracker mapper) i) (\<lambda>entry.
     kbind (kopt (pte_is_valid K entry)) (\<lambda>valid.
     kbind (if \<not> valid then create_child K i r mapper else kret (pte_ppn K entry)) (\<lambda>child_ppn.
     find_mapper child_ppn))))"

fun map_walk :: "crates \<Rightarrow> usize list \<Rightarrow> mapper_ref \<Rightarrow> (pt_state, mapper_ref) kop" where
  "map_walk K [] r = kret r"
| "map_walk K (i # is) r = kbind (map_next K i r) (map_walk K is)"

definition map_leaf :: "crates \<Rightarrow> usize \<Rightarrow> usize \<Rightarrow> u8 \<Rightarrow> usize \<Rightarrow> mapper_ref \<Rightarrow> (pt_state, unit) kop" where
  "map_leaf K vpn ppn flags i r =
     kbind (deref r) (\<lambda>mapper.
     kbind (read_entry (pm_tracker mapper) i) (\<lambda>entry.
     kbind (kopt (pte_is_valid K entry)) (\<lambda>valid.
       if \<not> valid then
         kbind (kopt (pte_new K ppn flags)) (\<lambda>e.
         kbind (write_entry (pm_tracker mapper) i e) (\<lambda>_.
         kbind (mapper_incr r) (\<lambda>_. kret ())))
       else kerr (VPNAlreadyMapped vpn))))"

definition map_without_alloc :: "crates \<Rightarrow> usize \<Rightarrow> usize \<Rightarrow> u8 \<Rightarrow> (pt_state, unit) kop" where
  "map_without_alloc K vpn ppn flags =
     (let bits = flags OR PTE_V in
      case flags_from_bits K PTE_DECLARED bits of
        None \<Rightarrow> kerr (InvaidPageTablePerm (ucast bits))
      | Some fl \<Rightarrow>
          let indexes = page_indexes K vpn; last = PAGE_LEVEL - 1 in
          kbind (map_walk K (take last indexes) Root) (map_leaf K vpn ppn fl (indexes ! last)))"

text \<open>
  The first loop of \<open>unmap_without_dealloc\<close>: it returns the last mapper and its page number.
\<close>

fun unmap_walk :: "crates \<Rightarrow> usize \<Rightarrow> usize list \<Rightarrow> mapper_ref \<Rightarrow> usize \<Rightarrow> (pt_state, mapper_ref \<times> usize) kop" where
  "unmap_walk K vpn [] r ppn = kret (r, ppn)"
| "unmap_walk K vpn (i # is) r ppn =
     kbind (deref r) (\<lambda>mapper.
     kbind (read_entry (pm_tracker mapper) i) (\<lambda>entry.
     kbind (kopt (pte_is_valid K entry)) (\<lambda>valid.
       if \<not> valid then kerr (VPNNotMapped vpn)
       else kbind (find_mapper (pte_ppn K entry)) (\<lambda>r'.
            unmap_walk K vpn is r' (pte_ppn K entry)))))"

definition remove_mapper :: "usize \<Rightarrow> (pt_state, unit) kop" where
  "remove_mapper p =
     (\<lambda>(t, m). case pt_mappers t p of
        None \<Rightarrow> (Err (PPNNotMapped p), (t, m))
      | Some mp \<Rightarrow> on_machine (tracker_drop (pm_tracker mp))
                     (t\<lparr>pt_mappers := (pt_mappers t)(p := None)\<rparr>, m))"

text \<open>
  The second loop, over the levels from the last one down to 0. \<open>unmap_level\<close> is the part of
  its body up to the test whether the mapper has become empty.
\<close>

definition unmap_level ::
    "crates \<Rightarrow> usize \<Rightarrow> usize list \<Rightarrow> nat \<Rightarrow> mapper_ref \<Rightarrow> usize \<Rightarrow> (pt_state, usize \<times> page_mapper \<times> bool) kop" where
  "unmap_level K vpn indexes i r return_ppn =
     kbind (deref r) (\<lambda>mapper.
     kbind (read_entry (pm_tracker mapper) (indexes ! i)) (\<lambda>entry.
     kbind (kopt (pte_is_valid K entry)) (\<lambda>valid.
       if \<not> valid then kerr (VPNNotMapped vpn)
       else
         let return_ppn = (if i = PAGE_LEVEL - 1 then pte_ppn K entry else return_ppn) in
         kbind (mapper_decr r) (\<lambda>count.
         kbind (write_entry (pm_tracker mapper) (indexes ! i) pte_empty) (\<lambda>_.
         kret (return_ppn, mapper, count = 0))))))"

fun unmap_loop ::
    "crates \<Rightarrow> usize \<Rightarrow> usize list \<Rightarrow> nat \<Rightarrow> mapper_ref \<Rightarrow> usize \<Rightarrow> usize \<Rightarrow> (pt_state, usize) kop" where
  "unmap_loop K vpn indexes 0 r remove_ppn return_ppn =
     kbind (unmap_level K vpn indexes 0 r return_ppn) (\<lambda>(return_ppn, mapper, empty).
     kret return_ppn)"
| "unmap_loop K vpn indexes (Suc i) r remove_ppn return_ppn =
     kbind (unmap_level K vpn indexes (Suc i) r return_ppn) (\<lambda>(return_ppn, mapper, empty).
       if \<not> empty then kret return_ppn
       else
         kbind (kopt (pm_parent mapper)) (\<lambda>parent.
         kbind (remove_mapper remove_ppn) (\<lambda>_.
         kbind (if Suc i \<noteq> 1 then find_mapper parent else kret Root) (\<lambda>r'.
         kbind (deref r') (\<lambda>mapper'.
         unmap_loop K vpn indexes i r' (pm_tracker mapper') return_ppn)))))"

definition unmap_without_dealloc :: "crates \<Rightarrow> usize \<Rightarrow> (pt_state, usize) kop" where
  "unmap_without_dealloc K vpn =
     (let indexes = page_indexes K vpn; last = PAGE_LEVEL - 1 in
      kbind (unmap_walk K vpn (take last indexes) Root 0) (\<lambda>(r, ppn).
      unmap_loop K vpn indexes last r ppn ppn))"

definition pt_map :: "crates \<Rightarrow> usize \<Rightarrow> u8 \<Rightarrow> (pt_state, usize) kop" where
  "pt_map K vpn flags =
     (if \<not> flags_is_empty K flags then
        kbind (on_machine tracker_alloc) (\<lambda>ppn.
        kbind (on_error (map_without_alloc K vpn ppn flags) (on_machine (tracker_drop ppn))) (\<lambda>_.
        (\<lambda>(t, m). case pt_trackers t vpn of
           Some old \<Rightarrow> kbind (on_machine (tracker_drop old)) (\<lambda>_. kerr (VPNAlreadyMapped vpn))
                          (t\<lparr>pt_trackers := (pt_trackers t)(vpn \<mapsto> ppn)\<rparr>, m)
         | None \<Rightarrow> (Ok ppn, (t\<lparr>pt_trackers := (pt_trackers t)(vpn \<mapsto> ppn)\<rparr>, m)))))
      else kerr (InvaidPageTablePerm (ucast flags)))"

definition pt_unmap :: "crates \<Rightarrow> usize \<Rightarrow> (pt_state, usize) kop" where
  "pt_unmap K vpn =
     kbind (unmap_without_dealloc K vpn) (\<lambda>ppn.
     (\<lambda>(t, m). case pt_trackers t vpn of
        None \<Rightarrow> (Err (VPNNotMapped vpn), (t, m))
      | Some tracker \<Rightarrow> kbind (on_machine (tracker_drop tracker)) (\<lambda>_. kret ppn)
                          (t\<lparr>pt_trackers := (pt_trackers t)(vpn := None)\<rparr>, m)))"

fun translate_walk :: "crates \<Rightarrow> usize list \<Rightarrow> usize \<Rightarrow> (pt_state, usize option) kop" where
  "translate_walk K [] p = kpanic"
| "translate_walk K [i] p =
     kbind (read_entry p i) (\<lambda>entry.
     kbind (kopt (pte_is_valid K entry)) (\<lambda>valid.
       kret (if valid then Some (pte_ppn K entry) else None)))"
| "translate_walk K (i # is) p =
     kbind (read_entry p i) (\<lambda>entry.
     kbind (kopt (pte_is_valid K entry)) (\<lambda>valid.
       if \<not> valid then kret None
       else (\<lambda>(t, m). case pt_mappers t (pte_ppn K entry) of
               None \<Rightarrow> (Ok None, (t, m))
             | Some mapper \<Rightarrow> translate_walk K is (pm_tracker mapper) (t, m))))"

definition translate_ppn_with :: "crates \<Rightarrow> usize \<Rightarrow> (pt_state, usize option) kop" where
  "translate_ppn_with K vpn =
     (\<lambda>(t, m). translate_walk K (page_indexes K vpn) (pm_tracker (pt_root t)) (t, m))"

definition get_tracker_with :: "usize \<Rightarrow> page_table \<Rightarrow> usize outcome" where
  "get_tracker_with vpn t =
     (case pt_trackers t vpn of Some ppn \<Rightarrow> Ok ppn | None \<Rightarrow> Err (VPNNotMapped vpn))"

definition pt_as_kernel_mut :: "usize \<Rightarrow> usize \<Rightarrow> usize \<Rightarrow> page_table \<Rightarrow> usize outcome" where
  "pt_as_kernel_mut vpn offset mem_size t =
     (case get_tracker_with vpn t of
        Ok tracker \<Rightarrow> frame_as_kernel_mut tracker offset mem_size
      | Err e \<Rightarrow> Err e | Panic \<Rightarrow> Panic | Hang \<Rightarrow> Hang)"

definition pt_get_byte_array :: "usize \<Rightarrow> pt_state \<Rightarrow> u8 list outcome" where
  "pt_get_byte_array vpn = (\<lambda>(t, m).
     case get_tracker_with vpn t of
        Ok tracker \<Rightarrow> Ok (frame_get_byte_array (mem m) tracker)
      | Err e \<Rightarrow> Err e | Panic \<Rightarrow> Panic | Hang \<Rightarrow> Hang)"

end
