(* ===== verification/Page_Tree.thy ===== *)
theory Page_Tree
  imports Page_Table
begin

text \<open>
  The shape of the three mapper levels in memory, independent of the records that track them:
  a root frame \<open>R\<close>, a parent function on the other mapper frames, and the memory. The four
  lemmas of the second section say what adding a mapper, writing or clearing a leaf entry, and
  removing an empty mapper do to the shape and to the address translation \<open>look\<close>.
\<close>

section \<open>Shape and translation\<close>

definition valid_at :: "memory \<Rightarrow> usize \<Rightarrow> nat \<Rightarrow> bool" where
  "valid_at M p i \<longleftrightarrow> i < PTE_COUNT \<and> bit (M p i) 0"

definition target :: "crates \<Rightarrow> memory \<Rightarrow> usize \<Rightarrow> nat \<Rightarrow> usize" where
  "target K M p i = pte_ppn K (M p i)"

definition inner :: "usize \<Rightarrow> (usize \<rightharpoonup> usize) \<Rightarrow> usize \<Rightarrow> bool" where
  "inner R par p \<longleftrightarrow> p = R \<or> par p = Some R"

text \<open>
  Every valid entry of the root and of the second level points to a mapper whose parent it is, no
  two entries point to the same mapper, and every mapper is pointed to.
\<close>

definition tree :: "crates \<Rightarrow> usize \<Rightarrow> (usize \<rightharpoonup> usize) \<Rightarrow> memory \<Rightarrow> bool" where
  "tree K R par M \<longleftrightarrow>
     par R = None \<and>
     (\<forall>p i. inner R par p \<and> valid_at M p i \<longrightarrow> par (target K M p i) = Some p) \<and>
     (\<forall>p i j. inner R par p \<and> valid_at M p i \<and> valid_at M p j \<and> target K M p i = target K M p j
        \<longrightarrow> i = j) \<and>
     (\<forall>q p. par q = Some p \<longrightarrow> inner R par p \<and> (\<exists>i. valid_at M p i \<and> target K M p i = q))"

definition look :: "crates \<Rightarrow> usize \<Rightarrow> memory \<Rightarrow> nat \<Rightarrow> nat \<Rightarrow> nat \<Rightarrow> usize option" where
  "look K R M i j k =
     (let a = target K M R i; b = target K M a j in
      if valid_at M R i \<and> valid_at M a j \<and> valid_at M b k then Some (target K M b k) else None)"

definition valid_count :: "memory \<Rightarrow> usize \<Rightarrow> nat" where
  "valid_count M p = card {i. valid_at M p i}"

section \<open>Facts about the shape\<close>

lemma treeD:
  assumes "tree K R par M"
  shows "par R = None"
    and "inner R par p \<Longrightarrow> valid_at M p i \<Longrightarrow> par (target K M p i) = Some p"
    and "inner R par p \<Longrightarrow> valid_at M p i \<Longrightarrow> valid_at M p j \<Longrightarrow>
           target K M p i = target K M p j \<Longrightarrow> i = j"
    and "par q = Some p \<Longrightarrow> inner R par p"
    and "par q = Some p \<Longrightarrow> \<exists>i. valid_at M p i \<and> target K M p i = q"
  using assms unfolding tree_def by blast+

lemma inner_root [simp]: "inner R par R"
  by (simp add: inner_def)

lemma finite_valid [simp]: "finite {i. valid_at M p i}"
  by (rule finite_subset [of _ "{..<PTE_COUNT}"]) (auto simp: valid_at_def)

lemma valid_count_le: "valid_count M p \<le> PTE_COUNT"
  using card_mono [of "{..<PTE_COUNT}" "{i. valid_at M p i}"]
  by (auto simp: valid_count_def valid_at_def)

lemma valid_count_lt:
  assumes "i < PTE_COUNT" and "\<not> valid_at M p i"
  shows "valid_count M p < PTE_COUNT"
proof -
  have "{i. valid_at M p i} \<subset> {..<PTE_COUNT}"
    using assms by (auto simp: valid_at_def)
  then have "card {i. valid_at M p i} < card {..<PTE_COUNT}" by (intro psubset_card_mono) auto
  then show ?thesis by (simp add: valid_count_def)
qed

lemma valid_count_0_iff: "valid_count M p = 0 \<longleftrightarrow> (\<forall>i. \<not> valid_at M p i)"
  by (auto simp: valid_count_def)

lemma valid_at_write:
  "valid_at (write_word p i e M) q j \<longleftrightarrow>
     (if q = p \<and> j = i then i < PTE_COUNT \<and> bit e 0 else valid_at M q j)"
  by (auto simp: valid_at_def write_word_def)

lemma target_write:
  "target K (write_word p i e M) q j = (if q = p \<and> j = i then pte_ppn K e else target K M q j)"
  by (auto simp: target_def write_word_def)

lemma valid_at_clear [simp]: "valid_at (frame_clear c M) q j \<longleftrightarrow> q \<noteq> c \<and> valid_at M q j"
  by (auto simp: valid_at_def frame_clear_def)

lemma target_clear: "q \<noteq> c \<Longrightarrow> target K (frame_clear c M) q j = target K M q j"
  by (auto simp: target_def frame_clear_def)

lemma valid_count_set:
  assumes "i < PTE_COUNT" and "\<not> valid_at M p i" and "bit e 0"
  shows "valid_count (write_word p i e M) q = (if q = p then Suc (valid_count M p) else valid_count M q)"
proof -
  have "{j. valid_at (write_word p i e M) p j} = insert i {j. valid_at M p j}"
    using assms by (auto simp: valid_at_write)
  then show ?thesis
    using assms by (cases "q = p") (simp_all add: valid_count_def valid_at_write cong: conj_cong)
qed

lemma valid_count_unset:
  assumes "valid_at M p i" and "\<not> bit e 0"
  shows "valid_count (write_word p i e M) q = (if q = p then valid_count M p - 1 else valid_count M q)"
proof -
  have "{j. valid_at (write_word p i e M) p j} = {j. valid_at M p j} - {i}"
    using assms by (auto simp: valid_at_write)
  then show ?thesis
    using assms by (cases "q = p") (simp_all add: valid_count_def valid_at_write cong: conj_cong)
qed

lemma valid_count_clear: "valid_count (frame_clear c M) q = (if q = c then 0 else valid_count M q)"
  by (auto simp: valid_count_def)

text \<open>The nodes on the way of a translation.\<close>

lemma path_nodes:
  assumes "tree K R par M" and "valid_at M R i"
  shows "par (target K M R i) = Some R" and "target K M R i \<noteq> R" and "inner R par (target K M R i)"
proof -
  show a: "par (target K M R i) = Some R" using treeD(2) [OF assms(1) inner_root assms(2)] .
  then show "target K M R i \<noteq> R" "inner R par (target K M R i)"
    using treeD(1) [OF assms(1)] by (auto simp: inner_def)
qed

lemma path_nodes2:
  assumes "tree K R par M" and "valid_at M R i" and "valid_at M (target K M R i) j"
  shows "par (target K M (target K M R i) j) = Some (target K M R i)"
    and "\<not> inner R par (target K M (target K M R i) j)"
proof -
  note a = path_nodes [OF assms(1,2)]
  show b: "par (target K M (target K M R i) j) = Some (target K M R i)"
    using treeD(2) [OF assms(1) a(3) assms(3)] .
  show "\<not> inner R par (target K M (target K M R i) j)"
    using b a(2) treeD(1) [OF assms(1)] by (auto simp: inner_def)
qed

section \<open>The four changes\<close>

lemma add_mapper:
  assumes T: "tree K R par M" and p: "inner R par p" and i: "i < PTE_COUNT" "\<not> valid_at M p i"
    and c: "par c = None" "c \<noteq> R" and e: "bit e 0" "pte_ppn K e = c"
    and M': "M' = write_word p i e (frame_clear c M)"
  shows "tree K R (par(c \<mapsto> p)) M'" and "look K R M' x y z = look K R M x y z"
proof -
  note D = treeD [OF T]
  have pc: "p \<noteq> c" using p c by (auto simp: inner_def)
  have V: "valid_at M' q j \<longleftrightarrow> q \<noteq> c \<and> (q = p \<and> j = i \<or> valid_at M q j)" for q j
    using i e pc by (auto simp: M' valid_at_write)
  have Tg: "target K M' q j = (if q = p \<and> j = i then c else target K M q j)" if "q \<noteq> c" for q j
    using that e by (simp add: M' target_write target_clear)
  have inn: "inner R (par(c \<mapsto> p)) q \<longleftrightarrow> inner R par q \<or> q = c \<and> p = R" if "q \<noteq> R" for q
    using that c by (auto simp: inner_def)
  have nc: "target K M q j \<noteq> c" if "inner R par q" "valid_at M q j" for q j
    using D(2) [OF that] c by auto
  show "tree K R (par(c \<mapsto> p)) M'"
    unfolding tree_def
  proof (intro conjI allI impI; (elim conjE)?)
    show "(par(c \<mapsto> p)) R = None" using c D(1) by simp
  next
    fix q j
    assume q: "inner R (par(c \<mapsto> p)) q" and v: "valid_at M' q j"
    then have qc: "q \<noteq> c" and vq: "q = p \<and> j = i \<or> valid_at M q j" by (auto simp: V)
    then have "inner R par q" using q by (auto simp: inner_def)
    then show "(par(c \<mapsto> p)) (target K M' q j) = Some q"
      using vq D(2) [of q j] nc [of q j] i by (auto simp: Tg [OF qc])
  next
    fix q j l
    assume q: "inner R (par(c \<mapsto> p)) q" and v: "valid_at M' q j" "valid_at M' q l"
      and eq: "target K M' q j = target K M' q l"
    from v(1) have qc: "q \<noteq> c" by (simp add: V)
    then have qi: "inner R par q" using q by (auto simp: inner_def)
    show "j = l"
      using v eq D(3) [OF qi] nc [OF qi] by (auto simp: V Tg [OF qc] split: if_splits)
  next
    fix q p'
    assume q: "(par(c \<mapsto> p)) q = Some p'"
    show "inner R (par(c \<mapsto> p)) p'"
      using q p D(4) [of q p'] pc c by (auto simp: inner_def split: if_splits)
    show "\<exists>j. valid_at M' p' j \<and> target K M' p' j = q"
    proof (cases "q = c")
      case True
      then show ?thesis using q pc by (auto simp: V Tg intro!: exI [of _ i])
    next
      case False
      then have pq: "par q = Some p'" using q by simp
      from D(5) [OF pq] obtain j where j: "valid_at M p' j" "target K M p' j = q" by blast
      have "p' \<noteq> c" using D(4) [OF pq] c by (auto simp: inner_def)
      moreover have "\<not> (p' = p \<and> j = i)" using j i by auto
      ultimately show ?thesis using j by (auto simp: V Tg intro!: exI [of _ j])
    qed
  qed
  show "look K R M' x y z = look K R M x y z"
  proof (cases "valid_at M R x")
    case True
    note a = path_nodes [OF T True]
    let ?a = "target K M R x"
    have ac: "?a \<noteq> c" using a(1) c by auto
    have Rx: "valid_at M' R x" "target K M' R x = ?a"
      using True c i by (auto simp: V Tg)
    show ?thesis
    proof (cases "valid_at M ?a y")
      case ay: True
      note b = path_nodes2 [OF T True ay]
      let ?b = "target K M ?a y"
      have bc: "?b \<noteq> c" using b(1) c by auto
      have "valid_at M' ?a y" "target K M' ?a y = ?b"
        using ay ac i by (auto simp: V Tg)
      moreover have "valid_at M' ?b z \<longleftrightarrow> valid_at M ?b z" "target K M' ?b z = target K M ?b z"
        using bc b(2) p by (auto simp: V Tg)
      ultimately show ?thesis using Rx True ay by (simp add: look_def Let_def)
    next
      case False
      then have "valid_at M' ?a y \<Longrightarrow> ?a = p \<and> y = i \<and> target K M' ?a y = c"
        using ac by (auto simp: V Tg)
      then show ?thesis using Rx False by (auto simp: look_def Let_def V)
    qed
  next
    case False
    then have "valid_at M' R x \<Longrightarrow> R = p \<and> x = i \<and> target K M' R x = c"
      using c by (auto simp: V Tg)
    then show ?thesis using False by (auto simp: look_def Let_def V)
  qed
qed

lemma write_leaf:
  assumes T: "tree K R par M" and path: "valid_at M R i" "valid_at M (target K M R i) j"
    and q: "q = target K M (target K M R i) j" and k: "k < PTE_COUNT"
    and M': "M' = write_word q k e M"
  shows "tree K R par M'"
    and "look K R M' x y z =
           (if x = i \<and> y = j \<and> z = k then (if bit e 0 then Some (pte_ppn K e) else None)
            else look K R M x y z)"
proof -
  note D = treeD [OF T] and a = path_nodes [OF T path(1)] and b = path_nodes2 [OF T path]
  have same: "valid_at M' p l = valid_at M p l" "target K M' p l = target K M p l"
    if "p \<noteq> q" for p l using that by (simp_all add: M' valid_at_write target_write)
  have ni: "p \<noteq> q" if "inner R par p" for p using that b(2) q by auto
  show "tree K R par M'"
    unfolding tree_def
  proof (intro conjI allI impI; (elim conjE)?)
    show "par R = None" by (rule D(1))
  next
    fix p l
    assume "inner R par p" "valid_at M' p l"
    then show "par (target K M' p l) = Some p" using D(2) same [OF ni] by simp
  next
    fix p l n
    assume "inner R par p" "valid_at M' p l" "valid_at M' p n" "target K M' p l = target K M' p n"
    then show "l = n" using D(3) [of p l n] same [OF ni] by simp
  next
    fix q' p
    assume "par q' = Some p"
    then show "inner R par p" "\<exists>l. valid_at M' p l \<and> target K M' p l = q'"
      using D(4,5) [of q' p] same [OF ni [of p]] by auto
  qed
  have Rq: "R \<noteq> q" using ni by simp
  show "look K R M' x y z =
           (if x = i \<and> y = j \<and> z = k then (if bit e 0 then Some (pte_ppn K e) else None)
            else look K R M x y z)"
  proof (cases "valid_at M R x")
    case True
    let ?a = "target K M R x"
    note ax = path_nodes [OF T True]
    have aq: "?a \<noteq> q" using ni ax(3) by blast
    show ?thesis
    proof (cases "valid_at M ?a y")
      case ay: True
      have hit: "target K M ?a y = q \<longleftrightarrow> x = i \<and> y = j"
      proof
        assume eq: "target K M ?a y = q"
        have "par q = Some ?a" using path_nodes2(1) [OF T True ay] eq by simp
        then have "?a = target K M R i" using b(1) q by simp
        then have "x = i" using D(3) [OF inner_root True path(1)] by simp
        then show "x = i \<and> y = j" using D(3) [OF a(3)] ay path(2) eq q by auto
      qed (use q in auto)
      show ?thesis
      proof (cases "x = i \<and> y = j")
        case True
        then show ?thesis
          using path k q same [OF Rq] same [OF aq] hit
          by (auto simp: look_def Let_def M' valid_at_write target_write)
      next
        case False
        then have "target K M ?a y \<noteq> q" using hit by simp
        then show ?thesis
          using False same [OF Rq] same [OF aq] same by (auto simp: look_def Let_def)
      qed
    next
      case False
      then have "\<not> (x = i \<and> y = j)" using path by auto
      then show ?thesis
        using False same [OF Rq] same [OF aq] by (auto simp: look_def Let_def)
    qed
  next
    case False
    then have "x \<noteq> i" using path by auto
    then show ?thesis using False same [OF Rq] by (auto simp: look_def Let_def)
  qed
qed

lemma remove_empty_mapper:
  assumes T: "tree K R par M" and p: "inner R par p" and v: "valid_at M p i"
    and c: "c = target K M p i" and empty: "\<And>j. \<not> valid_at M c j" and e: "\<not> bit e 0"
    and M': "M' = write_word p i e M"
  shows "tree K R (par(c := None)) M'" and "look K R M' x y z = look K R M x y z"
proof -
  note D = treeD [OF T]
  have pc: "par c = Some p" using D(2) [OF p v] c by simp
  have cR: "c \<noteq> R" using pc D(1) by auto
  have ne: "c \<noteq> p" using v empty by auto
  have V: "valid_at M' q j \<longleftrightarrow> \<not> (q = p \<and> j = i) \<and> valid_at M q j" for q j
    using v e by (auto simp: M' valid_at_write)
  have Tg: "target K M' q j = target K M q j" if "valid_at M' q j" for q j
    using that unfolding V by (auto simp: M' target_write)
  have inn: "inner R par q" if "inner R (par(c := None)) q" for q
    using that by (auto simp: inner_def split: if_splits)
  have other: "target K M q j \<noteq> c" if "inner R par q" "valid_at M' q j" for q j
  proof
    assume hit: "target K M q j = c"
    have vq: "valid_at M q j" and ne': "\<not> (q = p \<and> j = i)" using that(2) unfolding V by auto
    have "par c = Some q" using D(2) [OF that(1) vq] hit by simp
    then have qp: "q = p" using pc by simp
    have "i = j" using D(3) [OF p v vq [unfolded qp]] hit [unfolded qp] c by simp
    then show False using ne' qp by simp
  qed
  show "tree K R (par(c := None)) M'"
    unfolding tree_def
  proof (intro conjI allI impI; (elim conjE)?)
    show "(par(c := None)) R = None" using D(1) by simp
  next
    fix q j
    assume "inner R (par(c := None)) q" and w: "valid_at M' q j"
    then show "(par(c := None)) (target K M' q j) = Some q"
      using inn other D(2) [of q j] by (auto simp: Tg [OF w] V)
  next
    fix q j l
    assume "inner R (par(c := None)) q" and w: "valid_at M' q j" "valid_at M' q l"
      and "target K M' q j = target K M' q l"
    then show "j = l" using D(3) [of q j l] inn by (auto simp: Tg V)
  next
    fix q p'
    assume q: "(par(c := None)) q = Some p'"
    then have qc: "q \<noteq> c" and pq: "par q = Some p'" by (auto split: if_splits)
    obtain j where j: "valid_at M p' j" "target K M p' j = q" using D(5) [OF pq] by blast
    then have p'c: "p' \<noteq> c" using empty by auto
    show "inner R (par(c := None)) p'"
      using D(4) [OF pq] p'c by (auto simp: inner_def)
    have w: "valid_at M' p' j" using j qc c by (auto simp: V)
    then show "\<exists>j. valid_at M' p' j \<and> target K M' p' j = q" using j Tg by blast
  qed
  show "look K R M' x y z = look K R M x y z"
  proof (cases "look K R M x y z")
    case None
    then show ?thesis
      using Tg by (auto simp: look_def Let_def V split: if_splits)
  next
    case (Some u)
    let ?a = "target K M R x" and ?b = "target K M (target K M R x) y"
    have path: "valid_at M R x" "valid_at M ?a y" "valid_at M ?b z"
      using Some by (auto simp: look_def Let_def split: if_splits)
    note a = path_nodes [OF T path(1)] and b = path_nodes2 [OF T path(1,2)]
    have "valid_at M' R x" using path c empty by (auto simp: V)
    moreover have "valid_at M' ?a y" using path c empty by (auto simp: V)
    moreover have "valid_at M' ?b z" using path b(2) p by (auto simp: V)
    ultimately show ?thesis using path Tg by (auto simp: look_def Let_def)
  qed
qed

end
