(* ===== verification/Page_Table_Inv.thy ===== *)
theory Page_Table_Inv
  imports Page_Tree
begin

text \<open>
  The invariant of a page table on the machine, and that every operation of
  src/memory/page_table_riscv.rs keeps it on every branch: the mapper frames form the tree of
  \<open>Page_Tree\<close>, each counter is the number of valid entries of its mapper, every mapper frame and
  every tracked frame is handed out by the frame allocator, and no frame plays two roles.
\<close>

section \<open>The invariant\<close>

abbreviation root_ppn :: "page_table \<Rightarrow> usize" where
  "root_ppn t \<equiv> pm_tracker (pt_root t)"

definition par_of :: "page_table \<Rightarrow> usize \<rightharpoonup> usize" where
  "par_of t q = Option.bind (pt_mappers t q) pm_parent"

definition pt_nodes :: "page_table \<Rightarrow> usize set" where
  "pt_nodes t = insert (root_ppn t) (dom (pt_mappers t))"

definition mappers_ok :: "page_table \<Rightarrow> memory \<Rightarrow> bool" where
  "mappers_ok t M \<longleftrightarrow>
     unat (pm_count (pt_root t)) = valid_count M (root_ppn t) \<and>
     (\<forall>q mp. pt_mappers t q = Some mp \<longrightarrow>
        pm_tracker mp = q \<and> pm_parent mp \<noteq> None \<and> unat (pm_count mp) = valid_count M q)"

definition frames_ok :: "usize \<Rightarrow> page_table \<Rightarrow> machine \<Rightarrow> bool" where
  "frames_ok st t m \<longleftrightarrow>
     frame_inv st (frame_allocator m) \<and> end_ppn (frame_allocator m) \<le> 2 ^ 44 \<and>
     pt_nodes t \<subseteq> owned_frames st m \<and> ran (pt_trackers t) \<subseteq> owned_frames st m \<and>
     ran (pt_trackers t) \<inter> pt_nodes t = {} \<and> inj_on (pt_trackers t) (dom (pt_trackers t))"

definition pt_inv :: "crates \<Rightarrow> usize \<Rightarrow> pt_state \<Rightarrow> bool" where
  "pt_inv K st = (\<lambda>(t, m).
     tree K (root_ppn t) (par_of t) (mem m) \<and> mappers_ok t (mem m) \<and> frames_ok st t m)"

text \<open>What the table translates, by the three indexes and by page number.\<close>

definition pt_look :: "crates \<Rightarrow> pt_state \<Rightarrow> nat \<Rightarrow> nat \<Rightarrow> nat \<Rightarrow> usize option" where
  "pt_look K = (\<lambda>(t, m). look K (root_ppn t) (mem m))"

definition vpn_index :: "crates \<Rightarrow> usize \<Rightarrow> nat \<Rightarrow> nat" where
  "vpn_index K vpn i = unat (page_indexes K vpn ! i)"

definition vpn_view :: "crates \<Rightarrow> pt_state \<Rightarrow> usize \<Rightarrow> usize option" where
  "vpn_view K s vpn = pt_look K s (vpn_index K vpn 0) (vpn_index K vpn 1) (vpn_index K vpn 2)"

text \<open>
  The frames that belong to others, and that an operation leaves them, the root, the trackers and
  the set of frames that exist alone.
\<close>

definition others :: "usize \<Rightarrow> pt_state \<Rightarrow> usize set" where
  "others st = (\<lambda>(t, m). owned_frames st m - pt_nodes t)"

definition keeps :: "usize \<Rightarrow> pt_state \<Rightarrow> pt_state \<Rightarrow> bool" where
  "keeps st s s' \<longleftrightarrow>
     others st s' = others st s \<and> (\<forall>p \<in> others st s. mem (snd s') p = mem (snd s) p) \<and>
     root_ppn (fst s') = root_ppn (fst s) \<and> pt_asid (fst s') = pt_asid (fst s) \<and>
     pt_trackers (fst s') = pt_trackers (fst s) \<and>
     frame_pool st (frame_allocator (snd s')) = frame_pool st (frame_allocator (snd s))"

lemma keeps_refl [simp]: "keeps st s s"
  by (simp add: keeps_def)

lemma keeps_trans: "keeps st s s' \<Longrightarrow> keeps st s' s'' \<Longrightarrow> keeps st s s''"
  by (simp add: keeps_def)

text \<open>
  An operation that only takes more frames into use: the frames that were in use outside the
  nodes of the table keep their contents. Giving frames back is the converse.
\<close>

definition enlarges :: "usize \<Rightarrow> pt_state \<Rightarrow> pt_state \<Rightarrow> bool" where
  "enlarges st s s' \<longleftrightarrow>
     others st s \<subseteq> others st s' \<and> (\<forall>p \<in> others st s. mem (snd s') p = mem (snd s) p) \<and>
     root_ppn (fst s') = root_ppn (fst s) \<and> pt_asid (fst s') = pt_asid (fst s) \<and>
     frame_pool st (frame_allocator (snd s')) = frame_pool st (frame_allocator (snd s))"

lemma enlarges_refl [simp]: "enlarges st s s"
  by (simp add: enlarges_def)

lemma enlarges_trans [trans]: "enlarges st s s' \<Longrightarrow> enlarges st s' s'' \<Longrightarrow> enlarges st s s''"
  by (auto simp: enlarges_def)

lemma keeps_enlarges: "keeps st s s' \<Longrightarrow> enlarges st s s'" "keeps st s s' \<Longrightarrow> enlarges st s' s"
  by (auto simp: keeps_def enlarges_def)

section \<open>References\<close>

definition ref_to :: "page_table \<Rightarrow> mapper_ref \<Rightarrow> usize \<Rightarrow> bool" where
  "ref_to t r p \<longleftrightarrow> r = Root \<and> p = root_ppn t \<or> r = Mapper p \<and> p \<in> dom (pt_mappers t)"

lemma par_of_dom:
  assumes "mappers_ok t M"
  shows "dom (par_of t) = dom (pt_mappers t)"
  using assms by (fastforce simp: mappers_ok_def par_of_def dom_def bind_eq_Some_conv)

lemma root_not_mapper:
  assumes "tree K (root_ppn t) (par_of t) M" and "mappers_ok t M"
  shows "root_ppn t \<notin> dom (pt_mappers t)"
  using treeD(1) [OF assms(1)] par_of_dom [OF assms(2)] by blast

lemma ref_mapper:
  assumes "mappers_ok t M" and "ref_to t r p"
  obtains mp where "mapper_at t r = Some mp" and "pm_tracker mp = p"
    and "unat (pm_count mp) = valid_count M p"
    and "r \<noteq> Root \<Longrightarrow> par_of t p = pm_parent mp \<and> pm_parent mp \<noteq> None"
  using assms by (cases r) (auto simp: ref_to_def mappers_ok_def par_of_def)

lemma ref_node: "ref_to t r p \<Longrightarrow> p \<in> pt_nodes t"
  by (auto simp: ref_to_def pt_nodes_def)

lemma deref_ref:
  assumes "mapper_at t r = Some mp"
  shows "deref r (t, m) = (Ok mp, (t, m))"
  using assms by (simp add: deref_def kopt_def)

text \<open>Changing a counter changes nothing else.\<close>

lemma set_count_keeps:
  assumes "mapper_at t r = Some mp"
  shows "par_of (set_mapper r (mp\<lparr>pm_count := n\<rparr>) t) = par_of t"
    and "pt_nodes (set_mapper r (mp\<lparr>pm_count := n\<rparr>) t) = pt_nodes t"
    and "root_ppn (set_mapper r (mp\<lparr>pm_count := n\<rparr>) t) = root_ppn t"
    and "pt_trackers (set_mapper r (mp\<lparr>pm_count := n\<rparr>) t) = pt_trackers t"
    and "pt_asid (set_mapper r (mp\<lparr>pm_count := n\<rparr>) t) = pt_asid t"
    and "dom (pt_mappers (set_mapper r (mp\<lparr>pm_count := n\<rparr>) t)) = dom (pt_mappers t)"
  using assms by (cases r; auto simp: par_of_def pt_nodes_def fun_eq_iff)+

lemma set_count_ok:
  assumes ok: "mappers_ok t M" and R: "root_ppn t \<notin> dom (pt_mappers t)"
    and r: "ref_to t r p" "mapper_at t r = Some mp"
    and n: "unat n = valid_count M' p" and other: "\<And>q. q \<noteq> p \<Longrightarrow> valid_count M' q = valid_count M q"
  shows "mappers_ok (set_mapper r (mp\<lparr>pm_count := n\<rparr>) t) M'"
proof (cases r)
  case Root
  then have p: "p = root_ppn t" using r by (simp add: ref_to_def)
  have "q \<noteq> p" if "pt_mappers t q = Some mq" for q mq using that R p by auto
  then show ?thesis using ok r n other Root p by (auto simp: mappers_ok_def)
next
  case (Mapper q)
  then have p: "q = p" "p \<in> dom (pt_mappers t)" using r by (auto simp: ref_to_def)
  then have "root_ppn t \<noteq> p" using R by auto
  then show ?thesis using ok r n other Mapper p by (auto simp: mappers_ok_def)
qed

section \<open>Creating a mapper\<close>

lemma unat_suc_small: "unat (n :: usize) < PTE_COUNT \<Longrightarrow> unat (n + 1) = Suc (unat n)"
  by (simp add: unat_word_ariths PTE_COUNT_def)

lemma mapper_incr_ok:
  assumes "mapper_at t r = Some mp" and "unat (pm_count mp) < PTE_COUNT"
  shows "mapper_incr r (t, m) =
           (Ok (pm_count mp + 1), (set_mapper r (mp\<lparr>pm_count := pm_count mp + 1\<rparr>) t, m))"
  using assms by (simp add: mapper_incr_def deref_ref mapper_is_full_def)

lemma on_machine_simp [simp]: "on_machine f (t, m) = (fst (f m), (t, snd (f m)))"
  by (simp add: on_machine_def split: prod.splits)

lemma kopt_Some [simp]: "kopt (Some x) = kret x"
  by (simp add: kopt_def)

lemma on_error_Ok: "f s = (Ok x, s') \<Longrightarrow> on_error f c s = (Ok x, s')"
  by (simp add: on_error_def)

lemma on_error_Err: "f s = (Err e, s') \<Longrightarrow> c s' = (Ok (), s'') \<Longrightarrow> on_error f c s = (Err e, s'')"
  by (simp add: on_error_def)

text \<open>The state after a mapper for the new frame \<open>c\<close> was hung into entry \<open>i\<close> of \<open>p\<close>.\<close>

definition grown :: "mapper_ref \<Rightarrow> page_mapper \<Rightarrow> usize \<Rightarrow> page_table \<Rightarrow> page_table" where
  "grown r mp c t =
     (let t1 = set_mapper r (mp\<lparr>pm_count := pm_count mp + 1\<rparr>) t in
      t1\<lparr>pt_mappers := (pt_mappers t1)(c \<mapsto> page_mapper_new (Some (pm_tracker mp)) c)\<rparr>)"

lemma grown_simps:
  assumes "mapper_at t r = Some mp" and "c \<notin> pt_nodes t"
  shows "par_of (grown r mp c t) = (par_of t)(c \<mapsto> pm_tracker mp)"
    and "pt_nodes (grown r mp c t) = insert c (pt_nodes t)"
    and "root_ppn (grown r mp c t) = root_ppn t"
    and "pt_trackers (grown r mp c t) = pt_trackers t"
    and "pt_asid (grown r mp c t) = pt_asid t"
  using set_count_keeps [OF assms(1), of "pm_count mp + 1"] assms(2)
  by (auto simp: grown_def Let_def par_of_def pt_nodes_def page_mapper_new_def fun_eq_iff)

lemma create_child_run:
  assumes inv: "pt_inv K st (t, m)" and K: "crates_ok K"
    and mp: "mapper_at t r = Some mp" "pm_tracker mp = p" "ref_to t r p"
    and i: "unat i < PTE_COUNT" "\<not> valid_at (mem m) p (unat i)"
    and al: "tracker_alloc m = (Ok c, m1)" "c \<in> free_frames st m" "mem m1 = frame_clear c (mem m)"
  obtains e where "bit e 0" and "pte_ppn K e = c" and
    "create_child K i r mp (t, m) =
       (Ok c, (grown r mp c t, m1\<lparr>mem := write_word p (unat i) e (frame_clear c (mem m))\<rparr>))"
proof -
  have fr: "frames_ok st t m" using inv by (simp add: pt_inv_def)
  then have nodes: "c \<notin> pt_nodes t" using al(2) unfolding frames_ok_def by blast
  have "c < end_ppn (frame_allocator m)" using al(2) by (simp add: frame_pool_def)
  then have "c < 2 ^ 44" using fr unfolding frames_ok_def by (blast intro: order.strict_trans2)
  then obtain e where e: "pte_new K c PTE_V = Some e" "pte_ppn K e = c"
    using pte_new_some [OF K, of c PTE_V] by blast
  have v: "bit e 0" using pte_new_valid [OF K e(1)] by (simp add: PTE_V_def)
  have "mappers_ok t (mem m)" using inv by (simp add: pt_inv_def)
  then have "unat (pm_count mp) = valid_count (mem m) p"
    using ref_mapper [OF _ mp(3)] mp(1) by fastforce
  then have "unat (pm_count mp) < PTE_COUNT" using valid_count_lt [OF i] by simp
  note incr = mapper_incr_ok [OF mp(1) this]
  have "pt_mappers (set_mapper r (mp\<lparr>pm_count := pm_count mp + 1\<rparr>) t) c = None"
    using set_count_keeps(6) [OF mp(1), of "pm_count mp + 1"] nodes by (auto simp: pt_nodes_def)
  then have "create_child K i r mp (t, m) =
      (Ok c, (grown r mp c t, m1\<lparr>mem := write_word p (unat i) e (frame_clear c (mem m))\<rparr>))"
    using al e i mp(2)
    by (simp add: create_child_def kbind_def write_entry_def on_error_def incr insert_mapper_def
        grown_def Let_def)
  with v e(2) that show ?thesis by blast
qed

lemma grown_inv:
  assumes inv: "pt_inv K st (t, m)" and K: "crates_ok K"
    and mp: "mapper_at t r = Some mp" "pm_tracker mp = p" "ref_to t r p"
    and p: "inner (root_ppn t) (par_of t) p"
    and i: "i < PTE_COUNT" "\<not> valid_at (mem m) p i"
    and al: "frame_inv st (frame_allocator m1)" "c \<in> free_frames st m"
      "owned_frames st m1 = insert c (owned_frames st m)"
      "frame_pool st (frame_allocator m1) = frame_pool st (frame_allocator m)"
      "end_ppn (frame_allocator m1) = end_ppn (frame_allocator m)"
    and e: "bit e 0" "pte_ppn K e = c"
    and s': "s' = (grown r mp c t, m1\<lparr>mem := write_word p i e (frame_clear c (mem m))\<rparr>)"
  shows "pt_inv K st s'" and "pt_look K s' = pt_look K (t, m)" and "keeps st (t, m) s'"
proof -
  let ?M = "write_word p i e (frame_clear c (mem m))"
  have T: "tree K (root_ppn t) (par_of t) (mem m)" and ok: "mappers_ok t (mem m)"
    and fr: "frames_ok st t m" using inv by (auto simp: pt_inv_def)
  have c: "c \<notin> owned_frames st m" "c \<notin> pt_nodes t"
    using al(2) fr by (auto simp: frames_ok_def)
  have cp: "par_of t c = None" "c \<noteq> root_ppn t"
    using c(2) par_of_dom [OF ok] by (auto simp: pt_nodes_def)
  have pc: "p \<noteq> c" using ref_node [OF mp(3)] c(2) by auto
  note R = root_not_mapper [OF T ok]
  note g = grown_simps [OF mp(1) c(2), unfolded mp(2)]
  note add = add_mapper [OF T p i cp e refl]
  have counts: "valid_count ?M q = (if q = p then Suc (valid_count (mem m) p)
      else if q = c then 0 else valid_count (mem m) q)" for q
    using valid_count_set [of i "frame_clear c (mem m)" p e q] i e pc
    by (simp add: valid_count_clear)
  have "unat (pm_count mp) = valid_count (mem m) p"
    using ref_mapper [OF ok mp(3)] mp(1) by auto
  then have "unat (pm_count mp + 1) = valid_count ?M p"
    using unat_suc_small [of "pm_count mp"] valid_count_lt [OF i] by (simp add: counts)
  then have "mappers_ok (set_mapper r (mp\<lparr>pm_count := pm_count mp + 1\<rparr>) t) (?M(c := mem m c))"
    using set_count_ok [OF ok R mp(3,1), of "pm_count mp + 1" "?M(c := mem m c)"] counts pc
    by (auto simp: valid_count_def valid_at_def)
  then have "mappers_ok (grown r mp c t) ?M"
    using counts [of c] pc cp(2) set_count_keeps [OF mp(1), of "pm_count mp + 1"] c(2)
    by (auto simp: mappers_ok_def grown_def Let_def page_mapper_new_def valid_count_def valid_at_def
        mp(2) pt_nodes_def)
  moreover have "frames_ok st (grown r mp c t) (m1\<lparr>mem := ?M\<rparr>)"
    using fr al c by (auto simp: frames_ok_def g)
  ultimately show "pt_inv K st s'"
    using add(1) by (simp add: pt_inv_def s' g)
  show "pt_look K s' = pt_look K (t, m)"
    using add(2) by (simp add: pt_look_def s' g fun_eq_iff)
  show "keeps st (t, m) s'"
    using al c pc ref_node [OF mp(3)]
    by (auto simp: keeps_def others_def s' g write_word_def frame_clear_def)
qed

end
