(* ===== verification/Page_Table_Map.thy ===== *)
theory Page_Table_Map
  imports Page_Table_Inv
begin

text \<open>
  \<open>map_without_alloc\<close> on a page table that satisfies the invariant: what each branch does to the
  translation, to the invariant and to the frames of others.
\<close>

section \<open>Descending one level\<close>

text \<open>What was valid in a mapper stays valid, and the mappers stay where they are.\<close>

definition extends :: "crates \<Rightarrow> pt_state \<Rightarrow> pt_state \<Rightarrow> bool" where
  "extends K = (\<lambda>(t, m) (t', m').
     pt_nodes t \<subseteq> pt_nodes t' \<and> par_of t \<subseteq>\<^sub>m par_of t' \<and>
     (\<forall>q i. q \<in> pt_nodes t \<and> valid_at (mem m) q i \<longrightarrow>
        valid_at (mem m') q i \<and> target K (mem m') q i = target K (mem m) q i))"

lemma extends_refl [simp]: "extends K s s"
  by (simp add: extends_def split: prod.splits)

lemma map_next_valid:
  assumes inv: "pt_inv K st (t, m)" and K: "crates_ok K" and r: "ref_to t r p"
    and p: "inner (root_ppn t) (par_of t) p" and v: "valid_at (mem m) p (unat i)"
  shows "map_next K i r (t, m) = (Ok (Mapper (target K (mem m) p (unat i))), (t, m))"
    and "par_of t (target K (mem m) p (unat i)) = Some p"
    and "ref_to t (Mapper (target K (mem m) p (unat i))) (target K (mem m) p (unat i))"
proof -
  have T: "tree K (root_ppn t) (par_of t) (mem m)" and ok: "mappers_ok t (mem m)"
    using inv by (auto simp: pt_inv_def)
  obtain mp where mp: "mapper_at t r = Some mp" "pm_tracker mp = p"
    using ref_mapper [OF ok r] by metis
  let ?c = "target K (mem m) p (unat i)"
  show par: "par_of t ?c = Some p" using treeD(2) [OF T p v] .
  then have dom: "?c \<in> dom (pt_mappers t)" using par_of_dom [OF ok] by blast
  then show "ref_to t (Mapper ?c) ?c" by (simp add: ref_to_def)
  have "unat i < PTE_COUNT" "bit (mem m p (unat i)) 0" using v by (auto simp: valid_at_def)
  then show "map_next K i r (t, m) = (Ok (Mapper ?c), (t, m))"
    using dom mp
    by (auto simp: map_next_def kbind_def deref_ref read_entry_def pte_is_valid_bit [OF K]
        find_mapper_def target_def)
qed

lemma map_next_invalid:
  assumes inv: "pt_inv K st (t, m)" and K: "crates_ok K" and r: "ref_to t r p"
    and p: "inner (root_ppn t) (par_of t) p" and i: "unat i < PTE_COUNT"
    and nv: "\<not> valid_at (mem m) p (unat i)"
  obtains (full) "map_next K i r (t, m) = (Err FrameExhausted, (t, m))" and "free_frames st m = {}"
    | (new) c s' where "map_next K i r (t, m) = (Ok (Mapper c), s')" and "pt_inv K st s'"
        and "pt_look K s' = pt_look K (t, m)" and "keeps st (t, m) s'" and "extends K (t, m) s'"
        and "ref_to (fst s') (Mapper c) c" and "par_of (fst s') c = Some p"
        and "valid_at (mem (snd s')) p (unat i)" and "target K (mem (snd s')) p (unat i) = c"
        and "c \<in> free_frames st m" and "\<And>j. \<not> valid_at (mem (snd s')) c j"
proof -
  have ok: "mappers_ok t (mem m)" and fi: "frame_inv st (frame_allocator m)"
    using inv by (auto simp: pt_inv_def frames_ok_def)
  obtain mp where mp: "mapper_at t r = Some mp" "pm_tracker mp = p"
    using ref_mapper [OF ok r] by metis
  have nb: "\<not> bit (mem m p (unat i)) 0" using i nv by (simp add: valid_at_def)
  from fi show ?thesis
  proof (cases rule: tracker_alloc_cases)
    case fl: full
    have "map_next K i r (t, m) = (Err FrameExhausted, (t, m))"
      using fl(1) mp i nb
      by (simp add: map_next_def kbind_def deref_ref read_entry_def pte_is_valid_bit [OF K]
          create_child_def)
    then show ?thesis using that(1) fl(2) by blast
  next
    case al: (fresh c m1)
    obtain e where e: "bit e 0" "pte_ppn K e = c" "create_child K i r mp (t, m) =
        (Ok c, (grown r mp c t, m1\<lparr>mem := write_word p (unat i) e (frame_clear c (mem m))\<rparr>))"
      using create_child_run [OF inv K mp r i nv al(1,3,6)] by blast
    define s' where "s' = (grown r mp c t, m1\<lparr>mem := write_word p (unat i) e (frame_clear c (mem m))\<rparr>)"
    note inv' = grown_inv [OF inv K mp r p i nv al(2-5,7) e(1,2) s'_def]
    have c: "c \<notin> pt_nodes t" using inv al(3) unfolding pt_inv_def frames_ok_def by auto
    have pc: "p \<noteq> c" using ref_node [OF r] c by auto
    note g = grown_simps [OF mp(1) c, unfolded mp(2)]
    have dom: "c \<in> dom (pt_mappers (grown r mp c t))" by (simp add: grown_def Let_def)
    have run: "map_next K i r (t, m) = (Ok (Mapper c), s')"
      using mp i nb e(3) dom
      by (auto simp: map_next_def kbind_def deref_ref read_entry_def pte_is_valid_bit [OF K]
          find_mapper_def s'_def)
    have "par_of t \<subseteq>\<^sub>m par_of (grown r mp c t)"
      using c par_of_dom [OF ok] by (auto simp: g map_le_def pt_nodes_def)
    moreover have qc: "q \<noteq> c" if "q \<in> pt_nodes t" for q using that c by auto
    ultimately have "extends K (t, m) s'"
      using nv by (auto simp: extends_def s'_def g valid_at_write target_write target_clear qc)
    moreover have "valid_at (mem (snd s')) p (unat i)" "target K (mem (snd s')) p (unat i) = c"
      "\<And>j. \<not> valid_at (mem (snd s')) c j"
      using i e pc by (auto simp: s'_def valid_at_write target_write)
    ultimately show ?thesis
      using that(2) [OF run] inv' al(3) dom g by (simp add: s'_def ref_to_def)
  qed
qed

section \<open>Descending to the last level\<close>

lemma look_conv:
  "look K R M i j k = None \<longleftrightarrow>
     \<not> (valid_at M R i \<and> valid_at M (target K M R i) j \<and> valid_at M (target K M (target K M R i) j) k)"
  by (simp add: look_def Let_def)

lemma map_walk_spec:
  assumes inv: "pt_inv K st (t, m)" and K: "crates_ok K" and i: "unat i < PTE_COUNT" "unat j < PTE_COUNT"
  obtains (full) s' where "map_walk K [i, j] Root (t, m) = (Err FrameExhausted, s')" and "pt_inv K st s'"
      and "pt_look K s' = pt_look K (t, m)" and "keeps st (t, m) s'"
      and "free_frames st (snd s') = {}" and "\<And>k. pt_look K (t, m) (unat i) (unat j) k = None"
    | (found) b t' m' where "map_walk K [i, j] Root (t, m) = (Ok (Mapper b), (t', m'))"
      and "pt_inv K st (t', m')" and "pt_look K (t', m') = pt_look K (t, m)"
      and "keeps st (t, m) (t', m')" and "ref_to t' (Mapper b) b"
      and "valid_at (mem m') (root_ppn t') (unat i)"
      and "valid_at (mem m') (target K (mem m') (root_ppn t') (unat i)) (unat j)"
      and "b = target K (mem m') (target K (mem m') (root_ppn t') (unat i)) (unat j)"
      and "\<And>k. pt_look K (t, m) (unat i) (unat j) k \<noteq> None \<Longrightarrow> (t', m') = (t, m)"
proof -
  have root: "ref_to t Root (root_ppn t)" by (simp add: ref_to_def)
  have first: thesis
    if s1: "map_next K i Root (t, m) = (Ok (Mapper a), (t1, m1))" "pt_inv K st (t1, m1)"
      "pt_look K (t1, m1) = pt_look K (t, m)" "keeps st (t, m) (t1, m1)" "ref_to t1 (Mapper a) a"
      "par_of t1 a = Some (root_ppn t1)" "valid_at (mem m1) (root_ppn t1) (unat i)"
      "target K (mem m1) (root_ppn t1) (unat i) = a"
      "\<And>k. pt_look K (t, m) (unat i) (unat j) k \<noteq> None \<Longrightarrow> (t1, m1) = (t, m)" for a t1 m1
  proof -
    have ia: "inner (root_ppn t1) (par_of t1) a" using s1(6) by (simp add: inner_def)
    show thesis
    proof (cases "valid_at (mem m1) a (unat j)")
      case True
      note nx = map_next_valid [OF s1(2) K s1(5) ia True]
      have "map_walk K [i, j] Root (t, m) = (Ok (Mapper (target K (mem m1) a (unat j))), (t1, m1))"
        using s1(1) nx(1) by simp
      then show thesis using found s1 nx(3) True by blast
    next
      case False
      then have "pt_look K (t1, m1) (unat i) (unat j) k = None" for k
        using s1(8) by (simp add: pt_look_def look_conv)
      then have none: "pt_look K (t, m) (unat i) (unat j) k = None" for k
        unfolding s1(3) .
      from s1(2) K s1(5) ia i(2) False show thesis
      proof (cases rule: map_next_invalid)
        case nf: full
        then have "map_walk K [i, j] Root (t, m) = (Err FrameExhausted, (t1, m1))"
          using s1(1) by simp
        then show thesis using full s1(2-4) nf(2) none by fastforce
      next
        case nx: (new b s2)
        obtain t2 m2 where s2: "s2 = (t2, m2)" by (cases s2)
        have root1: "root_ppn t2 = root_ppn t1" using nx(4) by (simp add: keeps_def s2)
        have ext: "valid_at (mem m2) (root_ppn t1) (unat i)" "target K (mem m2) (root_ppn t1) (unat i) = a"
          using nx(5) s1(7,8) by (auto simp: extends_def s2 pt_nodes_def)
        show thesis
        proof (rule found)
          show "map_walk K [i, j] Root (t, m) = (Ok (Mapper b), (t2, m2))"
            using s1(1) nx(1) s2 by simp
          show "keeps st (t, m) (t2, m2)" using keeps_trans s1(4) nx(4) s2 by blast
          show "pt_inv K st (t2, m2)" "pt_look K (t2, m2) = pt_look K (t, m)" "ref_to t2 (Mapper b) b"
            using nx(2,3,6) s1(3) s2 by simp_all
          show "valid_at (mem m2) (root_ppn t2) (unat i)"
            "valid_at (mem m2) (target K (mem m2) (root_ppn t2) (unat i)) (unat j)"
            "b = target K (mem m2) (target K (mem m2) (root_ppn t2) (unat i)) (unat j)"
            using nx(8,9) s2 ext root1 by simp_all
          show "(t2, m2) = (t, m)" if "pt_look K (t, m) (unat i) (unat j) k \<noteq> None" for k
            using that none by simp
        qed
      qed
    qed
  qed
  show thesis
  proof (cases "valid_at (mem m) (root_ppn t) (unat i)")
    case True
    note nx = map_next_valid [OF inv K root inner_root True]
    show thesis using first [OF nx(1) inv refl keeps_refl nx(3,2) True refl] by simp
  next
    case False
    then have none: "pt_look K (t, m) (unat i) (unat j) k = None" for k
      by (simp add: pt_look_def look_conv)
    from inv K root inner_root i(1) False show thesis
    proof (cases rule: map_next_invalid)
      case nf: full
      then show thesis using full [of "(t, m)"] inv none by simp
    next
      case nx: (new a s1)
      obtain t1 m1 where s1: "s1 = (t1, m1)" by (cases s1)
      have root1: "root_ppn t1 = root_ppn t" using nx(4) by (simp add: keeps_def s1)
      show thesis
        using first [of a t1 m1] nx none s1 root1 by simp
    qed
  qed
qed

section \<open>The last level\<close>

text \<open>Rewriting one entry of a last-level mapper together with its counter.\<close>

lemma leaf_inv:
  assumes inv: "pt_inv K st (t, m)"
    and path: "valid_at (mem m) (root_ppn t) i" "valid_at (mem m) (target K (mem m) (root_ppn t) i) j"
      "b = target K (mem m) (target K (mem m) (root_ppn t) i) j"
    and r: "ref_to t (Mapper b) b" "mapper_at t (Mapper b) = Some mp" and k: "k < PTE_COUNT"
    and n: "unat n = valid_count (write_word b k e (mem m)) b"
    and s': "s' = (set_mapper (Mapper b) (mp\<lparr>pm_count := n\<rparr>) t, m\<lparr>mem := write_word b k e (mem m)\<rparr>)"
  shows "pt_inv K st s'" and "keeps st (t, m) s'"
    and "pt_look K s' x y z =
           (if x = i \<and> y = j \<and> z = k then (if bit e 0 then Some (pte_ppn K e) else None)
            else pt_look K (t, m) x y z)"
proof -
  have T: "tree K (root_ppn t) (par_of t) (mem m)" and ok: "mappers_ok t (mem m)"
    and fr: "frames_ok st t m" using inv by (auto simp: pt_inv_def)
  note leaf = write_leaf [OF T path k refl]
  note set = set_count_keeps [OF r(2), of n]
  have "valid_count (write_word b k e (mem m)) q = valid_count (mem m) q" if "q \<noteq> b" for q
    using that by (simp add: valid_count_def valid_at_write)
  then have "mappers_ok (set_mapper (Mapper b) (mp\<lparr>pm_count := n\<rparr>) t) (write_word b k e (mem m))"
    using set_count_ok [OF ok root_not_mapper [OF T ok] r n] by blast
  moreover have "frames_ok st (set_mapper (Mapper b) (mp\<lparr>pm_count := n\<rparr>) t)
      (m\<lparr>mem := write_word b k e (mem m)\<rparr>)"
    using fr unfolding frames_ok_def set by simp
  ultimately show "pt_inv K st s'"
    using leaf(1) unfolding pt_inv_def s' split set by simp
  show "keeps st (t, m) s'"
    using ref_node [OF r(1)] unfolding keeps_def s' others_def split fst_conv snd_conv set
    by (auto simp: write_word_def)
  show "pt_look K s' x y z =
           (if x = i \<and> y = j \<and> z = k then (if bit e 0 then Some (pte_ppn K e) else None)
            else pt_look K (t, m) x y z)"
    using leaf(2) unfolding pt_look_def s' split set by simp
qed

lemma map_leaf_spec:
  assumes inv: "pt_inv K st (t, m)" and K: "crates_ok K"
    and path: "valid_at (mem m) (root_ppn t) i" "valid_at (mem m) (target K (mem m) (root_ppn t) i) j"
      "b = target K (mem m) (target K (mem m) (root_ppn t) i) j"
    and r: "ref_to t (Mapper b) b" and k: "unat ki < PTE_COUNT"
    and ppn: "ppn < 2 ^ 44" and fl: "bit fl 0"
  obtains (taken) "map_leaf K vpn ppn fl ki (Mapper b) (t, m) = (Err (VPNAlreadyMapped vpn), (t, m))"
      and "valid_at (mem m) b (unat ki)"
    | (mapped) s' where "map_leaf K vpn ppn fl ki (Mapper b) (t, m) = (Ok (), s')"
      and "\<not> valid_at (mem m) b (unat ki)" and "pt_inv K st s'" and "keeps st (t, m) s'"
      and "\<And>x y z. pt_look K s' x y z =
             (if x = i \<and> y = j \<and> z = unat ki then Some ppn else pt_look K (t, m) x y z)"
proof -
  have ok: "mappers_ok t (mem m)" using inv by (simp add: pt_inv_def)
  obtain mp where mp: "mapper_at t (Mapper b) = Some mp" "pm_tracker mp = b"
    "unat (pm_count mp) = valid_count (mem m) b"
    using ref_mapper [OF ok r] by blast
  show thesis
  proof (cases "valid_at (mem m) b (unat ki)")
    case True
    then have "map_leaf K vpn ppn fl ki (Mapper b) (t, m) = (Err (VPNAlreadyMapped vpn), (t, m))"
      using mp k by (simp add: map_leaf_def kbind_def deref_ref [OF mp(1)] read_entry_def
          pte_is_valid_bit [OF K] valid_at_def)
    then show thesis using taken True by blast
  next
    case False
    obtain e where e: "pte_new K ppn fl = Some e" "pte_ppn K e = ppn"
      using pte_new_some [OF K ppn] by blast
    have v: "bit e 0" using pte_new_valid [OF K e(1) fl] .
    have lt: "unat (pm_count mp) < PTE_COUNT" using mp(3) valid_count_lt [OF k False] by simp
    define s' where "s' = (set_mapper (Mapper b) (mp\<lparr>pm_count := pm_count mp + 1\<rparr>) t,
      m\<lparr>mem := write_word b (unat ki) e (mem m)\<rparr>)"
    have n: "unat (pm_count mp + 1) = valid_count (write_word b (unat ki) e (mem m)) b"
      using valid_count_set [OF k False v, of b] unat_suc_small [OF lt] mp(3) by simp
    have "map_leaf K vpn ppn fl ki (Mapper b) (t, m) = (Ok (), s')"
      using mp k False e mapper_incr_ok [OF mp(1) lt]
      by (simp add: map_leaf_def kbind_def deref_ref [OF mp(1)] read_entry_def
          pte_is_valid_bit [OF K] valid_at_def write_entry_def s'_def)
    then show thesis
      using mapped False leaf_inv [OF inv path r mp(1) k n s'_def] v e(2) by simp
  qed
qed

section \<open>\<open>map_without_alloc\<close>\<close>

lemma page_indexes_length:
  assumes "crates_ok K"
  shows "page_indexes K vpn = [page_indexes K vpn ! 0, page_indexes K vpn ! 1, page_indexes K vpn ! 2]"
  using page_indexes_eq [OF assms] by simp

lemma vpn_index_lt: "crates_ok K \<Longrightarrow> i < 3 \<Longrightarrow> vpn_index K vpn i < PTE_COUNT"
  using page_indexes_bound by (simp add: vpn_index_def PAGE_LEVEL_def)

definition same_page :: "crates \<Rightarrow> usize \<Rightarrow> usize \<Rightarrow> bool" where
  "same_page K v w \<longleftrightarrow> page_indexes K v = page_indexes K w"

lemma same_page_indexes:
  assumes "crates_ok K"
  shows "same_page K v w \<longleftrightarrow> (\<forall>i < 3. vpn_index K v i = vpn_index K w i)"
proof -
  have "same_page K v w \<longleftrightarrow> (\<forall>i < 3. page_indexes K v ! i = page_indexes K w ! i)"
    using page_indexes_length [OF assms, of v] page_indexes_length [OF assms, of w]
    by (auto simp: same_page_def list_eq_iff_nth_eq page_indexes_eq [OF assms])
  then show ?thesis by (simp add: vpn_index_def word_unat_eq_iff)
qed

lemma all_less_3: "(\<forall>i < 3 :: nat. P i) \<longleftrightarrow> P 0 \<and> P 1 \<and> P 2"
  by (auto simp: less_Suc_eq numeral_3_eq_3 numeral_2_eq_2)

lemma vpn_view_update:
  assumes "crates_ok K"
    and "\<And>x y z. pt_look K s' x y z =
           (if x = vpn_index K v 0 \<and> y = vpn_index K v 1 \<and> z = vpn_index K v 2 then r else pt_look K s x y z)"
  shows "vpn_view K s' w = (if same_page K v w then r else vpn_view K s w)"
  unfolding vpn_view_def assms(2) same_page_indexes [OF assms(1)] all_less_3 by auto

lemma map_without_alloc_spec:
  assumes inv: "pt_inv K st s" and K: "crates_ok K" and ppn: "ppn < 2 ^ 44"
  obtains (mapped) s' where "map_without_alloc K vpn ppn flags s = (Ok (), s')"
      and "vpn_view K s vpn = None" and "pt_inv K st s'" and "keeps st s s'"
      and "\<And>w. vpn_view K s' w = (if same_page K vpn w then Some ppn else vpn_view K s w)"
    | (taken) "map_without_alloc K vpn ppn flags s = (Err (VPNAlreadyMapped vpn), s)"
      and "vpn_view K s vpn \<noteq> None"
    | (full) s' where "map_without_alloc K vpn ppn flags s = (Err FrameExhausted, s')"
      and "vpn_view K s vpn = None" and "pt_inv K st s'" and "keeps st s s'"
      and "\<And>w. vpn_view K s' w = vpn_view K s w" and "free_frames st (snd s') = {}"
proof -
  obtain t m where s: "s = (t, m)" by (cases s)
  let ?ix = "page_indexes K vpn"
  have ix: "unat (?ix ! 0) < PTE_COUNT" "unat (?ix ! 1) < PTE_COUNT" "unat (?ix ! 2) < PTE_COUNT"
    using page_indexes_bound [OF K] by (simp_all add: PAGE_LEVEL_def)
  have take: "take (PAGE_LEVEL - 1) ?ix = [?ix ! 0, ?ix ! 1]"
    using page_indexes_length [OF K, of vpn] by (simp add: PAGE_LEVEL_def page_indexes_eq [OF K])
  have run: "map_without_alloc K vpn ppn flags s =
      kbind (map_walk K [?ix ! 0, ?ix ! 1] Root)
        (map_leaf K vpn ppn (flags OR PTE_V) (?ix ! 2)) (t, m)"
    using take by (simp add: map_without_alloc_def s PTE_DECLARED_def flags_from_bits_all [OF K]
        PAGE_LEVEL_def Let_def)
  have fl: "bit (flags OR PTE_V) 0" by (simp add: PTE_V_def bit_or_iff)
  from inv [unfolded s] K ix(1,2) show thesis
  proof (cases rule: map_walk_spec)
    case f: (full s')
    have "map_without_alloc K vpn ppn flags s = (Err FrameExhausted, s')"
      using f(1) run by simp
    then show thesis
      using full [of s'] f s by (simp add: vpn_view_def vpn_index_def)
  next
    case fd: (found b t' m')
    from fd(2) K fd(6-8,5) ix(3) ppn fl show thesis
    proof (cases rule: map_leaf_spec [where vpn = vpn])
      case tk: taken
      have some: "pt_look K (t', m') (unat (?ix ! 0)) (unat (?ix ! 1)) (unat (?ix ! 2)) \<noteq> None"
        using fd(6-8) tk(2) by (simp add: pt_look_def look_conv)
      then have eq: "(t', m') = (t, m)" using fd(3,9) by metis
      have "map_without_alloc K vpn ppn flags s = (Err (VPNAlreadyMapped vpn), s)"
        using run fd(1) tk(1) eq s by simp
      then show thesis
        using taken some fd(3) s by (simp add: vpn_view_def vpn_index_def)
    next
      case mp: (mapped s')
      have "pt_look K (t', m') (unat (?ix ! 0)) (unat (?ix ! 1)) (unat (?ix ! 2)) = None"
        using fd(6-8) mp(2) by (simp add: pt_look_def look_conv)
      then have none: "vpn_view K s vpn = None" using fd(3) s by (simp add: vpn_view_def vpn_index_def)
      have "vpn_view K s' w = (if same_page K vpn w then Some ppn else vpn_view K s w)" for w
        using mp(5) fd(3) s by (intro vpn_view_update [OF K]) (simp add: vpn_index_def)
      moreover have "map_without_alloc K vpn ppn flags s = (Ok (), s')"
        using run fd(1) mp(1) by simp
      ultimately show thesis
        using mapped none mp(3) keeps_trans [OF fd(4) mp(4)] s by blast
    qed
  qed
qed

end
