(* ===== verification/Page_Table_Unmap.thy ===== *)
theory Page_Table_Unmap
  imports Page_Table_Map
begin

text \<open>
  \<open>unmap_without_dealloc\<close> on a page table that satisfies the invariant: it removes the entry of
  the page and the mappers that become empty by it, and nothing else.
\<close>

section \<open>Clearing one entry\<close>

lemma mapper_decr_ok:
  assumes "mapper_at t r = Some mp" and "pm_count mp \<noteq> 0"
  shows "mapper_decr r (t, m) =
           (Ok (pm_count mp - 1), (set_mapper r (mp\<lparr>pm_count := pm_count mp - 1\<rparr>) t, m))"
  using assms by (simp add: mapper_decr_def deref_ref mapper_is_empty_def)

lemma unat_pred: "(n :: usize) \<noteq> 0 \<Longrightarrow> unat (n - 1) = unat n - 1"
  by (metis unat_minus_one)

lemma unmap_level_valid:
  assumes K: "crates_ok K" and mp: "mapper_at t r = Some mp" "pm_count mp \<noteq> 0"
    and v: "valid_at (mem m) (pm_tracker mp) (unat (indexes ! i))"
  shows "unmap_level K vpn indexes i r ret (t, m) =
           (Ok (if i = PAGE_LEVEL - 1 then target K (mem m) (pm_tracker mp) (unat (indexes ! i)) else ret,
                mp, pm_count mp - 1 = 0),
            (set_mapper r (mp\<lparr>pm_count := pm_count mp - 1\<rparr>) t,
             m\<lparr>mem := write_word (pm_tracker mp) (unat (indexes ! i)) pte_empty (mem m)\<rparr>))"
  using v by (simp add: unmap_level_def kbind_def deref_ref [OF mp(1)] read_entry_def
      pte_is_valid_bit [OF K] valid_at_def mapper_decr_ok [OF mp] write_entry_def target_def Let_def)

lemma unmap_level_invalid:
  assumes K: "crates_ok K" and mp: "mapper_at t r = Some mp"
    and i: "unat (indexes ! i) < PTE_COUNT" "\<not> valid_at (mem m) (pm_tracker mp) (unat (indexes ! i))"
  shows "unmap_level K vpn indexes i r ret (t, m) = (Err (VPNNotMapped vpn), (t, m))"
  using i by (simp add: unmap_level_def kbind_def deref_ref [OF mp] read_entry_def
      pte_is_valid_bit [OF K] valid_at_def)

lemma pte_empty_bit [simp]: "\<not> bit pte_empty 0"
  by (simp add: pte_empty_def)

lemma ref_count:
  assumes "pt_inv K st (t, m)" and "ref_to t r p" and "mapper_at t r = Some mp" and "valid_at (mem m) p i"
  shows "pm_count mp \<noteq> 0" and "unat (pm_count mp - 1) = valid_count (write_word p i pte_empty (mem m)) p"
proof -
  have "mappers_ok t (mem m)" using assms(1) by (simp add: pt_inv_def)
  then have c: "unat (pm_count mp) = valid_count (mem m) p"
    using ref_mapper [OF _ assms(2)] assms(3) by fastforce
  have "valid_count (mem m) p \<noteq> 0" using valid_count_0_iff assms(4) by blast
  then show ne: "pm_count mp \<noteq> 0" using c by auto
  show "unat (pm_count mp - 1) = valid_count (write_word p i pte_empty (mem m)) p"
    using valid_count_unset [OF assms(4) pte_empty_bit, of p] unat_pred [OF ne] c by simp
qed

section \<open>Removing an empty mapper\<close>

text \<open>The state after mapper \<open>c\<close> was removed and its entry \<open>i\<close> in \<open>p\<close> cleared.\<close>

lemma pruned_inv:
  assumes inv: "pt_inv K st (t, m)" and r: "ref_to t r p" "mapper_at t r = Some mp"
    and p: "inner (root_ppn t) (par_of t) p" and v: "valid_at (mem m) p i"
    and c: "c = target K (mem m) p i" and empty: "\<And>j. \<not> valid_at (mem m) c j"
    and fr: "frame_inv st (frame_allocator m1)" "owned_frames st m1 = owned_frames st m - {c}"
      "frame_pool st (frame_allocator m1) = frame_pool st (frame_allocator m)" "mem m1 = mem m"
      "end_ppn (frame_allocator m1) = end_ppn (frame_allocator m)"
    and n: "unat n = valid_count (write_word p i pte_empty (mem m)) p"
    and s': "s' = (set_mapper r (mp\<lparr>pm_count := n\<rparr>) (t\<lparr>pt_mappers := (pt_mappers t)(c := None)\<rparr>),
      m1\<lparr>mem := write_word p i pte_empty (mem m)\<rparr>)"
  shows "pt_inv K st s'" and "keeps st (t, m) s'" and "pt_look K s' = pt_look K (t, m)"
    and "par_of (fst s') = (par_of t)(c := None)" and "pt_nodes (fst s') = pt_nodes t - {c}"
proof -
  let ?M = "write_word p i pte_empty (mem m)" and ?t = "t\<lparr>pt_mappers := (pt_mappers t)(c := None)\<rparr>"
  have T: "tree K (root_ppn t) (par_of t) (mem m)" and ok: "mappers_ok t (mem m)"
    and fo: "frames_ok st t m" using inv by (auto simp: pt_inv_def)
  note rem = remove_empty_mapper [OF T p v c empty pte_empty_bit refl]
  note R = root_not_mapper [OF T ok]
  have cdom: "c \<in> dom (pt_mappers t)"
    using treeD(2) [OF T p v] c par_of_dom [OF ok] by blast
  then have cR: "c \<noteq> root_ppn t" using R by auto
  have pc: "p \<noteq> c" using v empty by auto
  have r': "mapper_at ?t r = Some mp" "ref_to ?t r p"
    using r pc by (cases r; auto simp: ref_to_def)+
  note set = set_count_keeps [OF r'(1), of n]
  have par: "par_of ?t = (par_of t)(c := None)" by (auto simp: par_of_def)
  have nodes: "pt_nodes ?t = pt_nodes t - {c}" using cR by (auto simp: pt_nodes_def)
  have ok': "mappers_ok ?t (mem m)" using ok by (auto simp: mappers_ok_def split: if_splits)
  have "valid_count ?M q = valid_count (mem m) q" if "q \<noteq> p" for q
    using that by (simp add: valid_count_def valid_at_write)
  then have "mappers_ok (set_mapper r (mp\<lparr>pm_count := n\<rparr>) ?t) ?M"
    using set_count_ok [OF ok' _ r'(2,1) n] R by simp
  moreover have "frames_ok st (set_mapper r (mp\<lparr>pm_count := n\<rparr>) ?t) (m1\<lparr>mem := ?M\<rparr>)"
    using fo fr cdom unfolding frames_ok_def set nodes by (auto simp: pt_nodes_def)
  ultimately show "pt_inv K st s'"
    using rem(1) unfolding pt_inv_def s' split set par by simp
  show "pt_look K s' = pt_look K (t, m)"
    using rem(2) unfolding pt_look_def s' split set by (simp add: fun_eq_iff)
  show "keeps st (t, m) s'"
    using fr cdom ref_node [OF r(1)]
    unfolding keeps_def s' others_def split fst_conv snd_conv set nodes
    by (auto simp: write_word_def pt_nodes_def)
  show "par_of (fst s') = (par_of t)(c := None)" "pt_nodes (fst s') = pt_nodes t - {c}"
    unfolding s' fst_conv set par nodes by simp_all
qed

text \<open>One turn of the second loop above the last level.\<close>

lemma climb:
  assumes inv: "pt_inv K st (t, m)" and K: "crates_ok K" and r: "ref_to t r p"
    and p: "inner (root_ppn t) (par_of t) p" and v: "valid_at (mem m) p (unat (indexes ! i))"
    and c: "c = target K (mem m) p (unat (indexes ! i))" and empty: "\<And>j. \<not> valid_at (mem m) c j"
    and i: "i \<noteq> PAGE_LEVEL - 1"
  obtains t1 m1 mp s' where "remove_mapper c (t, m) = (Ok (), (t1, m1))"
    and "mapper_at t1 r = Some mp" and "pm_tracker mp = p"
    and "r \<noteq> Root \<longrightarrow> pm_parent mp = par_of t p"
    and "r \<noteq> Root \<longrightarrow> find_mapper p (t1, m1) = (Ok r, (t1, m1))"
    and "unmap_level K vpn indexes i r ret (t1, m1) =
           (Ok (ret, mp, valid_count (mem (snd s')) p = 0), s')"
    and "pt_inv K st s'" and "keeps st (t, m) s'" and "pt_look K s' = pt_look K (t, m)"
    and "ref_to (fst s') r p" and "mem (snd s') = write_word p (unat (indexes ! i)) pte_empty (mem m)"
    and "par_of (fst s') = (par_of t)(c := None)"
proof -
  let ?i = "unat (indexes ! i)"
  have T: "tree K (root_ppn t) (par_of t) (mem m)" and ok: "mappers_ok t (mem m)"
    and fo: "frames_ok st t m" using inv by (auto simp: pt_inv_def)
  obtain mp where mp: "mapper_at t r = Some mp" "pm_tracker mp = p"
    "r \<noteq> Root \<Longrightarrow> par_of t p = pm_parent mp \<and> pm_parent mp \<noteq> None"
    using ref_mapper [OF ok r] by blast
  have "c \<in> dom (pt_mappers t)" using treeD(2) [OF T p v] c par_of_dom [OF ok] by blast
  then obtain mc where mc: "pt_mappers t c = Some mc" "pm_tracker mc = c"
    using ok by (auto simp: mappers_ok_def)
  have "c \<in> owned_frames st m" using fo mc(1) by (auto simp: frames_ok_def pt_nodes_def)
  then obtain m1 where m1: "tracker_drop c m = (Ok (), m1)" "frame_inv st (frame_allocator m1)"
    "owned_frames st m1 = owned_frames st m - {c}"
    "frame_pool st (frame_allocator m1) = frame_pool st (frame_allocator m)" "mem m1 = mem m"
    "end_ppn (frame_allocator m1) = end_ppn (frame_allocator m)"
    using tracker_drop_owned fo unfolding frames_ok_def by blast
  define t1 where "t1 = t\<lparr>pt_mappers := (pt_mappers t)(c := None)\<rparr>"
  have pc: "p \<noteq> c" using v empty by auto
  have mp1: "mapper_at t1 r = Some mp" "ref_to t1 r p"
    using mp r pc by (cases r; auto simp: ref_to_def t1_def)+
  note cnt = ref_count [OF inv r mp(1) v]
  define s' where "s' = (set_mapper r (mp\<lparr>pm_count := pm_count mp - 1\<rparr>) t1,
    m1\<lparr>mem := write_word p ?i pte_empty (mem m)\<rparr>)"
  note pr = pruned_inv [OF inv r mp(1) p v c empty m1(2-6) cnt(2) s'_def [unfolded t1_def]]
  have zero: "pm_count mp - 1 = 0 \<longleftrightarrow> valid_count (mem (snd s')) p = 0"
    using cnt(2) by (simp add: s'_def unat_eq_0 [symmetric] del: unat_eq_0)
  show thesis
  proof (rule that [of t1 m1 mp s'])
    show "remove_mapper c (t, m) = (Ok (), (t1, m1))"
      using mc m1(1) by (simp add: remove_mapper_def t1_def)
    show "unmap_level K vpn indexes i r ret (t1, m1) =
        (Ok (ret, mp, valid_count (mem (snd s')) p = 0), s')"
      using unmap_level_valid [OF K mp1(1) cnt(1), of m1 indexes i vpn ret] v i m1(5) zero
      by (simp add: mp(2) s'_def)
    show "r \<noteq> Root \<longrightarrow> find_mapper p (t1, m1) = (Ok r, (t1, m1))"
      using mp1(2) by (auto simp: find_mapper_def ref_to_def)
    show "ref_to (fst s') r p"
      using mp1 set_count_keeps [OF mp1(1)] by (auto simp: s'_def ref_to_def)
    show "r \<noteq> Root \<longrightarrow> pm_parent mp = par_of t p" using mp(3) by simp
  qed (use mp1 mp(2) pr in \<open>simp_all add: s'_def\<close>)
qed

section \<open>\<open>unmap_without_dealloc\<close>\<close>

lemma unmap_walk_step:
  assumes inv: "pt_inv K st (t, m)" and K: "crates_ok K" and r: "ref_to t r p"
    and p: "inner (root_ppn t) (par_of t) p" and i: "unat i < PTE_COUNT"
  shows "unmap_walk K vpn (i # is) r ret (t, m) =
           (if valid_at (mem m) p (unat i)
            then unmap_walk K vpn is (Mapper (target K (mem m) p (unat i))) (target K (mem m) p (unat i)) (t, m)
            else (Err (VPNNotMapped vpn), (t, m)))"
proof -
  have ok: "mappers_ok t (mem m)" using inv by (simp add: pt_inv_def)
  obtain mp where mp: "mapper_at t r = Some mp" "pm_tracker mp = p" using ref_mapper [OF ok r] by blast
  show ?thesis
  proof (cases "valid_at (mem m) p (unat i)")
    case True
    have "ref_to t (Mapper (target K (mem m) p (unat i))) (target K (mem m) p (unat i))"
      using map_next_valid(3) [OF inv K r p True] .
    then have "find_mapper (target K (mem m) p (unat i)) (t, m) =
        (Ok (Mapper (target K (mem m) p (unat i))), (t, m))"
      by (auto simp: find_mapper_def ref_to_def)
    then show ?thesis
      using True mp by (simp add: kbind_def deref_ref [OF mp(1)] read_entry_def
          pte_is_valid_bit [OF K] valid_at_def target_def)
  next
    case False
    then show ?thesis
      using i mp by (simp add: kbind_def deref_ref [OF mp(1)] read_entry_def
          pte_is_valid_bit [OF K] valid_at_def)
  qed
qed

lemma levels: "(0 :: nat) \<noteq> PAGE_LEVEL - 1" "(1 :: nat) \<noteq> PAGE_LEVEL - 1"
  by (simp_all add: PAGE_LEVEL_def)

text \<open>The last turn, at the root, after the second-level mapper \<open>a\<close> has become empty.\<close>

lemma unmap_at_root:
  assumes inv: "pt_inv K st (t, m)" and K: "crates_ok K"
    and v: "valid_at (mem m) (root_ppn t) (unat (indexes ! 0))"
      "a = target K (mem m) (root_ppn t) (unat (indexes ! 0))"
    and e: "\<And>l. \<not> valid_at (mem m) a l"
  obtains s' where "kbind (remove_mapper a) (\<lambda>_. kbind (deref Root) (\<lambda>mapper.
      unmap_loop K vpn indexes 0 Root (pm_tracker mapper) ret)) (t, m) = (Ok ret, s')"
    and "pt_inv K st s'" and "keeps st (t, m) s'" and "pt_look K s' = pt_look K (t, m)"
proof -
  have root: "ref_to t Root (root_ppn t)" by (simp add: ref_to_def)
  obtain t1 m1 mr s' where c: "remove_mapper a (t, m) = (Ok (), (t1, m1))"
    "mapper_at t1 Root = Some mr"
    "unmap_level K vpn indexes 0 Root ret (t1, m1) =
       (Ok (ret, mr, valid_count (mem (snd s')) (root_ppn t) = 0), s')"
    "pt_inv K st s'" "keeps st (t, m) s'" "pt_look K s' = pt_look K (t, m)"
    by (rule climb [OF inv K root inner_root v e levels(1)]) (rule that; assumption)
  then show thesis using that by (simp add: deref_ref)
qed

text \<open>The turn at the second level, after the last-level mapper \<open>b\<close> has become empty.\<close>

lemma unmap_at_second:
  assumes inv: "pt_inv K st (t, m)" and K: "crates_ok K"
    and va: "valid_at (mem m) (root_ppn t) (unat (indexes ! 0))"
      "a = target K (mem m) (root_ppn t) (unat (indexes ! 0))"
    and vb: "valid_at (mem m) a (unat (indexes ! 1))" "b = target K (mem m) a (unat (indexes ! 1))"
    and e: "\<And>l. \<not> valid_at (mem m) b l"
  obtains s' where "kbind (remove_mapper b) (\<lambda>_. kbind (find_mapper a) (\<lambda>r. kbind (deref r) (\<lambda>mapper.
      unmap_loop K vpn indexes (Suc 0) r (pm_tracker mapper) ret))) (t, m) = (Ok ret, s')"
    and "pt_inv K st s'" and "keeps st (t, m) s'" and "pt_look K s' = pt_look K (t, m)"
proof -
  have T: "tree K (root_ppn t) (par_of t) (mem m)" and ok: "mappers_ok t (mem m)"
    using inv by (auto simp: pt_inv_def)
  note pa = path_nodes [OF T va(1), folded va(2)]
  have ref: "ref_to t (Mapper a) a" using pa(1) par_of_dom [OF ok] by (auto simp: ref_to_def)
  obtain t2 m2 ma s3 where c1: "remove_mapper b (t, m) = (Ok (), (t2, m2))"
    "mapper_at t2 (Mapper a) = Some ma" "pm_tracker ma = a"
    "Mapper a \<noteq> Root \<longrightarrow> pm_parent ma = par_of t a"
    "Mapper a \<noteq> Root \<longrightarrow> find_mapper a (t2, m2) = (Ok (Mapper a), (t2, m2))"
    "unmap_level K vpn indexes 1 (Mapper a) ret (t2, m2) =
       (Ok (ret, ma, valid_count (mem (snd s3)) a = 0), s3)"
    "pt_inv K st s3" "keeps st (t, m) s3" "pt_look K s3 = pt_look K (t, m)"
    "mem (snd s3) = write_word a (unat (indexes ! 1)) pte_empty (mem m)"
    by (rule climb [OF inv K ref pa(3) vb e levels(2)]) (rule that; assumption)
  obtain t3 m3 where s3: "s3 = (t3, m3)" by (cases s3)
  let ?run = "kbind (remove_mapper b) (\<lambda>_. kbind (find_mapper a) (\<lambda>r. kbind (deref r) (\<lambda>mapper.
      unmap_loop K vpn indexes (Suc 0) r (pm_tracker mapper) ret))) (t, m)"
  have step: "?run = unmap_loop K vpn indexes (Suc 0) (Mapper a) a ret (t2, m2)"
    using c1 by (simp add: deref_ref)
  show thesis
  proof (cases "valid_count (mem m3) a = 0")
    case False
    have "?run = (Ok ret, s3)" unfolding step using c1(6) False s3 by simp
    then show thesis using that c1(7-9) by simp
  next
    case True
    have t3: "root_ppn t3 = root_ppn t" using c1(8) s3 by (simp add: keeps_def)
    have e3: "\<not> valid_at (mem m3) a l" for l using True valid_count_0_iff by blast
    have v3: "valid_at (mem m3) (root_ppn t3) (unat (indexes ! 0))"
      "a = target K (mem m3) (root_ppn t3) (unat (indexes ! 0))"
      using va pa(2) c1(10) s3 t3 by (simp_all add: valid_at_write target_write)
    obtain s5 where s5: "kbind (remove_mapper a) (\<lambda>_. kbind (deref Root) (\<lambda>mapper.
        unmap_loop K vpn indexes 0 Root (pm_tracker mapper) ret)) (t3, m3) = (Ok ret, s5)"
      "pt_inv K st s5" "keeps st (t3, m3) s5" "pt_look K s5 = pt_look K (t3, m3)"
      by (rule unmap_at_root [OF c1(7) [unfolded s3] K v3 e3]) (rule that; assumption)
    have "pm_parent ma = Some (root_ppn t)" using c1(4) pa(1) by simp
    then have "?run = (Ok ret, s5)"
      unfolding step using c1(6) True s3 s5(1) by simp
    moreover have "keeps st (t, m) s5" using keeps_trans [OF c1(8)] s5(3) s3 by simp
    ultimately show thesis using that s5(2,4) c1(9) s3 by simp
  qed
qed

lemma unmap_loop_spec:
  assumes inv: "pt_inv K st (t, m)" and K: "crates_ok K"
    and ix: "i = unat (indexes ! 0)" "j = unat (indexes ! 1)" "k = unat (indexes ! 2)"
    and path: "valid_at (mem m) (root_ppn t) i" "a = target K (mem m) (root_ppn t) i"
      "valid_at (mem m) a j" "b = target K (mem m) a j" "valid_at (mem m) b k"
  obtains s' where "unmap_loop K vpn indexes 2 (Mapper b) b b (t, m) = (Ok (target K (mem m) b k), s')"
    and "pt_inv K st s'" and "keeps st (t, m) s'"
    and "\<And>x y z. pt_look K s' x y z =
           (if x = i \<and> y = j \<and> z = k then None else pt_look K (t, m) x y z)"
proof -
  have T: "tree K (root_ppn t) (par_of t) (mem m)" and ok: "mappers_ok t (mem m)"
    using inv by (auto simp: pt_inv_def)
  note pa = path_nodes [OF T path(1), folded path(2)]
  note pb = path_nodes2 [OF T path(1) path(3) [unfolded path(2)], folded path(2), folded path(4)]
  have ref: "ref_to t (Mapper b) b" using pb(1) par_of_dom [OF ok] by (auto simp: ref_to_def)
  obtain mp where mp: "mapper_at t (Mapper b) = Some mp" "pm_tracker mp = b" "pm_parent mp = Some a"
    using ref_mapper [OF ok ref] pb(1) by (metis mapper_ref.distinct(1))
  note cnt = ref_count [OF inv ref mp(1) path(5)]
  have kc: "k < PTE_COUNT" using path(5) by (simp add: valid_at_def)
  define t1 where "t1 = set_mapper (Mapper b) (mp\<lparr>pm_count := pm_count mp - 1\<rparr>) t"
  define m1 where "m1 = m\<lparr>mem := write_word b k pte_empty (mem m)\<rparr>"
  note lf = leaf_inv [OF inv path(1) path(3) [unfolded path(2)] path(4) [unfolded path(2)]
      ref mp(1) kc cnt(2), of "(t1, m1)", folded t1_def m1_def, OF refl]
  have two: "unmap_loop K vpn indexes 2 = unmap_loop K vpn indexes (Suc (Suc 0))"
    by (simp add: numeral_2_eq_2)
  have lv: "unmap_level K vpn indexes (Suc (Suc 0)) (Mapper b) b (t, m) =
      (Ok (target K (mem m) b k, mp, pm_count mp - 1 = 0), (t1, m1))"
    using unmap_level_valid [OF K mp(1) cnt(1), of m indexes 2 vpn b] path(5)
    by (simp add: mp(2) PAGE_LEVEL_def ix t1_def m1_def numeral_2_eq_2)
  show thesis
  proof (cases "pm_count mp - 1 = 0")
    case False
    have "unmap_loop K vpn indexes 2 (Mapper b) b b (t, m) = (Ok (target K (mem m) b k), (t1, m1))"
      unfolding two using lv False by simp
    then show thesis using that lf by simp
  next
    case True
    have ne: "a \<noteq> b" "root_ppn t \<noteq> b" using pa(3) pb(2) by auto
    have t1: "root_ppn t1 = root_ppn t" using set_count_keeps [OF mp(1)] by (simp add: t1_def)
    have e1: "\<not> valid_at (mem m1) b l" for l
      using cnt(2) True valid_count_0_iff by (fastforce simp: m1_def)
    have va: "valid_at (mem m1) (root_ppn t1) (unat (indexes ! 0))"
      "a = target K (mem m1) (root_ppn t1) (unat (indexes ! 0))"
      "valid_at (mem m1) a (unat (indexes ! 1))" "b = target K (mem m1) a (unat (indexes ! 1))"
      using path(1-4) ne t1 by (simp_all add: m1_def valid_at_write target_write ix)
    obtain s' where s': "kbind (remove_mapper b) (\<lambda>_. kbind (find_mapper a) (\<lambda>r. kbind (deref r) (\<lambda>mapper.
        unmap_loop K vpn indexes (Suc 0) r (pm_tracker mapper) (target K (mem m) b k)))) (t1, m1) =
        (Ok (target K (mem m) b k), s')"
      "pt_inv K st s'" "keeps st (t1, m1) s'" "pt_look K s' = pt_look K (t1, m1)"
      by (rule unmap_at_second [OF lf(1) K va e1]) (rule that; assumption)
    have "unmap_loop K vpn indexes 2 (Mapper b) b b (t, m) = (Ok (target K (mem m) b k), s')"
      unfolding two using lv True mp(3) s'(1) by simp
    then show thesis using that s'(2,4) keeps_trans [OF lf(2) s'(3)] lf(3) by simp
  qed
qed

lemma unmap_walk_path:
  assumes inv: "pt_inv K st (t, m)" and K: "crates_ok K"
    and ix: "unat i' < PTE_COUNT" "unat j' < PTE_COUNT"
    and defs: "R = root_ppn t" "i = unat i'" "j = unat j'" "a = target K (mem m) R i" "b = target K (mem m) a j"
  shows "unmap_walk K vpn [i', j'] Root ret (t, m) =
      (if valid_at (mem m) R i \<and> valid_at (mem m) a j then (Ok (Mapper b, b), (t, m))
       else (Err (VPNNotMapped vpn), (t, m)))"
proof -
  have root: "ref_to t Root R" "inner (root_ppn t) (par_of t) R" by (simp_all add: ref_to_def defs)
  note step1 = unmap_walk_step [OF inv K root ix(1), folded defs(2), folded defs(4)]
  show ?thesis
  proof (cases "valid_at (mem m) R i")
    case True
    note nx = map_next_valid [OF inv K root, of i', folded defs(2), folded defs(4), OF True]
    have ia: "inner (root_ppn t) (par_of t) a" using nx(2) by (simp add: inner_def defs(1))
    note step2 = unmap_walk_step [OF inv K nx(3) ia ix(2), folded defs(3), folded defs(5)]
    show ?thesis unfolding step1 step2 using True by simp
  next
    case False
    then show ?thesis unfolding step1 by simp
  qed
qed

lemma unmap_without_dealloc_spec:
  assumes inv: "pt_inv K st s" and K: "crates_ok K"
  obtains (unmapped) ppn s' where "unmap_without_dealloc K vpn s = (Ok ppn, s')"
      and "vpn_view K s vpn = Some ppn" and "pt_inv K st s'" and "keeps st s s'"
      and "\<And>w. vpn_view K s' w = (if same_page K vpn w then None else vpn_view K s w)"
    | (absent) "unmap_without_dealloc K vpn s = (Err (VPNNotMapped vpn), s)"
      and "vpn_view K s vpn = None"
proof -
  obtain t m where s: "s = (t, m)" by (cases s)
  let ?ix = "page_indexes K vpn"
  define i j k where "i = unat (?ix ! 0)" and "j = unat (?ix ! 1)" and "k = unat (?ix ! 2)"
  have ix: "unat (?ix ! 0) < PTE_COUNT" "unat (?ix ! 1) < PTE_COUNT" "unat (?ix ! 2) < PTE_COUNT"
    using page_indexes_bound [OF K] by (simp_all add: PAGE_LEVEL_def)
  have take: "take (PAGE_LEVEL - 1) ?ix = [?ix ! 0, ?ix ! 1]"
    using page_indexes_length [OF K, of vpn] by (simp add: PAGE_LEVEL_def page_indexes_eq [OF K])
  define R a b where "R = root_ppn t" and "a = target K (mem m) R i" and "b = target K (mem m) a j"
  have view: "vpn_view K s vpn = (if valid_at (mem m) R i \<and> valid_at (mem m) a j \<and> valid_at (mem m) b k
      then Some (target K (mem m) b k) else None)"
    by (simp add: vpn_view_def vpn_index_def pt_look_def look_def s i_def j_def k_def R_def a_def b_def Let_def)
  note inv' = inv [unfolded s]
  note walk = unmap_walk_path [OF inv' K ix(1,2) R_def i_def j_def a_def b_def, of vpn 0]
  have run: "unmap_without_dealloc K vpn s =
      kbind (unmap_walk K vpn [?ix ! 0, ?ix ! 1] Root 0) (\<lambda>(r, ppn). unmap_loop K vpn ?ix 2 r ppn ppn) (t, m)"
    using take by (simp add: unmap_without_dealloc_def s Let_def PAGE_LEVEL_def)
  show thesis
  proof (cases "valid_at (mem m) R i \<and> valid_at (mem m) a j")
    case False
    then show thesis using absent walk run view s by auto
  next
    case path: True
    then have run2: "unmap_without_dealloc K vpn s = unmap_loop K vpn ?ix 2 (Mapper b) b b (t, m)"
      using run walk by simp
    show thesis
    proof (cases "valid_at (mem m) b k")
      case True
      from path have p1: "valid_at (mem m) R i" and p2: "valid_at (mem m) a j" by auto
      obtain s' where s': "unmap_loop K vpn ?ix 2 (Mapper b) b b (t, m) = (Ok (target K (mem m) b k), s')"
        "pt_inv K st s'" "keeps st (t, m) s'"
        "\<And>x y z. pt_look K s' x y z =
           (if x = i \<and> y = j \<and> z = k then None else pt_look K (t, m) x y z)"
        using unmap_loop_spec [OF inv' K i_def j_def k_def p1 [unfolded R_def]
            a_def [unfolded R_def] p2 b_def True] by blast
      have "vpn_view K s' w = (if same_page K vpn w then None else vpn_view K s w)" for w
        using s'(4) s by (intro vpn_view_update [OF K]) (simp add: vpn_index_def i_def j_def k_def)
      then show thesis
        using unmapped run2 s' view path True s by simp
    next
      case False
      have ok: "mappers_ok t (mem m)" and T: "tree K (root_ppn t) (par_of t) (mem m)"
        using inv' by (auto simp: pt_inv_def)
      have "par_of t b = Some a"
        using path_nodes2(1) [OF T] path by (simp add: R_def a_def b_def)
      then have "ref_to t (Mapper b) b" using par_of_dom [OF ok] by (auto simp: ref_to_def)
      then obtain mp where mp: "mapper_at t (Mapper b) = Some mp" "pm_tracker mp = b"
        using ref_mapper [OF ok] by blast
      have "unmap_level K vpn ?ix 2 (Mapper b) b (t, m) = (Err (VPNNotMapped vpn), (t, m))"
        using unmap_level_invalid [OF K mp(1), of ?ix 2 m vpn b] mp(2) ix(3) False by (simp add: k_def)
      then have "unmap_loop K vpn ?ix 2 (Mapper b) b b (t, m) = (Err (VPNNotMapped vpn), (t, m))"
        by (simp add: numeral_2_eq_2)
      then show thesis using absent run2 view False s by simp
    qed
  qed
qed

end
