(* ===== verification/Page_Table_Spec.thy ===== *)
theory Page_Table_Spec
  imports Page_Table_Unmap
begin

text \<open>
  The contract of a page table as the address spaces use it, that the three-level table honours
  it, and the properties of the operations of src/memory/page_table_riscv.rs.
\<close>

section \<open>A new page table\<close>

lemma page_table_new_inv:
  assumes "frame_inv st (frame_allocator m)" and "end_ppn (frame_allocator m) \<le> 2 ^ 44"
    and "page_table_new asid m = (Ok t, m')"
  shows "pt_inv K st (t, m')" and "vpn_view K (t, m') vpn = None" and "pt_asid t = asid"
    and "root_ppn t \<in> free_frames st m" and "owned_frames st m' = insert (root_ppn t) (owned_frames st m)"
    and "\<And>p. p \<noteq> root_ppn t \<Longrightarrow> mem m' p = mem m p"
proof -
  from assms(1) obtain p where p: "tracker_alloc m = (Ok p, m')" "p \<in> free_frames st m"
    "frame_inv st (frame_allocator m')" "owned_frames st m' = insert p (owned_frames st m)"
    "mem m' = frame_clear p (mem m)" "end_ppn (frame_allocator m') = end_ppn (frame_allocator m)"
    and t: "t = \<lparr>pt_asid = asid, pt_root = page_mapper_new None p,
             pt_mappers = Map.empty, pt_trackers = Map.empty\<rparr>"
  proof (cases rule: tracker_alloc_cases)
    case full
    then show ?thesis using assms(3) by (simp add: page_table_new_def)
  next
    case (fresh p m1)
    then show ?thesis using assms(3) that by (simp add: page_table_new_def)
  qed
  have empty: "par_of t = Map.empty" "root_ppn t = p" "pt_nodes t = {p}" "pt_trackers t = Map.empty"
    by (auto simp: t par_of_def page_mapper_new_def pt_nodes_def)
  have none: "\<not> valid_at (mem m') p i" for i by (simp add: p(5))
  have "tree K p Map.empty (mem m')"
    using none by (auto simp: tree_def inner_def)
  moreover have "mappers_ok t (mem m')"
    using none valid_count_0_iff [of "mem m'" p] by (auto simp: mappers_ok_def t page_mapper_new_def)
  moreover have "frames_ok st t m'"
    using assms(2) p by (simp add: frames_ok_def empty)
  ultimately show "pt_inv K st (t, m')" by (simp add: pt_inv_def empty)
  show "vpn_view K (t, m') vpn = None"
    using none by (simp add: vpn_view_def pt_look_def look_conv empty)
  show "pt_asid t = asid" "root_ppn t \<in> free_frames st m"
    "owned_frames st m' = insert (root_ppn t) (owned_frames st m)"
    using p(2,4) unfolding empty by (simp_all add: t)
  show "mem m' q = mem m q" if "q \<noteq> root_ppn t" for q
    using that p(5) unfolding empty by (simp add: frame_clear_def)
qed

section \<open>Translation\<close>

lemma translate_leaf:
  assumes "crates_ok K" and "unat i < PTE_COUNT"
  shows "translate_walk K [i] p (t, m) =
      (Ok (if valid_at (mem m) p (unat i) then Some (target K (mem m) p (unat i)) else None), (t, m))"
  using assms(2) by (simp add: kbind_def read_entry_def pte_is_valid_bit [OF assms(1)] valid_at_def target_def)

lemma translate_step:
  assumes "crates_ok K" and "unat i < PTE_COUNT"
    and "valid_at (mem m) p (unat i) \<Longrightarrow>
      \<exists>mp. pt_mappers t (target K (mem m) p (unat i)) = Some mp \<and> pm_tracker mp = target K (mem m) p (unat i)"
  shows "translate_walk K (i # j # is) p (t, m) =
      (if valid_at (mem m) p (unat i) then translate_walk K (j # is) (target K (mem m) p (unat i)) (t, m)
       else (Ok None, (t, m)))"
proof (cases "valid_at (mem m) p (unat i)")
  case True
  then obtain mp where "pt_mappers t (target K (mem m) p (unat i)) = Some mp"
    "pm_tracker mp = target K (mem m) p (unat i)" using assms(3) by blast
  then show ?thesis
    using assms(2) True
    by (simp add: kbind_def read_entry_def pte_is_valid_bit [OF assms(1)] valid_at_def target_def)
next
  case False
  then show ?thesis
    using assms(2) by (simp add: kbind_def read_entry_def pte_is_valid_bit [OF assms(1)] valid_at_def)
qed

lemma translate_spec:
  assumes inv: "pt_inv K st s" and K: "crates_ok K"
  shows "translate_ppn_with K vpn s = (Ok (vpn_view K s vpn), s)"
proof -
  obtain t m where s: "s = (t, m)" by (cases s)
  let ?ix = "page_indexes K vpn" and ?M = "mem m" and ?R = "root_ppn t"
  have ix: "unat (?ix ! 0) < PTE_COUNT" "unat (?ix ! 1) < PTE_COUNT" "unat (?ix ! 2) < PTE_COUNT"
    using page_indexes_bound [OF K] by (simp_all add: PAGE_LEVEL_def)
  have T: "tree K ?R (par_of t) ?M" and ok: "mappers_ok t ?M"
    using inv by (auto simp: pt_inv_def s)
  have found: "\<exists>mp. pt_mappers t q = Some mp \<and> pm_tracker mp = q" if "par_of t q = Some p" for p q
  proof -
    have "q \<in> dom (pt_mappers t)" using that par_of_dom [OF ok] by blast
    then show ?thesis using ok by (auto simp: mappers_ok_def)
  qed
  let ?a = "target K ?M ?R (unat (?ix ! 0))"
  have top: "translate_walk K [?ix ! 0, ?ix ! 1, ?ix ! 2] ?R (t, m) =
      (if valid_at ?M ?R (unat (?ix ! 0)) then translate_walk K [?ix ! 1, ?ix ! 2] ?a (t, m) else (Ok None, (t, m)))"
    using translate_step [OF K ix(1)] found path_nodes(1) [OF T] by blast
  have mid: "translate_walk K [?ix ! 1, ?ix ! 2] ?a (t, m) =
      (if valid_at ?M ?a (unat (?ix ! 1))
       then translate_walk K [?ix ! 2] (target K ?M ?a (unat (?ix ! 1))) (t, m) else (Ok None, (t, m)))"
    if "valid_at ?M ?R (unat (?ix ! 0))"
    using translate_step [OF K ix(2)] found path_nodes2(1) [OF T that] by blast
  have "translate_ppn_with K vpn s = translate_walk K [?ix ! 0, ?ix ! 1, ?ix ! 2] ?R (t, m)"
    using page_indexes_length [OF K, of vpn] by (simp add: translate_ppn_with_def s)
  also have "\<dots> = (Ok (vpn_view K s vpn), s)"
  proof (cases "valid_at ?M ?R (unat (?ix ! 0))")
    case True
    then show ?thesis
      unfolding top mid [OF True] translate_leaf [OF K ix(3)]
      by (simp add: vpn_view_def vpn_index_def pt_look_def look_def Let_def s)
  next
    case False
    then show ?thesis
      unfolding top by (simp add: vpn_view_def vpn_index_def pt_look_def look_def Let_def s)
  qed
  finally show ?thesis .
qed

section \<open>Mapping with a frame of its own\<close>

text \<open>Changes of the machine outside the mapper frames.\<close>

lemma machine_change_inv:
  assumes inv: "pt_inv K st (t, m)" and same: "\<And>p. p \<in> pt_nodes t \<Longrightarrow> mem m' p = mem m p"
    and fr: "frames_ok st t m'"
  shows "pt_inv K st (t, m')" and "pt_look K (t, m') = pt_look K (t, m)"
proof -
  have T: "tree K (root_ppn t) (par_of t) (mem m)" and ok: "mappers_ok t (mem m)"
    using inv by (auto simp: pt_inv_def)
  have nodes: "p \<in> pt_nodes t" if "inner (root_ppn t) (par_of t) p \<or> par_of t p \<noteq> None" for p
    using that par_of_dom [OF ok] by (auto simp: inner_def pt_nodes_def)
  have V: "valid_at (mem m') p i = valid_at (mem m) p i" "target K (mem m') p i = target K (mem m) p i"
    "valid_count (mem m') p = valid_count (mem m) p" if "p \<in> pt_nodes t" for p i
    using same [OF that] by (auto simp: valid_at_def target_def valid_count_def)
  have "tree K (root_ppn t) (par_of t) (mem m')"
    unfolding tree_def
  proof (intro conjI allI impI; (elim conjE)?)
    show "par_of t (root_ppn t) = None" using treeD(1) [OF T] .
  next
    fix p i
    assume p: "inner (root_ppn t) (par_of t) p" "valid_at (mem m') p i"
    then show "par_of t (target K (mem m') p i) = Some p"
      using treeD(2) [OF T p(1)] V [OF nodes] by simp
  next
    fix p i j
    assume "inner (root_ppn t) (par_of t) p" "valid_at (mem m') p i" "valid_at (mem m') p j"
      "target K (mem m') p i = target K (mem m') p j"
    then show "i = j" using treeD(3) [OF T] V [OF nodes] by metis
  next
    fix q p
    assume q: "par_of t q = Some p"
    show "inner (root_ppn t) (par_of t) p" using treeD(4) [OF T q] .
    then show "\<exists>i. valid_at (mem m') p i \<and> target K (mem m') p i = q"
      using treeD(5) [OF T q] V [OF nodes] by auto
  qed
  moreover have "mappers_ok t (mem m')"
    using ok V by (auto simp: mappers_ok_def pt_nodes_def domI)
  ultimately show "pt_inv K st (t, m')" using fr by (simp add: pt_inv_def)
  have "look K (root_ppn t) (mem m') i j k = look K (root_ppn t) (mem m) i j k" for i j k
  proof -
    have R: "root_ppn t \<in> pt_nodes t" by (simp add: pt_nodes_def)
    have a: "target K (mem m) (root_ppn t) i \<in> pt_nodes t" if "valid_at (mem m) (root_ppn t) i"
      using path_nodes(3) [OF T that] nodes by blast
    have b: "target K (mem m) (target K (mem m) (root_ppn t) i) j \<in> pt_nodes t"
      if "valid_at (mem m) (root_ppn t) i" "valid_at (mem m) (target K (mem m) (root_ppn t) i) j"
      using path_nodes2(1) [OF T that] nodes by blast
    show ?thesis
      unfolding look_def Let_def using V [OF R] V [OF a] V [OF b] by (auto split: if_splits)
  qed
  then show "pt_look K (t, m') = pt_look K (t, m)" by (simp add: pt_look_def fun_eq_iff)
qed

lemma vpn_view_cong: "pt_look K s' = pt_look K s \<Longrightarrow> vpn_view K s' = vpn_view K s"
  by (rule ext) (simp add: vpn_view_def)

lemma alloc_data_frame:
  assumes inv: "pt_inv K st (t, m)" and al: "tracker_alloc m = (Ok p, m')"
  shows "pt_inv K st (t, m')" and "vpn_view K (t, m') = vpn_view K (t, m)"
    and "p \<in> free_frames st m" and "owned_frames st m' = insert p (owned_frames st m)"
    and "mem m' = frame_clear p (mem m)" and "p < 2 ^ 44"
    and "frame_pool st (frame_allocator m') = frame_pool st (frame_allocator m)"
proof -
  have fo: "frames_ok st t m" using inv by (simp add: pt_inv_def)
  then have "frame_inv st (frame_allocator m)" by (simp add: frames_ok_def)
  then obtain a: "p \<in> free_frames st m" "frame_inv st (frame_allocator m')"
    "owned_frames st m' = insert p (owned_frames st m)" "mem m' = frame_clear p (mem m)"
    "end_ppn (frame_allocator m') = end_ppn (frame_allocator m)"
    "frame_pool st (frame_allocator m') = frame_pool st (frame_allocator m)"
    by (rule tracker_alloc_cases) (use al in simp_all)
  have fr: "frames_ok st t m'" using fo a by (auto simp: frames_ok_def)
  have "mem m' q = mem m q" if "q \<in> pt_nodes t" for q
    using that a(1,4) fo by (auto simp: frames_ok_def frame_clear_def)
  note ch = machine_change_inv [OF inv this fr]
  show "pt_inv K st (t, m')" using ch(1) by blast
  show "vpn_view K (t, m') = vpn_view K (t, m)" using ch(2) vpn_view_cong by blast
  show "p < 2 ^ 44"
    using a(1) fo unfolding frames_ok_def frame_pool_def by (auto intro: order.strict_trans2)
  show "p \<in> free_frames st m" "owned_frames st m' = insert p (owned_frames st m)"
    "mem m' = frame_clear p (mem m)"
    "frame_pool st (frame_allocator m') = frame_pool st (frame_allocator m)" by (fact a)+
qed

lemma drop_data_frame:
  assumes inv: "pt_inv K st (t, m)" and p: "p \<in> others st (t, m)" "p \<notin> ran (pt_trackers t)"
  obtains m' where "tracker_drop p m = (Ok (), m')" and "pt_inv K st (t, m')"
    and "vpn_view K (t, m') = vpn_view K (t, m)" and "owned_frames st m' = owned_frames st m - {p}"
    and "mem m' = mem m" and "frame_pool st (frame_allocator m') = frame_pool st (frame_allocator m)"
proof -
  have fo: "frames_ok st t m" using inv by (simp add: pt_inv_def)
  then have fi: "frame_inv st (frame_allocator m)" by (simp add: frames_ok_def)
  have own: "p \<in> owned_frames st m" using p(1) by (simp add: others_def)
  obtain m' where a: "tracker_drop p m = (Ok (), m')" "frame_inv st (frame_allocator m')"
    "owned_frames st m' = owned_frames st m - {p}" "mem m' = mem m"
    "end_ppn (frame_allocator m') = end_ppn (frame_allocator m)"
    "frame_pool st (frame_allocator m') = frame_pool st (frame_allocator m)"
    by (rule tracker_drop_owned [OF fi own]) (rule that; assumption)
  have fr: "frames_ok st t m'" using fo a p by (auto simp: frames_ok_def others_def)
  note ch = machine_change_inv [OF inv _ fr, unfolded a(4), OF refl]
  show thesis using that a ch(1) vpn_view_cong [OF ch(2)] by blast
qed

text \<open>Changes of the tracker map.\<close>

lemma vpn_view_trackers [simp]: "vpn_view K (t\<lparr>pt_trackers := T\<rparr>, m) = vpn_view K (t, m)"
  by (rule ext) (simp add: vpn_view_def pt_look_def)

lemma others_trackers [simp]: "others st (t\<lparr>pt_trackers := T\<rparr>, m) = others st (t, m)"
  by (simp add: others_def pt_nodes_def)

lemma trackers_inv:
  assumes "pt_inv K st (t, m)" and "ran T \<subseteq> others st (t, m)" and "inj_on T (dom T)"
  shows "pt_inv K st (t\<lparr>pt_trackers := T\<rparr>, m)"
proof -
  have eq: "par_of (t\<lparr>pt_trackers := T\<rparr>) = par_of t" "pt_nodes (t\<lparr>pt_trackers := T\<rparr>) = pt_nodes t"
    "mappers_ok (t\<lparr>pt_trackers := T\<rparr>) M = mappers_ok t M" for M
    by (auto simp: par_of_def pt_nodes_def mappers_ok_def fun_eq_iff)
  have "frames_ok st (t\<lparr>pt_trackers := T\<rparr>) m"
    using assms unfolding pt_inv_def frames_ok_def eq others_def by auto
  then show ?thesis using assms(1) by (simp add: pt_inv_def eq)
qed

lemma trackers_others: "pt_inv K st (t, m) \<Longrightarrow> ran (pt_trackers t) \<subseteq> others st (t, m)"
  unfolding pt_inv_def frames_ok_def others_def by auto

lemma trackers_inj: "pt_inv K st (t, m) \<Longrightarrow> inj_on (pt_trackers t) (dom (pt_trackers t))"
  by (simp add: pt_inv_def frames_ok_def)

lemma inj_on_upd:
  assumes "inj_on T (dom T)" and "c \<notin> ran T"
  shows "inj_on (T(v \<mapsto> c)) (dom (T(v \<mapsto> c)))"
  using assms by (auto simp: inj_on_def ran_def dom_def)

lemma add_tracker_inv:
  assumes inv: "pt_inv K st (t, m)" and c: "c \<in> others st (t, m)" "c \<notin> ran (pt_trackers t)"
  shows "pt_inv K st (t\<lparr>pt_trackers := (pt_trackers t)(v \<mapsto> c)\<rparr>, m)"
proof (rule trackers_inv [OF inv])
  show "inj_on ((pt_trackers t)(v \<mapsto> c)) (dom ((pt_trackers t)(v \<mapsto> c)))"
    by (rule inj_on_upd [OF trackers_inj [OF inv] c(2)])
  show "ran ((pt_trackers t)(v \<mapsto> c)) \<subseteq> others st (t, m)"
    using trackers_others [OF inv] c(1) by (auto simp: ran_def split: if_splits)
qed

lemma remove_tracker_inv:
  assumes inv: "pt_inv K st (t, m)" and v: "pt_trackers t v = Some f"
  shows "pt_inv K st (t\<lparr>pt_trackers := (pt_trackers t)(v := None)\<rparr>, m)"
    and "f \<in> others st (t, m)" and "f \<notin> ran ((pt_trackers t)(v := None))"
proof -
  note inj = trackers_inj [OF inv] and oth = trackers_others [OF inv]
  show "pt_inv K st (t\<lparr>pt_trackers := (pt_trackers t)(v := None)\<rparr>, m)"
    using oth inj
    by (intro trackers_inv [OF inv]) (auto simp: ran_def inj_on_def dom_def split: if_splits)
  show "f \<in> others st (t, m)" using oth v by (auto simp: ran_def)
  show "f \<notin> ran ((pt_trackers t)(v := None))"
    using inj v by (auto simp: ran_def inj_on_def dom_def)
qed

text \<open>
  The four ways \<open>map\<close> can end. In the last one the page was not mapped but a tracker was still
  recorded for it.
\<close>

lemma pt_map_spec:
  assumes inv: "pt_inv K st (t, m)" and K: "crates_ok K" and fl: "flags \<noteq> 0"
  obtains (mapped) p t' m' where "pt_map K vpn flags (t, m) = (Ok p, (t', m'))"
      and "vpn_view K (t, m) vpn = None" and "pt_inv K st (t', m')"
      and "\<And>w. vpn_view K (t', m') w = (if same_page K vpn w then Some p else vpn_view K (t, m) w)"
      and "p \<in> free_frames st m" and "others st (t', m') = insert p (others st (t, m))"
      and "\<And>q. q \<in> others st (t, m) \<Longrightarrow> mem m' q = mem m q" and "mem m' p = (\<lambda>_. 0)"
      and "pt_trackers t' = (pt_trackers t)(vpn \<mapsto> p)" and "enlarges st (t, m) (t', m')"
    | (taken) s' where "pt_map K vpn flags (t, m) = (Err (VPNAlreadyMapped vpn), s')"
      and "vpn_view K (t, m) vpn \<noteq> None" and "pt_inv K st s'"
      and "\<And>w. vpn_view K s' w = vpn_view K (t, m) w"
    | (full) s' where "pt_map K vpn flags (t, m) = (Err FrameExhausted, s')" and "pt_inv K st s'"
      and "\<And>w. vpn_view K s' w = vpn_view K (t, m) w" and "vpn_view K (t, m) vpn = None \<or> free_frames st m = {}"
      and "keeps st (t, m) s'"
    | (stale) s' where "pt_map K vpn flags (t, m) = (Err (VPNAlreadyMapped vpn), s')"
      and "vpn_view K (t, m) vpn = None" and "pt_trackers t vpn \<noteq> None" and "pt_inv K st s'"
proof -
  have fi: "frame_inv st (frame_allocator m)" and tro: "ran (pt_trackers t) \<subseteq> owned_frames st m"
    using inv by (auto simp: pt_inv_def frames_ok_def)
  have ne: "\<not> flags_is_empty K flags" using fl flags_is_empty_ok [OF K] by simp
  from fi show thesis
  proof (cases rule: tracker_alloc_cases)
    case f: full
    then have "pt_map K vpn flags (t, m) = (Err FrameExhausted, (t, m))"
      using ne by (simp add: pt_map_def)
    then show thesis using full inv f(2) keeps_refl by blast
  next
    case (fresh c m1)
    note al = alloc_data_frame [OF inv fresh(1)]
    have c: "c \<in> others st (t, m1)" "c \<notin> ran (pt_trackers t)" "others st (t, m1) = insert c (others st (t, m))"
      using al(3,4) inv tro by (auto simp: others_def pt_inv_def frames_ok_def)
    let ?tail = "\<lambda>s. kbind (on_error (map_without_alloc K vpn c flags) (on_machine (tracker_drop c))) (\<lambda>_.
        (\<lambda>(t, m). case pt_trackers t vpn of
           Some old \<Rightarrow> kbind (on_machine (tracker_drop old)) (\<lambda>_. kerr (VPNAlreadyMapped vpn))
                          (t\<lparr>pt_trackers := (pt_trackers t)(vpn \<mapsto> c)\<rparr>, m)
         | None \<Rightarrow> (Ok c, (t\<lparr>pt_trackers := (pt_trackers t)(vpn \<mapsto> c)\<rparr>, m)))) s"
    have run: "pt_map K vpn flags (t, m) = ?tail (t, m1)"
      using fresh(1) ne by (simp add: pt_map_def)
    from al(1) K al(6) show thesis
    proof (cases rule: map_without_alloc_spec [where vpn = vpn and flags = flags])
      case mp: (mapped s2)
      obtain t2 m2 where s2: "s2 = (t2, m2)" by (cases s2)
      have kp: "pt_trackers t2 = pt_trackers t" "others st (t2, m2) = others st (t, m1)"
        "\<And>q. q \<in> others st (t, m1) \<Longrightarrow> mem m2 q = mem m1 q"
        using mp(4) by (auto simp: keeps_def s2)
      have old: "mem m2 q = mem m q" if q: "q \<in> others st (t, m)" for q
      proof -
        have "mem m2 q = mem m1 q" using kp(3) [of q] c(3) q by simp
        moreover have "q \<noteq> c" using q al(3) by (auto simp: others_def)
        ultimately show ?thesis using al(5) by (simp add: frame_clear_def)
      qed
      have c2: "c \<in> others st (t2, m2)" "c \<notin> ran (pt_trackers t2)" using c kp by auto
      note inv2 = add_tracker_inv [OF mp(3) [unfolded s2] c2, of vpn]
      have none: "vpn_view K (t, m) vpn = None" using mp(2) al(2) by simp
      show thesis
      proof (cases "pt_trackers t vpn")
        case None
        show thesis
        proof (rule mapped)
          show "pt_map K vpn flags (t, m) = (Ok c, (t2\<lparr>pt_trackers := (pt_trackers t2)(vpn \<mapsto> c)\<rparr>, m2))"
            using run mp(1) None kp(1) s2 by (simp add: on_error_Ok)
          show "mem m2 c = (\<lambda>_. 0)" using kp(3) [OF c(1)] al(5) by (simp add: frame_clear_def)
          show "enlarges st (t, m) (t2\<lparr>pt_trackers := (pt_trackers t2)(vpn \<mapsto> c)\<rparr>, m2)"
            using mp(4) old c(3) al(7) by (auto simp: enlarges_def keeps_def s2)
        qed (use none inv2 mp(5) s2 al(2,3) c(3) kp old in auto)
      next
        case (Some old)
        let ?t3 = "t2\<lparr>pt_trackers := (pt_trackers t2)(vpn \<mapsto> c)\<rparr>"
        have old: "old \<in> others st (?t3, m2)" "old \<notin> ran (pt_trackers ?t3)"
          using remove_tracker_inv(2,3) [OF mp(3) [unfolded s2], of vpn old] Some kp(1) c2
          by (auto simp: ran_def split: if_splits)
        obtain m3 where m3: "tracker_drop old m2 = (Ok (), m3)" "pt_inv K st (?t3, m3)"
          by (rule drop_data_frame [OF inv2 old])
        have "pt_map K vpn flags (t, m) = (Err (VPNAlreadyMapped vpn), (?t3, m3))"
          using run mp(1) Some kp(1) s2 m3(1) by (simp add: on_error_Ok)
        then show thesis using stale none Some m3(2) by blast
      qed
    next
      case tk: taken
      obtain m3 where m3: "tracker_drop c m1 = (Ok (), m3)" "pt_inv K st (t, m3)"
        "vpn_view K (t, m3) = vpn_view K (t, m1)"
        by (rule drop_data_frame [OF al(1) c(1,2)])
      have "pt_map K vpn flags (t, m) = (Err (VPNAlreadyMapped vpn), (t, m3))"
        using run tk(1) m3(1) by (simp add: on_error_def kbind_def)
      then show thesis using taken m3 al(2) tk(2) by simp
    next
      case fu: (full s2)
      obtain t2 m2 where s2: "s2 = (t2, m2)" by (cases s2)
      have kp: "pt_trackers t2 = pt_trackers t" "others st (t2, m2) = others st (t, m1)"
        using fu(4) by (auto simp: keeps_def s2)
      have c2: "c \<in> others st (t2, m2)" "c \<notin> ran (pt_trackers t2)" using c kp by auto
      obtain m3 where m3: "tracker_drop c m2 = (Ok (), m3)" "pt_inv K st (t2, m3)"
        "vpn_view K (t2, m3) = vpn_view K (t2, m2)" "owned_frames st m3 = owned_frames st m2 - {c}"
        "mem m3 = mem m2" "frame_pool st (frame_allocator m3) = frame_pool st (frame_allocator m2)"
        by (rule drop_data_frame [OF fu(3) [unfolded s2] c2])
      have nc: "c \<notin> others st (t, m)" using al(3) by (auto simp: others_def)
      have oth: "others st (t2, m3) = others st (t, m)"
        using m3(4) kp(2) c(3) nc by (auto simp: others_def)
      have "mem m3 q = mem m q" if "q \<in> others st (t, m)" for q
        using that fu(4) c(3) nc al(5) m3(5) by (auto simp: keeps_def s2 frame_clear_def)
      then have kpt: "keeps st (t, m) (t2, m3)"
        using fu(4) al(7) m3(6) oth by (simp add: keeps_def s2)
      have "pt_map K vpn flags (t, m) = (Err FrameExhausted, (t2, m3))"
        using run fu(1) m3(1) s2 by (simp add: on_error_def kbind_def)
      then show thesis using full m3(2,3) al(2) fu(2,5) s2 kpt by simp
    qed
  qed
qed

lemma pt_unmap_spec:
  assumes inv: "pt_inv K st (t, m)" and K: "crates_ok K"
  obtains (freed) ppn f s' where "pt_unmap K vpn (t, m) = (Ok ppn, s')"
      and "vpn_view K (t, m) vpn = Some ppn" and "pt_trackers t vpn = Some f" and "pt_inv K st s'"
      and "\<And>w. vpn_view K s' w = (if same_page K vpn w then None else vpn_view K (t, m) w)"
      and "others st s' = others st (t, m) - {f}" and "enlarges st s' (t, m)"
      and "pt_trackers (fst s') = (pt_trackers t)(vpn := None)"
    | (absent) "pt_unmap K vpn (t, m) = (Err (VPNNotMapped vpn), (t, m))" and "vpn_view K (t, m) vpn = None"
    | (untracked) s' where "pt_unmap K vpn (t, m) = (Err (VPNNotMapped vpn), s')"
      and "vpn_view K (t, m) vpn \<noteq> None" and "pt_trackers t vpn = None" and "pt_inv K st s'"
      and "\<And>w. vpn_view K s' w = (if same_page K vpn w then None else vpn_view K (t, m) w)"
  using inv K
proof (cases rule: unmap_without_dealloc_spec [where vpn = vpn])
  case un: (unmapped ppn s1)
  obtain t1 m1 where s1: "s1 = (t1, m1)" by (cases s1)
  have kp: "pt_trackers t1 = pt_trackers t" "others st (t1, m1) = others st (t, m)"
    using un(4) by (auto simp: keeps_def s1)
  show thesis
  proof (cases "pt_trackers t vpn")
    case None
    then have "pt_unmap K vpn (t, m) = (Err (VPNNotMapped vpn), s1)"
      using un(1) kp(1) s1 by (simp add: pt_unmap_def)
    then show thesis using untracked un None by simp
  next
    case (Some f)
    let ?t2 = "t1\<lparr>pt_trackers := (pt_trackers t1)(vpn := None)\<rparr>"
    note rm = remove_tracker_inv [OF un(3) [unfolded s1], of vpn f]
    have f: "f \<in> others st (?t2, m1)" "f \<notin> ran (pt_trackers ?t2)" "pt_inv K st (?t2, m1)"
      using rm Some kp(1) by simp_all
    obtain m2 where m2: "tracker_drop f m1 = (Ok (), m2)" "pt_inv K st (?t2, m2)"
      "vpn_view K (?t2, m2) = vpn_view K (?t2, m1)" "owned_frames st m2 = owned_frames st m1 - {f}"
      "mem m2 = mem m1" "frame_pool st (frame_allocator m2) = frame_pool st (frame_allocator m1)"
      by (rule drop_data_frame [OF f(3,1,2)])
    show thesis
    proof (rule freed)
      show "pt_unmap K vpn (t, m) = (Ok ppn, (?t2, m2))"
        using un(1) Some kp(1) m2(1) s1 by (simp add: pt_unmap_def)
      show oth: "others st (?t2, m2) = others st (t, m) - {f}"
        using kp(2) m2(4) by (auto simp: others_def pt_nodes_def)
      show "enlarges st (?t2, m2) (t, m)"
        using un(4) oth m2(5,6) by (auto simp: enlarges_def keeps_def s1)
    qed (use un Some m2(2,3) kp(1) s1 in simp_all)
  qed
next
  case ab: absent
  then have "pt_unmap K vpn (t, m) = (Err (VPNNotMapped vpn), (t, m))"
    by (simp add: pt_unmap_def)
  then show thesis using absent ab(2) by blast
qed

section \<open>The contract of a page table\<close>

locale page_mapping =
  fixes pmap :: "usize \<Rightarrow> usize \<Rightarrow> ('s, unit) kop"
    and punmap :: "usize \<Rightarrow> ('s, usize) kop"
    and ptranslate :: "usize \<Rightarrow> ('s, usize option) kop"
    and view :: "'s \<Rightarrow> usize \<Rightarrow> usize option"
    and pinv :: "'s \<Rightarrow> bool"
    and same :: "usize \<Rightarrow> usize \<Rightarrow> bool"
  assumes same_refl: "same v v"
    and translate: "pinv s \<Longrightarrow> ptranslate v s = (Ok (view s v), s)"
    and map_Ok: "pinv s \<Longrightarrow> p < 2 ^ 44 \<Longrightarrow> pmap v p s = (Ok (), s') \<Longrightarrow>
      view s v = None \<and> pinv s' \<and> (\<forall>w. view s' w = (if same v w then Some p else view s w))"
    and map_taken: "pinv s \<Longrightarrow> p < 2 ^ 44 \<Longrightarrow> view s v \<noteq> None \<Longrightarrow>
      pmap v p s = (Err (VPNAlreadyMapped v), s)"
    and unmap_present: "pinv s \<Longrightarrow> view s v = Some p \<Longrightarrow>
      \<exists>s'. punmap v s = (Ok p, s') \<and> pinv s' \<and> (\<forall>w. view s' w = (if same v w then None else view s w))"
    and unmap_absent: "pinv s \<Longrightarrow> view s v = None \<Longrightarrow> punmap v s = (Err (VPNNotMapped v), s)"
    and view_same: "same v w \<Longrightarrow> view s v = view s w"
begin

lemma map_then_translate:
  assumes "pinv s" and "p < 2 ^ 44" and "pmap v p s = (Ok (), s')"
  shows "ptranslate v s' = (Ok (Some p), s')"
  using map_Ok [OF assms] translate [of s' v] same_refl by simp

lemma map_then_unmap:
  assumes "pinv s" and "p < 2 ^ 44" and "pmap v p s = (Ok (), s')"
  shows "\<exists>s''. punmap v s' = (Ok p, s'') \<and> pinv s'' \<and> view s'' = view s"
proof -
  note mp = map_Ok [OF assms]
  have "view s' v = Some p" using mp same_refl by simp
  then obtain s'' where s'': "punmap v s' = (Ok p, s'')" "pinv s''"
    "\<forall>w. view s'' w = (if same v w then None else view s' w)"
    using unmap_present mp by blast
  have "view s'' w = view s w" for w
    using s''(3) mp view_same [of v w s] by auto
  then show ?thesis using s'' by blast
qed

lemma map_twice:
  assumes "pinv s" and "p < 2 ^ 44" and "q < 2 ^ 44" and "pmap v p s = (Ok (), s')"
  shows "pmap v q s' = (Err (VPNAlreadyMapped v), s')"
  using map_Ok [OF assms(1,2,4)] map_taken assms(3) same_refl by simp

end

definition table_inv :: "crates \<Rightarrow> usize \<Rightarrow> pt_state \<Rightarrow> bool" where
  "table_inv K st s \<longleftrightarrow> crates_ok K \<and> pt_inv K st s"

interpretation table: page_mapping "\<lambda>v p. map_without_alloc K v p flags" "unmap_without_dealloc K"
  "translate_ppn_with K" "vpn_view K" "table_inv K st" "same_page K" for K flags st
proof
  fix s s' :: pt_state and v w p :: usize
  show "same_page K v v" by (simp add: same_page_def)
  show "vpn_view K s v = vpn_view K s w" if "same_page K v w"
    using that by (simp add: vpn_view_def vpn_index_def same_page_def)
  assume inv: "table_inv K st s"
  then have K: "crates_ok K" and i: "pt_inv K st s" by (auto simp: table_inv_def)
  show "translate_ppn_with K v s = (Ok (vpn_view K s v), s)" using translate_spec [OF i K] .
  show "vpn_view K s v = None \<and> table_inv K st s' \<and>
      (\<forall>w. vpn_view K s' w = (if same_page K v w then Some p else vpn_view K s w))"
    if "p < 2 ^ 44" "map_without_alloc K v p flags s = (Ok (), s')"
    using i K that(1)
    by (cases rule: map_without_alloc_spec [where vpn = v and flags = flags])
       (use that K in \<open>auto simp: table_inv_def\<close>)
  show "map_without_alloc K v p flags s = (Err (VPNAlreadyMapped v), s)"
    if "p < 2 ^ 44" "vpn_view K s v \<noteq> None"
    using i K that(1)
    by (cases rule: map_without_alloc_spec [where vpn = v and flags = flags]) (use that in auto)
  show "\<exists>s'. unmap_without_dealloc K v s = (Ok p, s') \<and> table_inv K st s' \<and>
      (\<forall>w. vpn_view K s' w = (if same_page K v w then None else vpn_view K s w))"
    if "vpn_view K s v = Some p"
    using i K
    by (cases rule: unmap_without_dealloc_spec [where vpn = v]) (use that K in \<open>auto simp: table_inv_def\<close>)
  show "unmap_without_dealloc K v s = (Err (VPNNotMapped v), s)" if "vpn_view K s v = None"
    using i K
    by (cases rule: unmap_without_dealloc_spec [where vpn = v]) (use that in auto)
qed

section \<open>Properties\<close>

text \<open>A machine with free frames from 16 up to \<open>n\<close>, and the table that is created on it.\<close>

definition sample_machine :: "usize \<Rightarrow> machine" where
  "sample_machine n = \<lparr>mem = (\<lambda>_ _. 0),
     frame_allocator = \<lparr>current_ppn = 16, end_ppn = n, frames_recycled = {}\<rparr>\<rparr>"

definition is_ok :: "'a outcome \<times> 's \<Rightarrow> bool" where
  "is_ok r = (case fst r of Ok _ \<Rightarrow> True | _ \<Rightarrow> False)"

lemma sample_table:
  assumes "16 < n" and "n \<le> 2 ^ 44"
  obtains t m where "page_table_new 1 (sample_machine n) = (Ok t, m)" and "pt_inv rust_crates 16 (t, m)"
    and "\<And>w. vpn_view rust_crates (t, m) w = None" and "pt_trackers t = Map.empty"
proof -
  have fi: "frame_inv 16 (frame_allocator (sample_machine n))" "end_ppn (frame_allocator (sample_machine n)) \<le> 2 ^ 44"
    using assms by (simp_all add: frame_inv_def sample_machine_def)
  obtain t m where tm: "page_table_new 1 (sample_machine n) = (Ok t, m)" and tr: "pt_trackers t = Map.empty"
    using assms by (simp add: page_table_new_def kbind_def sample_machine_def tracker_alloc_def frame_alloc_def pop_first_def not_le [symmetric])
  show thesis using that [OF tm] page_table_new_inv [OF fi tm] tr by blast
qed

lemma sample_map_ok:
  "case page_table_new 1 (sample_machine 32) of
     (Ok t, m) \<Rightarrow> is_ok (map_without_alloc rust_crates 5 99 6 (t, m)) \<and> is_ok (pt_map rust_crates 5 6 (t, m))
   | _ \<Rightarrow> False"
  by code_simp

text \<open>
  C3. Mapping a page without allocating: on a well-formed table and a page number that fits an
  entry, the call either maps the page, after which the page and only that page translates
  differently and the memory of every frame outside the table is untouched; or reports the page as
  mapped already, changing nothing; or reports that the frames are exhausted, changing no
  translation. It never panics and keeps the table well-formed.
\<close>

theorem map_without_alloc_outcome:
  assumes "pt_inv K st s" and "crates_ok K" and "ppn < 2 ^ 44"
  shows "case map_without_alloc K vpn ppn flags s of
      (Ok _, s') \<Rightarrow> vpn_view K s vpn = None \<and> pt_inv K st s' \<and> keeps st s s' \<and>
        (\<forall>w. translate_ppn_with K w s' = (Ok (if same_page K vpn w then Some ppn else vpn_view K s w), s'))
    | (Err e, s') \<Rightarrow>
        e = VPNAlreadyMapped vpn \<and> vpn_view K s vpn \<noteq> None \<and> s' = s \<or>
        e = FrameExhausted \<and> vpn_view K s vpn = None \<and> pt_inv K st s' \<and> keeps st s s' \<and>
          free_frames st (snd s') = {} \<and> (\<forall>w. translate_ppn_with K w s' = (Ok (vpn_view K s w), s'))
    | _ \<Rightarrow> False"
  using assms
proof (cases rule: map_without_alloc_spec [where vpn = vpn and flags = flags])
  case (mapped s')
  then show ?thesis using translate_spec [OF mapped(3) assms(2)] by simp
next
  case taken
  then show ?thesis by simp
next
  case (full s')
  then show ?thesis using translate_spec [OF full(3) assms(2)] by simp
qed

theorem map_without_alloc_outcome_witness:
  "case page_table_new 1 (sample_machine 32) of
     (Ok t, m) \<Rightarrow>
       (case map_without_alloc rust_crates 5 99 6 (t, m) of
          (Ok _, s') \<Rightarrow> translate_ppn_with rust_crates 5 s' = (Ok (Some 99), s') \<and> pt_inv rust_crates 16 s'
        | _ \<Rightarrow> False)
   | _ \<Rightarrow> False"
proof -
  obtain t m where t: "page_table_new 1 (sample_machine 32) = (Ok t, m)" "pt_inv rust_crates 16 (t, m)"
    by (rule sample_table [of 32]) simp_all
  then have "is_ok (map_without_alloc rust_crates 5 99 6 (t, m))" using sample_map_ok by simp
  then show ?thesis
    using map_without_alloc_outcome [OF t(2) rust_crates_ok, of 99 5 6] t(1)
    by (auto simp: is_ok_def same_page_def split: prod.splits outcome.splits)
qed



text \<open>
  Mapping and unmapping are inverse: after a successful mapping, unmapping the page returns
  the frame number it was mapped to and every page translates as it did before the mapping.
\<close>

theorem map_unmap_roundtrip:
  assumes "pt_inv K st s" and "crates_ok K" and "ppn < 2 ^ 44"
    and "map_without_alloc K vpn ppn flags s = (Ok (), s')"
  shows "\<exists>s''. unmap_without_dealloc K vpn s' = (Ok ppn, s'') \<and> pt_inv K st s'' \<and>
    (\<forall>w. fst (translate_ppn_with K w s'') = fst (translate_ppn_with K w s))"
proof -
  have i: "table_inv K st s" using assms by (simp add: table_inv_def)
  then obtain s'' where s'': "unmap_without_dealloc K vpn s' = (Ok ppn, s'')" "table_inv K st s''"
    "vpn_view K s'' = vpn_view K s"
    using table.map_then_unmap assms(3,4) by blast
  then show ?thesis
    using table.translate [OF i] table.translate [OF s''(2)] by (auto simp: table_inv_def)
qed

text \<open>
  C20. Mapping a page to a new frame (\<open>map\<close>): on success the page translates to a frame that
  was free, which is zeroed, recorded under the page and from then on owned by this table's
  trackers; the contents of every frame that was in use outside the table's own nodes is
  untouched, and no other page translates differently. An error says that the page
  is mapped or that there is no frame left, and then every page translates as before; or that the
  page was unmapped earlier without giving its frame back.
\<close>

theorem pt_map_fresh_frame:
  assumes "pt_inv K st (t, m)" and "crates_ok K" and "flags \<noteq> 0"
  shows "case pt_map K vpn flags (t, m) of
      (Ok p, t', m') \<Rightarrow> pt_inv K st (t', m') \<and> vpn_view K (t, m) vpn = None \<and>
        translate_ppn_with K vpn (t', m') = (Ok (Some p), t', m') \<and>
        (\<forall>w. \<not> same_page K vpn w \<longrightarrow> translate_ppn_with K w (t', m') = (Ok (vpn_view K (t, m) w), t', m')) \<and>
        p \<in> free_frames st m \<and> mem m' p = (\<lambda>_. 0) \<and>
        (\<forall>q \<in> others st (t, m). q \<noteq> p \<and> mem m' q = mem m q) \<and>
        pt_trackers t' = (pt_trackers t)(vpn \<mapsto> p)
    | (Err e, t', m') \<Rightarrow> pt_inv K st (t', m') \<and>
        (e = VPNAlreadyMapped vpn \<and> vpn_view K (t, m) vpn = None \<and> pt_trackers t vpn \<noteq> None \<or>
         (e = VPNAlreadyMapped vpn \<and> vpn_view K (t, m) vpn \<noteq> None \<or>
          e = FrameExhausted \<and> (vpn_view K (t, m) vpn = None \<or> free_frames st m = {})) \<and>
         (\<forall>w. translate_ppn_with K w (t', m') = (Ok (vpn_view K (t, m) w), t', m')))
    | _ \<Rightarrow> False"
  using assms
proof (cases rule: pt_map_spec [where vpn = vpn])
  case (mapped p t' m')
  have "same_page K vpn vpn" by (simp add: same_page_def)
  moreover have "q \<noteq> p" if "q \<in> others st (t, m)" for q
    using that mapped(5) by (auto simp: others_def)
  ultimately show ?thesis using mapped translate_spec [OF mapped(3) assms(2)] by simp
qed (auto split: prod.splits simp: translate_spec [OF _ assms(2)])

theorem pt_map_fresh_frame_witness:
  "case page_table_new 1 (sample_machine 32) of
     (Ok t, m) \<Rightarrow>
       (case pt_map rust_crates 5 6 (t, m) of
          (Ok p, t', m') \<Rightarrow> translate_ppn_with rust_crates 5 (t', m') = (Ok (Some p), t', m') \<and>
            mem m' p = (\<lambda>_. 0) \<and> pt_trackers t' 5 = Some p
        | _ \<Rightarrow> False)
   | _ \<Rightarrow> False"
proof -
  obtain t m where t: "page_table_new 1 (sample_machine 32) = (Ok t, m)" "pt_inv rust_crates 16 (t, m)"
    by (rule sample_table [of 32]) simp_all
  then have "is_ok (pt_map rust_crates 5 6 (t, m))" using sample_map_ok by simp
  then show ?thesis
    using pt_map_fresh_frame [OF t(2) rust_crates_ok, of 6 5] t(1)
    by (auto simp: is_ok_def split: prod.splits outcome.splits)
qed

text \<open>
  C29. Unmapping a page with its frame (\<open>unmap\<close>): on success the page loses its translation
  and exactly the frame recorded for it is given back. A page that is not mapped is reported and
  nothing changes. A page that is mapped but was mapped without allocating is reported as not
  mapped although its translation is gone afterwards.
\<close>

theorem pt_unmap_outcome:
  assumes "pt_inv K st (t, m)" and "crates_ok K"
  shows "case pt_unmap K vpn (t, m) of
      (Ok p, s') \<Rightarrow> vpn_view K (t, m) vpn = Some p \<and> pt_inv K st s' \<and>
        (\<exists>f. pt_trackers t vpn = Some f \<and> others st s' = others st (t, m) - {f}) \<and>
        (\<forall>w. translate_ppn_with K w s' = (Ok (if same_page K vpn w then None else vpn_view K (t, m) w), s'))
    | (Err e, s') \<Rightarrow> e = VPNNotMapped vpn \<and> pt_inv K st s' \<and> 
        (vpn_view K (t, m) vpn = None \<and> s' = (t, m) \<or>
         vpn_view K (t, m) vpn \<noteq> None \<and> pt_trackers t vpn = None \<and>
         translate_ppn_with K vpn s' = (Ok None, s'))
    | _ \<Rightarrow> False"
  using assms
proof (cases rule: pt_unmap_spec [where vpn = vpn])
  case (freed p f s')
  then show ?thesis using translate_spec [OF freed(4) assms(2)] by simp
next
  case (untracked s')
  then show ?thesis using translate_spec [OF untracked(4) assms(2)] by (simp add: same_page_def)
qed (use assms in auto)

theorem pt_unmap_outcome_witness:
  "case page_table_new 1 (sample_machine 32) of
     (Ok t, m) \<Rightarrow>
       (case pt_map rust_crates 5 6 (t, m) of
          (Ok p, t', m') \<Rightarrow>
            (case pt_unmap rust_crates 5 (t', m') of
               (Ok q, s') \<Rightarrow> q = p \<and> translate_ppn_with rust_crates 5 s' = (Ok None, s')
             | _ \<Rightarrow> False)
        | _ \<Rightarrow> False)
   | _ \<Rightarrow> False"
proof -
  obtain t m where t: "page_table_new 1 (sample_machine 32) = (Ok t, m)" "pt_inv rust_crates 16 (t, m)"
    by (rule sample_table [of 32]) simp_all
  have ok: "is_ok (pt_map rust_crates 5 6 (t, m))" using sample_map_ok t(1) by simp
  have sp: "same_page rust_crates 5 5" by (simp add: same_page_def)
  have fl: "(6 :: u8) \<noteq> 0" by simp
  from t(2) rust_crates_ok fl show ?thesis
  proof (cases rule: pt_map_spec [where vpn = 5])
    case (mapped p t' m')
    then have "vpn_view rust_crates (t', m') 5 = Some p" "pt_trackers t' 5 = Some p"
      using sp by simp_all
    then show ?thesis
      using pt_unmap_outcome [OF mapped(3) rust_crates_ok, of 5] t(1) mapped(1) sp
      by (auto split: prod.splits outcome.splits)
  qed (use ok in \<open>auto simp: is_ok_def\<close>)
qed

end
