(* ===== verification/Areas.thy ===== *)
theory Areas
  imports Page_Range_Contract Page_Table_Spec
begin

text \<open>
  Areas of virtual pages (src/memory/area.rs): \<open>PageRangeTracker\<close> and \<open>Area\<close>.

  The allocator of page ranges and the page table that an area refers to belong to its address
  space, so the operations work on the triple of allocator, page table and machine. A value that
  goes out of scope, also on an early return, is dropped: the area unmaps its pages and unwraps
  the result, then its range tracker gives the range back and unwraps the result.
\<close>

section \<open>State\<close>

datatype area_mapping = Identical | Framed

record page_range_tracker =
  prt_start_vpn :: usize
  prt_end_vpn :: usize

record area =
  area_flags :: u8
  area_kind :: area_mapping
  area_range_tracker :: page_range_tracker

type_synonym vm = "page_ranges \<times> pt_state"

text \<open>Running an operation on the range allocator of the triple.\<close>

definition on_ranges :: "(page_ranges, 'a) kop \<Rightarrow> (vm, 'a) kop" where
  "on_ranges f = (\<lambda>(a, s). case f a of (r, a') \<Rightarrow> (r, (a', s)))"

section \<open>Range trackers\<close>

definition range_byte_size :: "page_range_tracker \<Rightarrow> usize" where
  "range_byte_size r = (prt_end_vpn r - prt_start_vpn r) * MEMORY_PAGE_BYTE_SIZE"

text \<open>The values of the half-open range of page numbers, in order.\<close>

definition page_range :: "page_range_tracker \<Rightarrow> usize list" where
  "page_range r = map of_nat [unat (prt_start_vpn r)..<unat (prt_end_vpn r)]"

definition range_contain :: "page_range_tracker \<Rightarrow> usize \<Rightarrow> bool" where
  "range_contain r vpn \<longleftrightarrow> prt_start_vpn r \<le> vpn \<and> vpn < prt_end_vpn r"

definition range_check :: "page_range_tracker \<Rightarrow> usize \<Rightarrow> ('s, unit) kop" where
  "range_check r vpn =
     (if range_contain r vpn then kret ()
      else kerr (VPNOutOfArea vpn (prt_start_vpn r) (prt_end_vpn r)))"

definition range_tracker_drop :: "page_range_tracker \<Rightarrow> (vm, unit) kop" where
  "range_tracker_drop r =
     kbind (on_ranges (range_dealloc (prt_start_vpn r) (prt_end_vpn r))) kopt"

section \<open>Areas\<close>

definition area_range :: "area \<Rightarrow> usize \<times> usize" where
  "area_range ar = (prt_start_vpn (area_range_tracker ar), prt_end_vpn (area_range_tracker ar))"

definition map_one :: "crates \<Rightarrow> area \<Rightarrow> usize \<Rightarrow> (pt_state, usize) kop" where
  "map_one K ar vpn =
     kbind (range_check (area_range_tracker ar) vpn) (\<lambda>_.
       case area_kind ar of
         Identical \<Rightarrow> kbind (map_without_alloc K vpn vpn (area_flags ar)) (\<lambda>_. kret vpn)
       | Framed \<Rightarrow> pt_map K vpn (area_flags ar))"

definition unmap_one :: "crates \<Rightarrow> area \<Rightarrow> usize \<Rightarrow> (pt_state, usize) kop" where
  "unmap_one K ar vpn =
     kbind (range_check (area_range_tracker ar) vpn) (\<lambda>_.
       case area_kind ar of
         Identical \<Rightarrow> kbind (unmap_without_dealloc K vpn) (\<lambda>_. kret vpn)
       | Framed \<Rightarrow> pt_unmap K vpn)"

definition area_map :: "crates \<Rightarrow> area \<Rightarrow> (pt_state, unit) kop" where
  "area_map K ar =
     kfor (page_range (area_range_tracker ar)) (\<lambda>vpn. kbind (map_one K ar vpn) (\<lambda>_. kret ()))"

definition area_unmap :: "crates \<Rightarrow> area \<Rightarrow> (pt_state, unit) kop" where
  "area_unmap K ar =
     kfor (page_range (area_range_tracker ar)) (\<lambda>vpn. kbind (unmap_one K ar vpn) (\<lambda>_. kret ()))"

definition area_drop :: "crates \<Rightarrow> area \<Rightarrow> (vm, unit) kop" where
  "area_drop K ar =
     kbind (on_machine (kunwrap (area_unmap K ar))) (\<lambda>_.
     range_tracker_drop (area_range_tracker ar))"

definition area_new :: "crates \<Rightarrow> usize \<Rightarrow> usize \<Rightarrow> u8 \<Rightarrow> area_mapping \<Rightarrow> (vm, area) kop" where
  "area_new K start_vpn end_vpn flags mapping =
     kbind (on_ranges (range_alloc start_vpn end_vpn)) (\<lambda>r.
       case r of
         None \<Rightarrow> kerr (AreaAllocFailed start_vpn end_vpn)
       | Some _ \<Rightarrow>
           let ar = \<lparr>area_flags = flags, area_kind = mapping,
                     area_range_tracker = \<lparr>prt_start_vpn = start_vpn, prt_end_vpn = end_vpn\<rparr>\<rparr> in
           kbind (on_error (on_machine (area_map K ar)) (area_drop K ar)) (\<lambda>_. kret ar))"

section \<open>Contents\<close>

text \<open>
  \<open>as_kernel_mut\<close> gives the address of a value in a page, \<open>get_byte_array\<close> the frame whose
  bytes are the page.
\<close>

definition area_as_kernel_mut :: "usize \<Rightarrow> usize \<Rightarrow> usize \<Rightarrow> page_table \<Rightarrow> usize outcome" where
  "area_as_kernel_mut vpn offset mem_size t =
     (case get_tracker_with vpn t of
        Ok tracker \<Rightarrow> frame_as_kernel_mut tracker offset mem_size
      | Err e \<Rightarrow> Err e | Panic \<Rightarrow> Panic | Hang \<Rightarrow> Hang)"

definition area_get_byte_array :: "usize \<Rightarrow> page_table \<Rightarrow> usize outcome" where
  "area_get_byte_array vpn t = get_tracker_with vpn t"

definition klift :: "'a outcome \<Rightarrow> ('s, 'a) kop" where
  "klift r s = (r, s)"

definition copy_frame :: "usize \<Rightarrow> usize \<Rightarrow> (pt_state, unit) kop" where
  "copy_frame dst src = (\<lambda>(t, m). (Ok (), (t, m\<lparr>mem := (mem m)(dst := mem m src)\<rparr>)))"

text \<open>
  \<open>self.copy_another(another)\<close>; \<open>t'\<close> is the page table of the other area, of which only the
  trackers are read. The arithmetic wraps as the code's does.
\<close>

definition copy_another :: "area \<Rightarrow> page_table \<Rightarrow> area \<Rightarrow> (pt_state, usize) kop" where
  "copy_another ar t' another =
     (let (src_start, src_end) = area_range another; (dst_start, dst_end) = area_range ar;
          src_offset = src_end - src_start; dst_offset = dst_end - dst_start;
          count = (if src_offset \<ge> dst_offset then dst_offset else src_offset) in
      kbind (kfor (map of_nat [0..<unat count]) (\<lambda>offset.
          kbind (klift (area_get_byte_array (src_start + offset) t')) (\<lambda>src.
          kbind (\<lambda>(t, m). klift (area_get_byte_array (dst_start + offset) t) (t, m)) (\<lambda>dst.
          copy_frame dst src))))
        (\<lambda>_. kret count))"

definition area_from_another :: "crates \<Rightarrow> page_table \<Rightarrow> area \<Rightarrow> (vm, area) kop" where
  "area_from_another K t' another =
     (let (start_vpn, end_vpn) = area_range another in
      kbind (on_ranges (range_alloc start_vpn end_vpn)) (\<lambda>r.
        case r of
          None \<Rightarrow> kerr (AreaAllocFailed start_vpn end_vpn)
        | Some _ \<Rightarrow>
            let ar = \<lparr>area_flags = area_flags another, area_kind = area_kind another,
                      area_range_tracker = \<lparr>prt_start_vpn = start_vpn, prt_end_vpn = end_vpn\<rparr>\<rparr> in
            kbind (on_error (on_machine (kbind (area_map K ar) (\<lambda>_. copy_another ar t' another)))
                     (area_drop K ar)) (\<lambda>_. kret ar)))"

text \<open>Copying bytes into a frame from a position on.\<close>

fun frame_write :: "usize \<Rightarrow> nat \<Rightarrow> u8 list \<Rightarrow> memory \<Rightarrow> memory" where
  "frame_write p i [] M = M"
| "frame_write p i (b # bs) M = frame_write p (Suc i) bs (frame_set_byte p i b M)"

text \<open>\<open>dst[offset..offset + data.len()].copy_from_slice(data)\<close>, with the checks of the slice.\<close>

definition write_page :: "area \<Rightarrow> usize \<Rightarrow> usize \<Rightarrow> u8 list \<Rightarrow> (pt_state, unit) kop" where
  "write_page ar vpn offset data =
     kbind (kassert (area_kind ar = Framed)) (\<lambda>_.
     kbind (\<lambda>(t, m). klift (area_get_byte_array vpn t) (t, m)) (\<lambda>dst.
     kbind (kassert (offset \<le> offset + of_nat (length data) \<and>
                     offset + of_nat (length data) \<le> MEMORY_PAGE_BYTE_SIZE)) (\<lambda>_.
     (\<lambda>(t, m). (Ok (), (t, m\<lparr>mem := frame_write dst (unat offset) data (mem m)\<rparr>))))))"

text \<open>\<open>&data[a..b]\<close>: a panic unless \<open>a \<le> b \<le> data.len()\<close>.\<close>

definition slice :: "u8 list \<Rightarrow> usize \<Rightarrow> usize \<Rightarrow> u8 list option" where
  "slice data a b =
     (if a \<le> b \<and> unat b \<le> length data then Some (take (unat b - unat a) (drop (unat a) data)) else None)"

text \<open>The loop of \<open>write_multi_pages\<close>; \<open>None\<close> is a loop that does not end.\<close>

partial_function (option) write_loop ::
    "area \<Rightarrow> usize \<Rightarrow> usize \<Rightarrow> u8 list \<Rightarrow> usize \<Rightarrow> pt_state \<Rightarrow> (unit outcome \<times> pt_state) option" where
  "write_loop ar offset linear_end data linear_start s =
     (if linear_start < linear_end then
        let start = linear_start;
            e = min linear_end (linear_start + MEMORY_PAGE_BYTE_SIZE);
            vpn = start div MEMORY_PAGE_BYTE_SIZE;
            per_page_offset = start mod MEMORY_PAGE_BYTE_SIZE in
        case slice data (start - offset) (e - offset) of
          None \<Rightarrow> Some (Panic, s)
        | Some src \<Rightarrow>
            (case write_page ar (vpn + prt_start_vpn (area_range_tracker ar)) per_page_offset src s of
               (Ok _, s') \<Rightarrow> write_loop ar offset linear_end data e s'
             | (r, s') \<Rightarrow> Some (r, s'))
      else Some (Ok (), s))"

definition write_multi_pages :: "area \<Rightarrow> usize \<Rightarrow> u8 list \<Rightarrow> (pt_state, unit) kop" where
  "write_multi_pages ar offset data =
     (let linear_end = of_nat (length data) + offset in
      kbind (kassert (linear_end \<le> range_byte_size (area_range_tracker ar))) (\<lambda>_.
      (\<lambda>s. case write_loop ar offset linear_end data offset s of Some r \<Rightarrow> r | None \<Rightarrow> (Hang, s))))"

end
