(* ===== verification/Area_Spec.thy ===== *)
theory Area_Spec
  imports Areas
begin

text \<open>
  What creating and dropping an area does to the page table, the frames and the page ranges.
\<close>

section \<open>Mapping and unmapping a set of pages\<close>

definition page_mapped :: "crates \<Rightarrow> area_mapping \<Rightarrow> pt_state \<Rightarrow> usize \<Rightarrow> bool" where
  "page_mapped K k s v =
     (case k of
        Identical \<Rightarrow> vpn_view K s v = Some v \<and> pt_trackers (fst s) v = None
      | Framed \<Rightarrow> vpn_view K s v \<noteq> None \<and> pt_trackers (fst s) v = vpn_view K s v)"

definition frames_of :: "pt_state \<Rightarrow> usize set \<Rightarrow> usize set" where
  "frames_of s V = ran (pt_trackers (fst s) |` V)"

text \<open>
  The pages \<open>V\<close> have been mapped between two states: they are mapped as the area wants them, the
  frames they got were not in use and are zero, and nothing else changed.
\<close>

definition mapped_in :: "crates \<Rightarrow> usize \<Rightarrow> area_mapping \<Rightarrow> usize set \<Rightarrow> pt_state \<Rightarrow> pt_state \<Rightarrow> bool" where
  "mapped_in K st k V s s' \<longleftrightarrow>
     pt_inv K st s' \<and> enlarges st s s' \<and> (\<forall>v \<in> V. page_mapped K k s' v) \<and>
     (\<forall>w < 2 ^ 27. w \<notin> V \<longrightarrow> vpn_view K s' w = vpn_view K s w) \<and>
     (\<forall>w. w \<notin> V \<longrightarrow> pt_trackers (fst s') w = pt_trackers (fst s) w) \<and>
     others st s' = others st s \<union> frames_of s' V \<and>
     (\<forall>f \<in> frames_of s' V. mem (snd s') f = (\<lambda>_. 0) \<and> f \<notin> others st s)"

definition unmapped_in :: "crates \<Rightarrow> usize \<Rightarrow> usize set \<Rightarrow> pt_state \<Rightarrow> pt_state \<Rightarrow> bool" where
  "unmapped_in K st V s s' \<longleftrightarrow>
     pt_inv K st s' \<and> enlarges st s' s \<and>
     (\<forall>v \<in> V. vpn_view K s' v = None \<and> pt_trackers (fst s') v = None) \<and>
     (\<forall>w < 2 ^ 27. w \<notin> V \<longrightarrow> vpn_view K s' w = vpn_view K s w) \<and>
     (\<forall>w. w \<notin> V \<longrightarrow> pt_trackers (fst s') w = pt_trackers (fst s) w) \<and>
     others st s' = others st s - frames_of s V"

lemma frames_of_Un: "frames_of s (V \<union> W) = frames_of s V \<union> frames_of s W"
  by (auto simp: frames_of_def ran_def restrict_map_def)

lemma frames_of_empty [simp]: "frames_of s {} = {}"
  by (simp add: frames_of_def)

lemma frames_of_cong:
  "(\<And>v. v \<in> V \<Longrightarrow> pt_trackers (fst s') v = pt_trackers (fst s) v) \<Longrightarrow> frames_of s' V = frames_of s V"
  by (auto simp: frames_of_def ran_def restrict_map_def)

lemma mapped_in_refl: "pt_inv K st s \<Longrightarrow> mapped_in K st k {} s s"
  by (simp add: mapped_in_def)

lemma unmapped_in_refl: "pt_inv K st s \<Longrightarrow> unmapped_in K st {} s s"
  by (simp add: unmapped_in_def)

lemma mapped_in_trans:
  assumes A: "mapped_in K st k V s s'" and B: "mapped_in K st k W s' s''"
    and disj: "V \<inter> W = {}" and low: "V \<subseteq> {..<2 ^ 27}"
  shows "mapped_in K st k (V \<union> W) s s''"
proof -
  have tr: "pt_trackers (fst s'') v = pt_trackers (fst s') v" "vpn_view K s'' v = vpn_view K s' v"
    if "v \<in> V" for v
    using B that disj low by (auto simp: mapped_in_def)
  have fr: "frames_of s'' V = frames_of s' V" by (rule frames_of_cong) (rule tr)
  have en: "enlarges st s s''" using A B enlarges_trans unfolding mapped_in_def by blast
  have "page_mapped K k s'' v" if "v \<in> V" for v
    using A that tr [OF that] by (auto simp: mapped_in_def page_mapped_def split: area_mapping.splits)
  moreover have "mem (snd s'') f = (\<lambda>_. 0) \<and> f \<notin> others st s" if f: "f \<in> frames_of s'' (V \<union> W)" for f
  proof (cases "f \<in> frames_of s' V")
    case True
    then have "f \<in> others st s'" "mem (snd s') f = (\<lambda>_. 0)" "f \<notin> others st s"
      using A by (auto simp: mapped_in_def)
    then show ?thesis using B by (auto simp: mapped_in_def enlarges_def)
  next
    case False
    then have "f \<in> frames_of s'' W" using f fr by (simp add: frames_of_Un)
    then show ?thesis using A B by (auto simp: mapped_in_def)
  qed
  moreover have "others st s'' = others st s \<union> frames_of s'' (V \<union> W)"
    using A B fr by (auto simp: mapped_in_def frames_of_Un)
  ultimately show ?thesis using A B en by (auto simp: mapped_in_def)
qed

lemma unmapped_in_trans:
  assumes A: "unmapped_in K st V s s'" and B: "unmapped_in K st W s' s''"
    and disj: "V \<inter> W = {}" and low: "V \<subseteq> {..<2 ^ 27}"
  shows "unmapped_in K st (V \<union> W) s s''"
proof -
  have tr: "pt_trackers (fst s'') v = pt_trackers (fst s') v" "vpn_view K s'' v = vpn_view K s' v"
    if "v \<in> V" for v
    using B that disj low by (auto simp: unmapped_in_def)
  have "frames_of s' W = frames_of s W"
    by (rule frames_of_cong) (use A disj in \<open>auto simp: unmapped_in_def\<close>)
  then have "others st s'' = others st s - frames_of s (V \<union> W)"
    using A B by (auto simp: unmapped_in_def frames_of_Un)
  moreover have "enlarges st s'' s" using A B enlarges_trans unfolding unmapped_in_def by blast
  ultimately show ?thesis using A B tr by (auto simp: unmapped_in_def)
qed

section \<open>One page\<close>

definition can_map :: "crates \<Rightarrow> area \<Rightarrow> bool" where
  "can_map K ar \<longleftrightarrow> crates_ok K \<and> (area_kind ar = Framed \<longrightarrow> area_flags ar \<noteq> 0)"

definition in_area :: "area \<Rightarrow> usize \<Rightarrow> bool" where
  "in_area ar v \<longleftrightarrow> range_contain (area_range_tracker ar) v \<and> v < 2 ^ 27"

lemma low_same_page:
  assumes "crates_ok K" and "v < 2 ^ 27" and "w < 2 ^ 27"
  shows "same_page K v w \<longleftrightarrow> v = w"
  using page_indexes_inj [OF assms] by (auto simp: same_page_def)

lemma map_one_spec:
  assumes inv: "pt_inv K st s" and can: "can_map K ar" and v: "in_area ar v"
    and free: "vpn_view K s v = None" "pt_trackers (fst s) v = None"
  obtains (mapped) p s' where "map_one K ar v s = (Ok p, s')" and "mapped_in K st (area_kind ar) {v} s s'"
    | (full) s' where "map_one K ar v s = (Err FrameExhausted, s')" and "pt_inv K st s'"
        and "keeps st s s'" and "\<And>w. vpn_view K s' w = vpn_view K s w"
proof -
  have K: "crates_ok K" and low: "v < 2 ^ 27" and chk: "range_contain (area_range_tracker ar) v"
    using can v by (auto simp: can_map_def in_area_def)
  obtain t m where s: "s = (t, m)" by (cases s)
  show thesis
  proof (cases "area_kind ar")
    case Identical
    have "(2 :: usize) ^ 27 \<le> 2 ^ 44" by simp
    then have "v < 2 ^ 44" using low by (rule order.strict_trans2 [rotated])
    from inv K this show thesis
    proof (cases rule: map_without_alloc_spec [where vpn = v and flags = "area_flags ar"])
      case m: (mapped s')
      have "frames_of s' {v} = {}"
        using m(4) free(2) by (auto simp: frames_of_def keeps_def ran_def restrict_map_def)
      then have "mapped_in K st Identical {v} s s'"
        using m low_same_page [OF K low] keeps_enlarges(1) free(2)
        by (auto simp: mapped_in_def page_mapped_def keeps_def same_page_def)
      then show thesis using mapped m(1) chk Identical by (simp add: map_one_def range_check_def)
    next
      case taken
      then show thesis using free by simp
    next
      case f: (full s')
      then show thesis using full chk Identical by (simp add: map_one_def range_check_def)
    qed
  next
    case Framed
    then have fl: "area_flags ar \<noteq> 0" using can by (simp add: can_map_def)
    have run: "map_one K ar v s = pt_map K v (area_flags ar) (t, m)"
      using Framed chk by (simp add: map_one_def range_check_def s)
    from inv [unfolded s] K fl show thesis
    proof (cases rule: pt_map_spec [where vpn = v])
      case m: (mapped p t' m')
      have "frames_of (t', m') {v} = {p}"
        using m(9) by (auto simp: frames_of_def ran_def restrict_map_def)
      moreover have "p \<notin> others st (t, m)" using m(5) by (auto simp: others_def)
      moreover have "same_page K v v" by (simp add: same_page_def)
      ultimately have "mapped_in K st Framed {v} s (t', m')"
        using m low_same_page [OF K low] by (auto simp: mapped_in_def page_mapped_def s)
      then show thesis using mapped m(1) run Framed by simp
    next
      case f: (full s')
      then show thesis using full run s by simp
    qed (use free s in auto)
  qed
qed

lemma unmap_one_spec:
  assumes inv: "pt_inv K st s" and K: "crates_ok K" and v: "in_area ar v"
    and mapped: "page_mapped K (area_kind ar) s v"
  obtains p s' where "unmap_one K ar v s = (Ok p, s')" and "unmapped_in K st {v} s s'"
proof -
  have low: "v < 2 ^ 27" and chk: "range_contain (area_range_tracker ar) v"
    using v by (auto simp: in_area_def)
  obtain t m where s: "s = (t, m)" by (cases s)
  have sp: "same_page K v v" by (simp add: same_page_def)
  show thesis
  proof (cases "area_kind ar")
    case Identical
    from inv K show thesis
    proof (cases rule: unmap_without_dealloc_spec [where vpn = v])
      case u: (unmapped ppn s')
      have "frames_of s {v} = {}"
        using mapped Identical by (auto simp: frames_of_def page_mapped_def ran_def restrict_map_def)
      then have "unmapped_in K st {v} s s'"
        using u low_same_page [OF K low] keeps_enlarges(2) mapped Identical sp
        by (auto simp: unmapped_in_def page_mapped_def keeps_def)
      then show thesis using that u(1) chk Identical by (simp add: unmap_one_def range_check_def)
    qed (use mapped Identical in \<open>simp add: page_mapped_def\<close>)
  next
    case Framed
    have run: "unmap_one K ar v s = pt_unmap K v (t, m)"
      using Framed chk by (simp add: unmap_one_def range_check_def s)
    from inv [unfolded s] K show thesis
    proof (cases rule: pt_unmap_spec [where vpn = v])
      case u: (freed ppn f s')
      have "frames_of s {v} = {f}"
        using u(3) by (auto simp: frames_of_def ran_def restrict_map_def s)
      then have "unmapped_in K st {v} s s'"
        using u low_same_page [OF K low] sp by (auto simp: unmapped_in_def s)
      then show thesis using that u(1) run by simp
    qed (use mapped Framed s in \<open>auto simp: page_mapped_def\<close>)
  qed
qed

lemma unmap_one_absent:
  assumes "pt_inv K st s" and "crates_ok K" and "in_area ar v" and "vpn_view K s v = None"
  shows "unmap_one K ar v s = (Err (VPNNotMapped v), s)"
proof -
  obtain t m where s: "s = (t, m)" by (cases s)
  have "unmap_without_dealloc K v s = (Err (VPNNotMapped v), s)"
    using assms(1,2)
    by (cases rule: unmap_without_dealloc_spec [where vpn = v]) (use assms(4) in auto)
  then show ?thesis
    using assms(3)
    by (auto simp: unmap_one_def range_check_def in_area_def pt_unmap_def s split: area_mapping.splits)
qed

section \<open>All pages of an area\<close>

lemma set_page_range: "set (page_range r) = {prt_start_vpn r..<prt_end_vpn r}"
proof -
  have "x \<in> of_nat ` {unat a..<unat b} \<longleftrightarrow> a \<le> x \<and> x < b" for x a b :: usize
  proof
    assume "x \<in> of_nat ` {unat a..<unat b}"
    then obtain n where n: "x = of_nat n" "unat a \<le> n" "n < unat b" by auto
    then have "unat x = n" using order.strict_trans [OF n(3) unsigned_less] by (simp add: unat_of_nat)
    then show "a \<le> x \<and> x < b" using n by (simp add: word_le_nat_alt word_less_nat_alt)
  next
    assume "a \<le> x \<and> x < b"
    then show "x \<in> of_nat ` {unat a..<unat b}"
      by (intro image_eqI [of _ _ "unat x"]) (auto simp: word_le_nat_alt word_less_nat_alt)
  qed
  then show ?thesis
    unfolding page_range_def set_map set_upt set_eq_iff atLeastLessThan_iff by blast
qed

lemma distinct_page_range: "distinct (page_range r)"
proof -
  have "inj_on (of_nat :: nat \<Rightarrow> usize) {unat a..<unat b}" for a b :: usize
  proof (rule inj_onI)
    fix x y
    assume "x \<in> {unat a..<unat b}" "y \<in> {unat a..<unat b}" "(of_nat x :: usize) = of_nat y"
    moreover have "unat b < 2 ^ 64" using unsigned_less [of b] by simp
    ultimately show "x = y" by (simp add: word_unat_eq_iff unat_of_nat)
  qed
  then show ?thesis by (simp add: page_range_def distinct_map)
qed

text \<open>The body of a loop over pages drops the page number that the operation returns.\<close>

abbreviation step_of :: "('a \<Rightarrow> ('s, 'b) kop) \<Rightarrow> 'a \<Rightarrow> ('s, unit) kop" where
  "step_of f \<equiv> \<lambda>v. kbind (f v) (\<lambda>_. kret ())"

definition pages_free :: "crates \<Rightarrow> pt_state \<Rightarrow> usize set \<Rightarrow> bool" where
  "pages_free K s V \<longleftrightarrow> (\<forall>v \<in> V. vpn_view K s v = None \<and> pt_trackers (fst s) v = None)"

lemma map_loop:
  assumes "pt_inv K st s" and can: "can_map K ar" and "\<forall>v \<in> set vs. in_area ar v" and "distinct vs"
    and "pages_free K s (set vs)"
  obtains (mapped) s' where "kfor vs (step_of (map_one K ar)) s = (Ok (), s')"
      and "mapped_in K st (area_kind ar) (set vs) s s'"
    | (full) xs v ys s1 s' where "vs = xs @ v # ys"
      and "kfor vs (step_of (map_one K ar)) s = (Err FrameExhausted, s')"
      and "mapped_in K st (area_kind ar) (set xs) s s1" and "pt_inv K st s'" and "keeps st s1 s'"
      and "\<forall>w. vpn_view K s' w = vpn_view K s1 w"
  using assms
proof (induction vs arbitrary: s thesis)
  case Nil
  then show ?case using mapped_in_refl by simp
next
  case (Cons v vs)
  note inv = Cons.prems(3) and can = Cons.prems(4)
  have v: "in_area ar v" "vpn_view K s v = None" "pt_trackers (fst s) v = None"
    using Cons.prems by (auto simp: pages_free_def)
  from inv can v show ?case
  proof (cases rule: map_one_spec)
    case one: (mapped p s1)
    have low: "{v} \<subseteq> {..<2 ^ 27}" using v by (simp add: in_area_def)
    have free: "pages_free K s1 (set vs)"
      using Cons.prems(5-7) one(2) by (auto simp: pages_free_def mapped_in_def in_area_def)
    have inv1: "pt_inv K st s1" using one(2) by (simp add: mapped_in_def)
    have rest: "\<forall>v \<in> set vs. in_area ar v" "distinct vs" "v \<notin> set vs" using Cons.prems by auto
    have run: "kfor (v # vs) (step_of (map_one K ar)) s = kfor vs (step_of (map_one K ar)) s1"
      using one(1) by simp
    have join: "mapped_in K st (area_kind ar) (set (v # xs)) s s'"
      if "mapped_in K st (area_kind ar) (set xs) s1 s'" and "v \<notin> set xs" for xs s'
      using mapped_in_trans [OF one(2) that(1) _ low] that(2) by simp
    show ?thesis
    proof (rule Cons.IH [OF _ _ inv1 can rest(1,2) free])
      fix s'
      assume mapped: "kfor vs (step_of (map_one K ar)) s1 = (Ok (), s')"
        "mapped_in K st (area_kind ar) (set vs) s1 s'"
      show thesis by (rule Cons.prems(1) [OF run [unfolded mapped(1)] join [OF mapped(2) rest(3)]])
    next
      fix xs w ys s2 s'
      assume f: "vs = xs @ w # ys" "kfor vs (step_of (map_one K ar)) s1 = (Err FrameExhausted, s')"
        "mapped_in K st (area_kind ar) (set xs) s1 s2" "pt_inv K st s'" "keeps st s2 s'"
        "\<forall>w. vpn_view K s' w = vpn_view K s2 w"
      have nv: "v \<notin> set xs" and eq: "v # vs = (v # xs) @ w # ys" using rest(3) f(1) by auto
      show thesis
        by (rule Cons.prems(2) [OF eq run [unfolded f(2)] join [OF f(3) nv] f(4,5,6)])
    qed
  next
    case f: (full s1)
    show ?thesis
      by (rule Cons.prems(2) [of "[]" v vs s1 s])
         (use f v mapped_in_refl [OF inv] in simp_all)
  qed
qed

lemma unmap_loop_mapped:
  assumes "pt_inv K st s" and "crates_ok K" and "\<forall>v \<in> set vs. in_area ar v" and "distinct vs"
    and "\<forall>v \<in> set vs. page_mapped K (area_kind ar) s v"
  obtains s' where "kfor vs (step_of (unmap_one K ar)) s = (Ok (), s')"
      and "unmapped_in K st (set vs) s s'"
  using assms
proof (induction vs arbitrary: s thesis)
  case Nil
  then show ?case using unmapped_in_refl by simp
next
  case (Cons v vs)
  have v: "in_area ar v" "page_mapped K (area_kind ar) s v" and rest: "\<forall>v \<in> set vs. in_area ar v" "distinct vs" "v \<notin> set vs"
    using Cons.prems by auto
  obtain p s1 where one: "unmap_one K ar v s = (Ok p, s1)" "unmapped_in K st {v} s s1"
    by (rule unmap_one_spec [OF Cons.prems(2,3) v])
  have low: "{v} \<subseteq> {..<2 ^ 27}" using v by (simp add: in_area_def)
  have inv1: "pt_inv K st s1" using one(2) by (simp add: unmapped_in_def)
  have "vpn_view K s1 w = vpn_view K s w" "pt_trackers (fst s1) w = pt_trackers (fst s) w"
    if "w \<in> set vs" for w
    using that one(2) rest by (auto simp: unmapped_in_def in_area_def)
  then have pm: "\<forall>v \<in> set vs. page_mapped K (area_kind ar) s1 v"
    using Cons.prems(6) by (cases "area_kind ar") (simp_all add: page_mapped_def)
  obtain s' where s': "kfor vs (step_of (unmap_one K ar)) s1 = (Ok (), s')"
    "unmapped_in K st (set vs) s1 s'"
    by (rule Cons.IH [OF _ inv1 Cons.prems(3) rest(1,2) pm])
  have "kfor (v # vs) (step_of (unmap_one K ar)) s = (Ok (), s')"
    using one(1) s'(1) by simp
  moreover have "unmapped_in K st (set (v # vs)) s s'"
    using unmapped_in_trans [OF one(2) s'(2) _ low] rest(3) by simp
  ultimately show ?case by (rule Cons.prems(1))
qed

text \<open>A page in the middle that is not mapped ends the loop with an error.\<close>

lemma unmap_loop_gap:
  assumes "pt_inv K st s" and "crates_ok K" and "\<forall>v \<in> set (xs @ v # ys). in_area ar v"
    and "distinct (xs @ v # ys)" and "\<forall>x \<in> set xs. page_mapped K (area_kind ar) s x" and "vpn_view K s v = None"
  obtains s' where "kfor (xs @ v # ys) (step_of (unmap_one K ar)) s = (Err (VPNNotMapped v), s')"
proof -
  obtain s1 where s1: "kfor xs (step_of (unmap_one K ar)) s = (Ok (), s1)" "unmapped_in K st (set xs) s s1"
    by (rule unmap_loop_mapped [OF assms(1,2) _ _ assms(5)]) (use assms(3,4) in auto)
  have "vpn_view K s1 v = None" "pt_inv K st s1" "in_area ar v"
    using s1(2) assms(3,4,6) by (auto simp: unmapped_in_def in_area_def)
  then have "unmap_one K ar v s1 = (Err (VPNNotMapped v), s1)"
    using unmap_one_absent assms(2) by blast
  then show thesis using that s1(1) by (simp add: kfor_append)
qed

section \<open>Areas of an address space\<close>

text \<open>
  The pages that are mapped in an address space belong to an allocated range, but for the set
  \<open>R\<close> of pages that the space maps directly.
\<close>

definition vm_inv :: "crates \<Rightarrow> usize \<Rightarrow> usize set \<Rightarrow> vm \<Rightarrow> bool" where
  "vm_inv K st R = (\<lambda>(a, s).
     crates_ok K \<and> pr_inv 0 (2 ^ 27) a \<and> pt_inv K st s \<and> dom (pt_trackers (fst s)) \<subseteq> pr_used a \<and>
     (\<forall>v < 2 ^ 27. v \<notin> pr_used a \<longrightarrow> v \<notin> R \<longrightarrow> vpn_view K s v = None))"

definition area_of :: "usize \<Rightarrow> usize \<Rightarrow> u8 \<Rightarrow> area_mapping \<Rightarrow> area" where
  "area_of b e fl k =
     \<lparr>area_flags = fl, area_kind = k, area_range_tracker = \<lparr>prt_start_vpn = b, prt_end_vpn = e\<rparr>\<rparr>"

definition area_pages :: "area \<Rightarrow> usize set" where
  "area_pages ar = {prt_start_vpn (area_range_tracker ar)..<prt_end_vpn (area_range_tracker ar)}"

text \<open>An area of the space: it holds an allocated range and its pages are mapped.\<close>

definition area_ok :: "crates \<Rightarrow> vm \<Rightarrow> area \<Rightarrow> bool" where
  "area_ok K = (\<lambda>(a, s) ar.
     range_ok 0 (2 ^ 27) (pr_used a) (prt_start_vpn (area_range_tracker ar)) (prt_end_vpn (area_range_tracker ar)) False \<and>
     (\<forall>v \<in> area_pages ar. page_mapped K (area_kind ar) s v))"

lemma area_map_eq: "area_map K ar = kfor (page_range (area_range_tracker ar)) (step_of (map_one K ar))"
  by (simp add: area_map_def)

lemma area_unmap_eq: "area_unmap K ar = kfor (page_range (area_range_tracker ar)) (step_of (unmap_one K ar))"
  by (simp add: area_unmap_def)

lemma pages_in_area:
  assumes "range_ok 0 (2 ^ 27) U (prt_start_vpn (area_range_tracker ar)) (prt_end_vpn (area_range_tracker ar)) u"
  shows "\<forall>v \<in> set (page_range (area_range_tracker ar)). in_area ar v" and "area_pages ar \<subseteq> {..<2 ^ 27}"
  using assms
  by (auto simp: set_page_range in_area_def range_contain_def range_ok_def area_pages_def
      intro: order.strict_trans2)

lemma area_drop_spec:
  assumes inv: "vm_inv K st R (a, s)" and ok: "area_ok K (a, s) ar"
  obtains a' s' where "area_drop K ar (a, s) = (Ok (), (a', s'))" and "vm_inv K st R (a', s')"
    and "unmapped_in K st (area_pages ar) s s'" and "pr_used a' = pr_used a - area_pages ar"
proof -
  let ?r = "area_range_tracker ar"
  have rg: "range_ok 0 (2 ^ 27) (pr_used a) (prt_start_vpn ?r) (prt_end_vpn ?r) False"
    and pm: "\<forall>v \<in> set (page_range ?r). page_mapped K (area_kind ar) s v"
    using ok by (auto simp: area_ok_def set_page_range area_pages_def)
  have K: "crates_ok K" and i: "pt_inv K st s" and pr: "pr_inv 0 (2 ^ 27) a"
    using inv by (auto simp: vm_inv_def)
  obtain s' where s': "area_unmap K ar s = (Ok (), s')" "unmapped_in K st (area_pages ar) s s'"
    using unmap_loop_mapped [OF i K pages_in_area(1) [OF rg] distinct_page_range pm]
    unfolding area_unmap_eq [symmetric] set_page_range area_pages_def by blast
  obtain a' where a': "range_dealloc (prt_start_vpn ?r) (prt_end_vpn ?r) a = (Ok (Some ()), a')"
    "pr_inv 0 (2 ^ 27) a'" "pr_used a' = pr_used a - area_pages ar"
    using pages.dealloc_ok [OF pr rg] by (auto simp: area_pages_def)
  have "area_drop K ar (a, s) = (Ok (), (a', s'))"
    using s'(1) a'(1) by (simp add: area_drop_def on_machine_def on_ranges_def range_tracker_drop_def
        kbind_def kunwrap_def kopt_def)
  moreover have "vm_inv K st R (a', s')"
  proof -
    have "x \<in> pr_used a - area_pages ar" if "x \<in> dom (pt_trackers (fst s'))" for x
    proof -
      have "x \<notin> area_pages ar" using that s'(2) by (auto simp: unmapped_in_def)
      then have "x \<in> dom (pt_trackers (fst s))" using that s'(2) by (auto simp: unmapped_in_def dom_def)
      then show ?thesis using \<open>x \<notin> area_pages ar\<close> inv by (auto simp: vm_inv_def)
    qed
    moreover have "vpn_view K s' v = None" if "v < 2 ^ 27" "v \<notin> pr_used a - area_pages ar" "v \<notin> R" for v
      using that inv s'(2) by (cases "v \<in> area_pages ar") (auto simp: vm_inv_def unmapped_in_def)
    ultimately show ?thesis using K a' s'(2) by (auto simp: vm_inv_def unmapped_in_def)
  qed
  ultimately show thesis using that s'(2) a'(3) by blast
qed

lemma mapped_vm_inv:
  assumes inv: "vm_inv K st R (a, s)" and m: "mapped_in K st k V s s'" and pr: "pr_inv 0 (2 ^ 27) a'"
    and used: "pr_used a' = pr_used a \<union> V"
  shows "vm_inv K st R (a', s')"
proof -
  have "x \<in> pr_used a \<union> V" if "x \<in> dom (pt_trackers (fst s'))" for x
  proof (rule ccontr)
    assume "x \<notin> pr_used a \<union> V"
    then have "x \<in> dom (pt_trackers (fst s))" using that m by (auto simp: mapped_in_def dom_def)
    then show False using inv \<open>x \<notin> pr_used a \<union> V\<close> by (auto simp: vm_inv_def)
  qed
  then show ?thesis using inv m pr used by (auto simp: vm_inv_def mapped_in_def)
qed

lemma area_new_spec:
  assumes inv: "vm_inv K st R (a, s)" and R: "{b..<e} \<inter> R = {}" and fl: "k = Framed \<longrightarrow> fl \<noteq> 0"
  obtains (created) a' s' where "area_new K b e fl k (a, s) = (Ok (area_of b e fl k), (a', s'))"
      and "range_ok 0 (2 ^ 27) (pr_used a) b e True" and "vm_inv K st R (a', s')"
      and "mapped_in K st k {b..<e} s s'" and "pr_used a' = pr_used a \<union> {b..<e}"
      and "area_ok K (a', s') (area_of b e fl k)" and "area_map K (area_of b e fl k) s = (Ok (), s')"
    | (refused) "area_new K b e fl k (a, s) = (Err (AreaAllocFailed b e), (a, s))"
      and "\<not> range_ok 0 (2 ^ 27) (pr_used a) b e True"
    | (exhausted) s1 s' where "area_new K b e fl k (a, s) = (Panic, s')"
      and "range_ok 0 (2 ^ 27) (pr_used a) b e True"
      and "area_map K (area_of b e fl k) s = (Err FrameExhausted, s1)"
proof -
  let ?ar = "area_of b e fl k" and ?r = "area_range_tracker (area_of b e fl k)"
  have K: "crates_ok K" and i: "pt_inv K st s" and pr: "pr_inv 0 (2 ^ 27) a"
    using inv by (auto simp: vm_inv_def)
  have can: "can_map K ?ar" using K fl by (simp add: can_map_def area_of_def)
  have kind [simp]: "area_kind ?ar = k" and ends: "prt_start_vpn ?r = b" "prt_end_vpn ?r = e"
    by (simp_all add: area_of_def)
  from pr show thesis
  proof (cases rule: pages.alloc_returns [of _ _ a b e])
    case (refused)
    then show thesis using that(2) by (simp add: area_new_def on_ranges_def kbind_def)
  next
    case (taken a')
    have rg: "range_ok 0 (2 ^ 27) (pr_used a) (prt_start_vpn ?r) (prt_end_vpn ?r) True"
      using taken(2) by (simp add: ends)
    note ia = pages_in_area [OF rg]
    have V: "set (page_range ?r) = {b..<e}" by (simp add: set_page_range ends)
    have run: "area_new K b e fl k (a, s) =
        kbind (on_error (on_machine (area_map K ?ar)) (area_drop K ?ar)) (\<lambda>_. kret ?ar) (a', s)"
      using taken(1) by (simp add: area_new_def on_ranges_def kbind_def area_of_def Let_def)
    have "v \<notin> pr_used a \<and> v \<notin> R \<and> v < 2 ^ 27" if "v \<in> {b..<e}" for v
      using that rg R ia(2) by (auto simp: range_ok_def ends area_pages_def)
    then have free: "pages_free K s (set (page_range ?r))"
      using inv unfolding V pages_free_def vm_inv_def by (auto simp: dom_def subset_iff)
    from i can ia(1) distinct_page_range free show thesis
    proof (cases rule: map_loop)
      case (mapped s')
      have mp: "mapped_in K st k {b..<e} s s'" using mapped(2) V by simp
      have "area_new K b e fl k (a, s) = (Ok ?ar, (a', s'))"
        using mapped(1) by (simp add: run area_map_eq on_error_def on_machine_def kbind_def)
      moreover have "area_ok K (a', s') ?ar"
        using mp rg taken(4) by (auto simp: area_ok_def mapped_in_def area_pages_def ends range_ok_def)
      ultimately show thesis
        using created mp mapped_vm_inv [OF inv mp taken(3,4)] taken(2,4) mapped(1) by (simp add: area_map_eq)
    next
      case (full xs v ys s1 s')
      have pm: "\<forall>x \<in> set xs. page_mapped K (area_kind ?ar) s' x"
        using full(3,5,6) by (auto simp: mapped_in_def page_mapped_def keeps_def split: area_mapping.splits)
      have "vpn_view K s v = None" "v < 2 ^ 27" "v \<notin> set xs"
        using free full(1) ia(1) distinct_page_range [of ?r] by (auto simp: pages_free_def in_area_def)
      then have nv: "vpn_view K s' v = None" using full(3,6) by (simp add: mapped_in_def)
      have "\<forall>v \<in> set (xs @ v # ys). in_area ?ar v" "distinct (xs @ v # ys)"
        using ia(1) distinct_page_range [of ?r] full(1) by simp_all
      from unmap_loop_gap [OF full(4) K this pm nv]
      obtain s2 where "area_unmap K ?ar s' = (Err (VPNNotMapped v), s2)"
        unfolding area_unmap_eq full(1) by blast
      then have "area_new K b e fl k (a, s) = (Panic, (a', s2))"
        using full(2) by (simp add: run area_map_eq on_error_def on_machine_def kbind_def area_drop_def kunwrap_def)
      then show thesis using exhausted taken(2) full(2) by (simp add: area_map_eq)
    qed
  qed
qed

section \<open>Properties\<close>

lemma sample_vm:
  assumes "16 < n" and "n \<le> 2 ^ 44"
  obtains a t m where "page_ranges_new 0 (2 ^ 27) = Ok a" and "page_table_new 1 (sample_machine n) = (Ok t, m)"
    and "vm_inv rust_crates 16 {} (a, t, m)" and "pr_used a = {}"
proof -
  obtain a where a: "page_ranges_new 0 (2 ^ 27) = Ok a"
    by (simp add: page_ranges_new_def new_node_def Let_def)
  obtain t m where t: "page_table_new 1 (sample_machine n) = (Ok t, m)" "pt_inv rust_crates 16 (t, m)"
    "\<forall>w. vpn_view rust_crates (t, m) w = None" "pt_trackers t = Map.empty"
    using sample_table [OF assms] by metis
  have "vm_inv rust_crates 16 {} (a, t, m)"
    using page_ranges_new_inv [OF a] t rust_crates_ok by (simp add: vm_inv_def)
  then show thesis using that a t(1) page_ranges_new_inv(2) [OF a] by blast
qed

lemma sample_area_map_ok:
  "case page_table_new 1 (sample_machine 32) of
     (Ok t, m) \<Rightarrow> is_ok (area_map rust_crates (area_of 5 7 6 Framed) (t, m))
   | _ \<Rightarrow> False"
  by code_simp

lemma sample_area:
  obtains a t m s' where "page_ranges_new 0 (2 ^ 27) = Ok a" and "page_table_new 1 (sample_machine 32) = (Ok t, m)"
    and "vm_inv rust_crates 16 {} (a, t, m)"
    and "area_new rust_crates 5 7 6 Framed (a, t, m) = (Ok (area_of 5 7 6 Framed), s')"
proof -
  obtain a t m where s: "page_ranges_new 0 (2 ^ 27) = Ok a" "page_table_new 1 (sample_machine 32) = (Ok t, m)"
    "vm_inv rust_crates 16 {} (a, t, m)" "pr_used a = {}"
    by (rule sample_vm [of 32]) simp_all
  have ok: "is_ok (area_map rust_crates (area_of 5 7 6 Framed) (t, m))"
    using sample_area_map_ok s(2) by simp
  have rg: "range_ok 0 (2 ^ 27) (pr_used a) 5 7 True" by (simp add: range_ok_def s(4))
  show thesis
    by (rule area_new_spec [OF s(3), of 5 7 Framed 6])
       (use that s rg ok in \<open>auto simp: is_ok_def\<close>)
qed

text \<open>
  Creating an area in a well-formed address space, away from the pages the space maps
  directly: on success the range was free, its pages are now mapped (to themselves, or to
  frames that were not in use and are zeroed), no other page, frame or range changed and the
  space is well-formed. A range that is not free is refused and nothing changes. The only other
  way it can end is that the frames run out while the pages are being mapped.
\<close>

theorem area_new_outcome:
  assumes "vm_inv K st R (a, s)" and "{b..<e} \<inter> R = {}" and "k = Framed \<longrightarrow> fl \<noteq> 0"
  shows "case area_new K b e fl k (a, s) of
      (Ok ar, a', s') \<Rightarrow> ar = area_of b e fl k \<and> {b..<e} \<inter> pr_used a = {} \<and>
        pr_used a' = pr_used a \<union> {b..<e} \<and> mapped_in K st k {b..<e} s s' \<and>
        vm_inv K st R (a', s') \<and> area_ok K (a', s') ar
    | (Err x, s') \<Rightarrow> x = AreaAllocFailed b e \<and> s' = (a, s) \<and>
        (e \<le> b \<or> 2 ^ 27 < e \<or> {b..<e} \<inter> pr_used a \<noteq> {})
    | (Panic, _) \<Rightarrow> fst (area_map K (area_of b e fl k) s) = Err FrameExhausted
    | (Hang, _) \<Rightarrow> False"
  using assms
  by (cases rule: area_new_spec) (auto simp: range_ok_def not_less not_le)

text \<open>
  Creating an area and dropping it: the drop does not panic and restores what the area
  changed, that is every translation and tracker, the set of allocated pages and the set of frames
  in use, whose contents are as they were.
\<close>

theorem area_new_drop_roundtrip:
  assumes "vm_inv K st R (a, s)" and "{b..<e} \<inter> R = {}" and "k = Framed \<longrightarrow> fl \<noteq> 0"
    and "area_new K b e fl k (a, s) = (Ok ar, (a', s'))"
  shows "\<exists>a'' s''. area_drop K ar (a', s') = (Ok (), (a'', s'')) \<and> vm_inv K st R (a'', s'') \<and>
    pr_used a'' = pr_used a \<and> (\<forall>w < 2 ^ 27. vpn_view K s'' w = vpn_view K s w) \<and>
    pt_trackers (fst s'') = pt_trackers (fst s) \<and> others st s'' = others st s \<and>
    (\<forall>p \<in> others st s. mem (snd s'') p = mem (snd s) p)"
proof -
  obtain n: "ar = area_of b e fl k" "range_ok 0 (2 ^ 27) (pr_used a) b e True" "vm_inv K st R (a', s')"
    "mapped_in K st k {b..<e} s s'" "pr_used a' = pr_used a \<union> {b..<e}" "area_ok K (a', s') ar"
    using assms(1-3) by (cases rule: area_new_spec) (use assms(4) in auto)
  have V: "area_pages ar = {b..<e}" by (simp add: n(1) area_of_def area_pages_def)
  obtain a'' s'' where d: "area_drop K ar (a', s') = (Ok (), (a'', s''))" "vm_inv K st R (a'', s'')"
    "unmapped_in K st {b..<e} s' s''" "pr_used a'' = pr_used a' - {b..<e}"
    by (rule area_drop_spec [OF n(3,6), unfolded V])
  have free: "\<forall>v \<in> {b..<e}. vpn_view K s v = None \<and> pt_trackers (fst s) v = None"
  proof
    fix v
    assume v: "v \<in> {b..<e}"
    then have u: "v \<notin> pr_used a" "v \<notin> R" "v < 2 ^ 27"
      using n(2) assms(2) by (auto simp: range_ok_def intro: order.strict_trans2)
    then have "v \<notin> dom (pt_trackers (fst s))" using assms(1) by (auto simp: vm_inv_def)
    then show "vpn_view K s v = None \<and> pt_trackers (fst s) v = None"
      using u assms(1) by (auto simp: vm_inv_def)
  qed
  have "pt_trackers (fst s'') w = pt_trackers (fst s) w" for w
    using free d(3) n(4) by (cases "w \<in> {b..<e}") (auto simp: mapped_in_def unmapped_in_def)
  moreover have "vpn_view K s'' w = vpn_view K s w" if "w < 2 ^ 27" for w
    using that free d(3) n(4) by (cases "w \<in> {b..<e}") (auto simp: mapped_in_def unmapped_in_def)
  moreover have oth: "others st s'' = others st s"
    using d(3) n(4) by (auto simp: mapped_in_def unmapped_in_def)
  moreover have "mem (snd s'') p = mem (snd s) p" if "p \<in> others st s" for p
    using that d(3) n(4) oth by (auto simp: mapped_in_def unmapped_in_def enlarges_def)
  moreover have "pr_used a'' = pr_used a" using d(4) n(2,5) by (auto simp: range_ok_def)
  ultimately show ?thesis using d(1,2) by auto
qed

text \<open>
  C35. When the frames run out while an area is being created, the creation panics instead of
  returning \<open>FrameExhausted\<close>: the half-mapped area is dropped, its drop unmaps every page of the
  range and unwraps the error of the first page that was never mapped.
\<close>

theorem area_new_exhausted_panics:
  assumes "vm_inv K st R (a, s)" and "{b..<e} \<inter> R = {}" and "k = Framed \<longrightarrow> fl \<noteq> 0"
    and "range_ok 0 (2 ^ 27) (pr_used a) b e True"
    and "fst (area_map K (area_of b e fl k) s) = Err FrameExhausted"
  shows "fst (area_new K b e fl k (a, s)) = Panic"
  using assms(1-3)
proof (cases rule: area_new_spec)
  case (created a' s')
  then show ?thesis using assms(5) by simp
qed (use assms(4) in simp_all)

theorem area_new_exhausted_panics_witness:
  "\<exists>a t m. page_ranges_new 0 (2 ^ 27) = Ok a \<and> page_table_new 1 (sample_machine 18) = (Ok t, m) \<and>
     fst (area_new rust_crates 5 7 6 Framed (a, t, m)) = Panic"
proof -
  have run: "case page_table_new 1 (sample_machine 18) of
       (Ok t, m) \<Rightarrow> (case fst (area_map rust_crates (area_of 5 7 6 Framed) (t, m)) of
          Err FrameExhausted \<Rightarrow> True | _ \<Rightarrow> False)
     | _ \<Rightarrow> False"
    by code_simp
  obtain a t m where s: "page_ranges_new 0 (2 ^ 27) = Ok a" "page_table_new 1 (sample_machine 18) = (Ok t, m)"
    "vm_inv rust_crates 16 {} (a, t, m)" "pr_used a = {}"
    by (rule sample_vm [of 18]) simp_all
  have "fst (area_map rust_crates (area_of 5 7 6 Framed) (t, m)) = Err FrameExhausted"
    using run s(2) by (auto split: outcome.splits kernel_error.splits)
  moreover have "range_ok 0 (2 ^ 27) (pr_used a) 5 7 True" by (simp add: range_ok_def s(4))
  ultimately show ?thesis
    using area_new_exhausted_panics [OF s(3), of 5 7 Framed 6] s(1,2) by auto
qed

end
