(* ===== verification/Area_Data.thy ===== *)
theory Area_Data
  imports Area_Spec
begin

text \<open>
  The contents of areas: \<open>write_multi_pages\<close> and \<open>copy_another\<close> against the bytes of the area
  seen as one linear array.
\<close>

section \<open>Bytes of a frame\<close>

lemma frame_write_other_frame: "q \<noteq> p \<Longrightarrow> frame_write p i bs M q = M q"
  by (induction bs arbitrary: i M) (simp_all add: frame_set_byte_def)

lemma frame_write_byte:
  "frame_byte (frame_write p i bs M) q j =
     (if q = p \<and> i \<le> j \<and> j < i + length bs then bs ! (j - i) else frame_byte M q j)"
proof (induction bs arbitrary: i M)
  case Nil
  then show ?case by auto
next
  case (Cons b bs)
  show ?case
  proof (cases "q = p \<and> j = i")
    case True
    then show ?thesis using Cons by (simp add: frame_byte_set_same)
  next
    case False
    then have "frame_byte (frame_set_byte p i b M) q j = frame_byte M q j"
      by (intro frame_byte_set_other) auto
    then show ?thesis using Cons [of "Suc i"] False by (auto simp: nth_Cons' Suc_le_eq)
  qed
qed

section \<open>The bytes of an area\<close>

abbreviation first_page :: "area \<Rightarrow> usize" where
  "first_page ar \<equiv> prt_start_vpn (area_range_tracker ar)"

abbreviation last_page :: "area \<Rightarrow> usize" where
  "last_page ar \<equiv> prt_end_vpn (area_range_tracker ar)"

definition area_bytes :: "area \<Rightarrow> nat" where
  "area_bytes ar = (unat (last_page ar) - unat (first_page ar)) * 4096"

definition page_of_byte :: "area \<Rightarrow> nat \<Rightarrow> usize" where
  "page_of_byte ar n = first_page ar + of_nat (n div 4096)"

definition area_byte :: "area \<Rightarrow> pt_state \<Rightarrow> nat \<Rightarrow> u8" where
  "area_byte ar s n = frame_byte (mem (snd s)) (the (pt_trackers (fst s) (page_of_byte ar n))) (n mod 4096)"

definition framed_area :: "area \<Rightarrow> pt_state \<Rightarrow> bool" where
  "framed_area ar s \<longleftrightarrow> area_kind ar = Framed \<and> first_page ar \<le> last_page ar \<and> last_page ar \<le> 2 ^ 27 \<and>
     area_pages ar \<subseteq> dom (pt_trackers (fst s)) \<and> inj_on (pt_trackers (fst s)) (dom (pt_trackers (fst s)))"

lemma area_ok_framed:
  assumes "vm_inv K st R (a, s)" and "area_ok K (a, s) ar" and "area_kind ar = Framed"
  shows "framed_area ar s"
proof -
  have "v \<in> dom (pt_trackers (fst s))" if "v \<in> area_pages ar" for v
    using assms(2,3) that by (auto simp: area_ok_def page_mapped_def)
  moreover have "inj_on (pt_trackers (fst s)) (dom (pt_trackers (fst s)))"
    using assms(1) by (cases s) (auto simp: vm_inv_def pt_inv_def frames_ok_def)
  ultimately show ?thesis
    using assms(2,3) by (auto simp: framed_area_def area_ok_def range_ok_def)
qed

lemma unat_page_of_byte:
  assumes "framed_area ar s" and "n < area_bytes ar"
  shows "unat (page_of_byte ar n) = unat (first_page ar) + n div 4096" and "page_of_byte ar n \<in> area_pages ar"
proof -
  have le: "unat (last_page ar) \<le> 2 ^ 27"
    using assms(1) unat_pow2 [of 27] by (simp add: framed_area_def word_le_nat_alt)
  have d: "n div 4096 < unat (last_page ar) - unat (first_page ar)"
    using assms(2) by (simp add: area_bytes_def less_mult_imp_div_less)
  then show u: "unat (page_of_byte ar n) = unat (first_page ar) + n div 4096"
    using le by (simp add: page_of_byte_def unat_word_ariths unat_of_nat)
  show "page_of_byte ar n \<in> area_pages ar"
    using u d by (simp add: area_pages_def word_le_nat_alt word_less_nat_alt)
qed

lemma page_of_byte_tracked:
  assumes "framed_area ar s" and "n < area_bytes ar"
  obtains f where "pt_trackers (fst s) (page_of_byte ar n) = Some f" and "f \<in> frames_of s (area_pages ar)"
proof -
  have "page_of_byte ar n \<in> area_pages ar" by (rule unat_page_of_byte [OF assms])
  then obtain f where f: "pt_trackers (fst s) (page_of_byte ar n) = Some f"
    using assms(1) by (auto simp: framed_area_def)
  then have "f \<in> frames_of s (area_pages ar)"
    using \<open>page_of_byte ar n \<in> area_pages ar\<close> unfolding frames_of_def ran_def restrict_map_def by force
  then show thesis using that f by blast
qed

lemma same_frame_iff:
  assumes "framed_area ar s" and "n < area_bytes ar" and "k < area_bytes ar"
    and "pt_trackers (fst s) (page_of_byte ar k) = Some f"
  shows "the (pt_trackers (fst s) (page_of_byte ar n)) = f \<longleftrightarrow> n div 4096 = k div 4096"
proof
  assume eq: "the (pt_trackers (fst s) (page_of_byte ar n)) = f"
  obtain g where "pt_trackers (fst s) (page_of_byte ar n) = Some g"
    using page_of_byte_tracked [OF assms(1,2)] by blast
  then have "page_of_byte ar n = page_of_byte ar k"
    using eq assms(1,4) by (auto simp: framed_area_def inj_on_def dom_def)
  then show "n div 4096 = k div 4096"
    using unat_page_of_byte(1) [OF assms(1,2)] unat_page_of_byte(1) [OF assms(1,3)] by simp
next
  assume "n div 4096 = k div 4096"
  then show "the (pt_trackers (fst s) (page_of_byte ar n)) = f"
    using assms(4) by (simp add: page_of_byte_def)
qed

text \<open>Bytes written to a frame of the area, within one page.\<close>

lemma area_byte_write:
  assumes fa: "framed_area ar (t, m)" and n: "n < area_bytes ar" and k: "k < area_bytes ar"
    and f: "pt_trackers t (page_of_byte ar k) = Some f" and fit: "k mod 4096 + length bs \<le> 4096"
  shows "area_byte ar (t, m\<lparr>mem := frame_write f (k mod 4096) bs (mem m)\<rparr>) n =
     (if k \<le> n \<and> n < k + length bs then bs ! (n - k) else area_byte ar (t, m) n)"
proof (cases "n div 4096 = k div 4096")
  case True
  then have "the (pt_trackers t (page_of_byte ar n)) = f"
    using same_frame_iff [OF fa n k] f by simp
  moreover have "k mod 4096 \<le> n mod 4096 \<longleftrightarrow> k \<le> n" "n mod 4096 < k mod 4096 + length bs \<longleftrightarrow> n < k + length bs"
    "k \<le> n \<Longrightarrow> n mod 4096 - k mod 4096 = n - k"
    using True div_mult_mod_eq [of n 4096] div_mult_mod_eq [of k 4096] by linarith+
  ultimately show ?thesis by (auto simp: area_byte_def frame_write_byte)
next
  case False
  then have "the (pt_trackers t (page_of_byte ar n)) \<noteq> f"
    using same_frame_iff [OF fa n k] f by simp
  moreover have "\<not> (k \<le> n \<and> n < k + length bs)"
  proof
    assume kn: "k \<le> n \<and> n < k + length bs"
    then have "k div 4096 \<le> n div 4096" by (simp add: div_le_mono)
    moreover have "n < (k div 4096) * 4096 + 4096" using kn fit div_mult_mod_eq [of k 4096] by linarith
    then have "n div 4096 < k div 4096 + 1" by (simp add: div_less_iff_less_mult)
    ultimately show False using False by simp
  qed
  ultimately show ?thesis by (auto simp: area_byte_def frame_write_byte)
qed

section \<open>Writing over several pages\<close>

lemma framed_area_bound: "framed_area ar s \<Longrightarrow> area_bytes ar \<le> 2 ^ 39"
proof -
  assume "framed_area ar s"
  then have "unat (last_page ar) \<le> 2 ^ 27"
    using unat_pow2 [of 27] by (simp add: framed_area_def word_le_nat_alt)
  then show ?thesis by (simp add: area_bytes_def)
qed

lemma write_page_spec:
  assumes fa: "framed_area ar (t, m)" and k: "k < area_bytes ar"
    and fit: "k mod 4096 + length bs \<le> 4096"
  obtains f where "pt_trackers t (page_of_byte ar k) = Some f" and "f \<in> frames_of (t, m) (area_pages ar)"
    and "write_page ar (page_of_byte ar k) (of_nat (k mod 4096)) bs (t, m) =
           (Ok (), (t, m\<lparr>mem := frame_write f (k mod 4096) bs (mem m)\<rparr>))"
proof -
  obtain f where f: "pt_trackers t (page_of_byte ar k) = Some f" "f \<in> frames_of (t, m) (area_pages ar)"
    using page_of_byte_tracked [OF fa k] by auto
  have bnd: "length bs < 2 ^ 64" using fit by simp
  have u: "unat (of_nat (k mod 4096) + of_nat (length bs) :: usize) = k mod 4096 + length bs"
    using fit by (simp add: unat_word_ariths unat_of_nat)
  have "(of_nat (k mod 4096) :: usize) \<le> of_nat (k mod 4096) + of_nat (length bs)"
    "of_nat (k mod 4096) + of_nat (length bs) \<le> MEMORY_PAGE_BYTE_SIZE"
    using u fit by (simp_all add: word_le_nat_alt unat_of_nat MEMORY_PAGE_BYTE_SIZE_def)
  moreover have "unat (of_nat (k mod 4096) :: usize) = k mod 4096" by (simp add: unat_of_nat)
  ultimately have "write_page ar (page_of_byte ar k) (of_nat (k mod 4096)) bs (t, m) =
      (Ok (), (t, m\<lparr>mem := frame_write f (k mod 4096) bs (mem m)\<rparr>))"
    using fa f(1)
    by (simp add: write_page_def framed_area_def klift_def area_get_byte_array_def get_tracker_with_def kbind_def)
  then show thesis using that f by blast
qed

text \<open>One round of the loop, in unbounded integers.\<close>

lemma slice_part:
  assumes "o' \<le> l" and "l \<le> E" and "E \<le> o' + length data" and "o' + length data < 2 ^ 64"
  shows "slice data (of_nat l - of_nat o') (of_nat E - of_nat o') = Some (take (E - l) (drop (l - o') data))"
proof -
  have d: "unat (of_nat x - of_nat o' :: usize) = x - o'" if "o' \<le> x" "x < 2 ^ 64" for x
  proof -
    have "(of_nat x - of_nat o' :: usize) = of_nat (x - o')" using that by simp
    then show ?thesis using that by (simp only: unat_of_nat) simp
  qed
  have "unat (of_nat l - of_nat o' :: usize) = l - o'" "unat (of_nat E - of_nat o' :: usize) = E - o'"
    using assms by (auto intro!: d)
  moreover have "E - o' - (l - o') = E - l" "l - o' \<le> E - o'" "E - o' \<le> length data"
    using assms by linarith+
  ultimately show ?thesis by (simp add: slice_def word_le_nat_alt)
qed

text \<open>The bytes \<open>[l, r)\<close> of the area have been set to \<open>data\<close>, which starts at \<open>o'\<close>.\<close>

definition bytes_set :: "area \<Rightarrow> nat \<Rightarrow> nat \<Rightarrow> nat \<Rightarrow> u8 list \<Rightarrow> pt_state \<Rightarrow> pt_state \<Rightarrow> bool" where
  "bytes_set ar o' l r data s s' \<longleftrightarrow>
     fst s' = fst s \<and> frame_allocator (snd s') = frame_allocator (snd s) \<and>
     (\<forall>n < area_bytes ar. area_byte ar s' n = (if l \<le> n \<and> n < r then data ! (n - o') else area_byte ar s n)) \<and>
     (\<forall>q. q \<notin> frames_of s (area_pages ar) \<longrightarrow> mem (snd s') q = mem (snd s) q)"

lemma bytes_set_trans:
  assumes "bytes_set ar o' l E data s s1" and "bytes_set ar o' E r data s1 s'" and "l \<le> E" and "E \<le> r"
  shows "bytes_set ar o' l r data s s'"
proof -
  have "frames_of s1 (area_pages ar) = frames_of s (area_pages ar)"
    using assms(1) by (simp add: bytes_set_def frames_of_def)
  then show ?thesis using assms by (auto simp: bytes_set_def)
qed

lemma write_loop_spec:
  assumes "framed_area ar s" and "o' + length data \<le> area_bytes ar" and "o' \<le> l" and "l \<le> o' + length data"
    and "l mod 4096 = 0 \<or> l mod 4096 + (o' + length data - l) \<le> 4096"
  shows "\<exists>s'. write_loop ar (of_nat o') (of_nat (o' + length data)) data (of_nat l) s = Some (Ok (), s') \<and>
     bytes_set ar o' l (o' + length data) data s s'"
  using assms
proof (induction "o' + length data - l" arbitrary: l s rule: less_induct)
  case less
  let ?r = "o' + length data"
  have bnd: "?r < 2 ^ 64" using framed_area_bound [OF less.prems(1)] less.prems(2) by simp
  have un: "unat (of_nat x :: usize) = x" if "x \<le> ?r + 4096" for x
    using that bnd framed_area_bound [OF less.prems(1)] less.prems(2) by (simp add: unat_of_nat)
  show ?case
  proof (cases "l < ?r")
    case False
    then have "write_loop ar (of_nat o') (of_nat ?r) data (of_nat l) s = Some (Ok (), s)"
      using less.prems un [of l] un [of ?r]
      by (subst write_loop.simps) (simp add: word_less_nat_alt del: of_nat_add)
    then show ?thesis using False by (auto simp: bytes_set_def)
  next
    case True
    define E where "E = min ?r (l + 4096)"
    define src where "src = take (E - l) (drop (l - o') data)"
    have E: "l < E" "E \<le> ?r" "E - l \<le> 4096" using True by (auto simp: E_def)
    have len: "length src = E - l" using E less.prems(3) by (simp add: src_def)
    have fit: "l mod 4096 + length src \<le> 4096" using less.prems(5) E len by linarith
    have l: "l < area_bytes ar" using True less.prems(2) by simp
    obtain t m where s: "s = (t, m)" by (cases s)
    obtain f where f: "pt_trackers t (page_of_byte ar l) = Some f" "f \<in> frames_of (t, m) (area_pages ar)"
      and wp: "write_page ar (page_of_byte ar l) (of_nat (l mod 4096)) src (t, m) =
           (Ok (), (t, m\<lparr>mem := frame_write f (l mod 4096) src (mem m)\<rparr>))"
      by (rule write_page_spec [OF less.prems(1) [unfolded s] l fit])
    let ?s1 = "(t, m\<lparr>mem := frame_write f (l mod 4096) src (mem m)\<rparr>)"
    have set1: "bytes_set ar o' l E data s ?s1"
    proof -
      have "src ! (n - l) = data ! (n - o')" if "l \<le> n" "n < E" for n
        using that E less.prems(3) by (simp add: src_def)
      moreover have "frame_write f (l mod 4096) src (mem m) q = mem m q"
        if "q \<notin> frames_of (t, m) (area_pages ar)" for q
        using that f(2) by (intro frame_write_other_frame) blast
      ultimately show ?thesis
        using area_byte_write [OF less.prems(1) [unfolded s] _ l f(1) fit] len E
        by (auto simp: bytes_set_def s)
    qed
    have fa1: "framed_area ar ?s1" using less.prems(1) s by (simp add: framed_area_def)
    have al: "E mod 4096 = 0 \<or> E mod 4096 + (?r - E) \<le> 4096"
      using less.prems(5) by (auto simp: E_def min_def mod_le_divisor)
    have rest: "\<exists>s'. write_loop ar (of_nat o') (of_nat ?r) data (of_nat E) ?s1 = Some (Ok (), s') \<and>
       bytes_set ar o' E ?r data ?s1 s'"
      by (rule less.hyps [OF _ fa1 less.prems(2) _ _ al]) (use E True less.prems(3) in auto)
    have dv: "(of_nat l :: usize) div MEMORY_PAGE_BYTE_SIZE = of_nat (l div 4096)"
      "(of_nat l :: usize) mod MEMORY_PAGE_BYTE_SIZE = of_nat (l mod 4096)"
      using un [of l] True unfolding MEMORY_PAGE_BYTE_SIZE_def
      by (simp_all add: word_unat_eq_iff unat_div_distrib unat_mod_distrib unat_of_nat)
    have "(of_nat l + MEMORY_PAGE_BYTE_SIZE :: usize) = of_nat (l + 4096)"
      by (simp add: MEMORY_PAGE_BYTE_SIZE_def)
    then have mn: "min (of_nat ?r) (of_nat l + MEMORY_PAGE_BYTE_SIZE) = (of_nat E :: usize)"
      using un [of ?r] un [of "l + 4096"] True unfolding E_def min_def
      by (simp add: word_le_nat_alt del: of_nat_add)
    have pg: "of_nat (l div 4096) + first_page ar = page_of_byte ar l" by (simp add: page_of_byte_def)
    have lt: "(of_nat l :: usize) < of_nat ?r"
      using un [of l] un [of ?r] True by (simp add: word_less_nat_alt del: of_nat_add)
    have "slice data (of_nat l - of_nat o') (of_nat E - of_nat o') = Some src"
      unfolding src_def by (rule slice_part) (use E less.prems(3) bnd in auto)
    then have "write_loop ar (of_nat o') (of_nat ?r) data (of_nat l) s =
        write_loop ar (of_nat o') (of_nat ?r) data (of_nat E) ?s1"
      using lt wp by (subst write_loop.simps) (simp add: Let_def dv mn pg s del: of_nat_add)
    then show ?thesis using rest bytes_set_trans [OF set1] E by auto
  qed
qed

lemma write_multi_pages_loop:
  assumes "framed_area ar s" and "unat offset + length data \<le> area_bytes ar"
  shows "write_multi_pages ar offset data s =
     (case write_loop ar (of_nat (unat offset)) (of_nat (unat offset + length data)) data (of_nat (unat offset)) s of
        Some r \<Rightarrow> r | None \<Rightarrow> (Hang, s))"
proof -
  have "unat (last_page ar - first_page ar) = unat (last_page ar) - unat (first_page ar)"
    using assms(1) by (simp add: framed_area_def unat_sub)
  moreover have "unat (d * MEMORY_PAGE_BYTE_SIZE) = unat d * 4096" if "unat d * 4096 \<le> 2 ^ 39" for d
    using that by (simp add: MEMORY_PAGE_BYTE_SIZE_def unat_word_ariths)
  ultimately have "unat (range_byte_size (area_range_tracker ar)) = area_bytes ar"
    using framed_area_bound [OF assms(1)] unfolding range_byte_size_def area_bytes_def by metis
  moreover have "unat (of_nat (length data) + offset) = unat offset + length data"
    using framed_area_bound [OF assms(1)] assms(2) by (simp add: unat_word_ariths unat_of_nat)
  ultimately have "of_nat (length data) + offset \<le> range_byte_size (area_range_tracker ar)"
    using assms(2) by (simp add: word_le_nat_alt)
  then show ?thesis by (simp add: write_multi_pages_def Let_def add.commute)
qed

lemma write_multi_pages_crossing:
  assumes fa: "framed_area ar s" and fits: "unat offset + length data \<le> area_bytes ar"
    and "unat offset mod 4096 \<noteq> 0" and "4096 < unat offset mod 4096 + length data"
  shows "write_multi_pages ar offset data s = (Panic, s)"
proof -
  let ?l = "unat offset" and ?r = "unat offset + length data"
  define E where "E = min ?r (?l + 4096)"
  define src where "src = take (E - ?l) (drop 0 data)"
  have bnd: "?r + 4096 < 2 ^ 64" using framed_area_bound [OF fa] fits by simp
  have "?l mod 4096 < 4096" by simp
  then have pos: "0 < length data" using assms(4) by linarith
  have E: "?l < E" "E \<le> ?r" "4096 < ?l mod 4096 + (E - ?l)" "E - ?l \<le> 4096"
    using assms(3,4) pos by (auto simp: E_def min_def)
  have len: "length src = E - ?l" using E by (simp add: src_def)
  have l: "?l < area_bytes ar" using E fits by linarith
  obtain t m where s: "s = (t, m)" by (cases s)
  obtain f where f: "pt_trackers t (page_of_byte ar ?l) = Some f"
    using page_of_byte_tracked [OF fa l] s by auto
  have "unat (of_nat (?l mod 4096) + of_nat (length src) :: usize) = ?l mod 4096 + length src"
    using E(4) len by (simp add: unat_word_ariths unat_of_nat)
  then have "\<not> of_nat (?l mod 4096) + of_nat (length src) \<le> MEMORY_PAGE_BYTE_SIZE"
    using E(3) len by (simp add: word_le_nat_alt MEMORY_PAGE_BYTE_SIZE_def)
  then have wp: "write_page ar (page_of_byte ar ?l) (of_nat (?l mod 4096)) src (t, m) = (Panic, (t, m))"
    using f fa
    by (simp add: write_page_def framed_area_def klift_def area_get_byte_array_def get_tracker_with_def kbind_def)
  have dv: "offset div MEMORY_PAGE_BYTE_SIZE = of_nat (?l div 4096)"
    "offset mod MEMORY_PAGE_BYTE_SIZE = of_nat (?l mod 4096)"
    using order.strict_trans1 [OF div_le_dividend unsigned_less, of offset 4096]
    unfolding MEMORY_PAGE_BYTE_SIZE_def
    by (simp_all add: word_unat_eq_iff unat_div_distrib unat_mod_distrib unat_of_nat)
  have un: "unat (of_nat x :: usize) = x" if "x \<le> ?r + 4096" for x
    using that bnd by (simp add: unat_of_nat)
  have "offset + MEMORY_PAGE_BYTE_SIZE = of_nat (?l + 4096)"
    by (simp add: MEMORY_PAGE_BYTE_SIZE_def)
  then have mn: "min (of_nat ?r) (offset + MEMORY_PAGE_BYTE_SIZE) = (of_nat E :: usize)"
    using un [of ?r] un [of "?l + 4096"] unfolding E_def min_def
    by (simp add: word_le_nat_alt del: of_nat_add)
  have lt: "offset < of_nat ?r"
    using un [of ?r] pos by (simp add: word_less_nat_alt del: of_nat_add)
  have pg: "of_nat (?l div 4096) + first_page ar = page_of_byte ar ?l" by (simp add: page_of_byte_def)
  have sl: "slice data (offset - offset) (of_nat E - offset) = Some src"
    using slice_part [of ?l ?l E data] E bnd by (simp add: src_def)
  have "write_loop ar offset (of_nat ?r) data offset s = Some (Panic, s)"
    using lt wp sl by (subst write_loop.simps) (simp add: Let_def dv mn pg s del: of_nat_add)
  then show ?thesis using write_multi_pages_loop [OF fa fits] by simp
qed

section \<open>Copying an area\<close>

definition page_frame :: "page_table \<Rightarrow> area \<Rightarrow> nat \<Rightarrow> usize" where
  "page_frame t ar j = the (pt_trackers t (first_page ar + of_nat j))"

text \<open>
  The pages \<open>[i, c)\<close> of \<open>ar\<close> have been overwritten with those of another area, whose frames are
  read through the page table \<open>t'\<close>; no other frame has changed.
\<close>

definition pages_copied :: "page_table \<Rightarrow> area \<Rightarrow> area \<Rightarrow> nat \<Rightarrow> nat \<Rightarrow> pt_state \<Rightarrow> pt_state \<Rightarrow> bool" where
  "pages_copied t' ar another i c s s' \<longleftrightarrow>
     fst s' = fst s \<and> frame_allocator (snd s') = frame_allocator (snd s) \<and>
     (\<forall>j \<in> {i..<c}. mem (snd s') (page_frame (fst s) ar j) = mem (snd s) (page_frame t' another j)) \<and>
     (\<forall>q. q \<notin> page_frame (fst s) ar ` {i..<c} \<longrightarrow> mem (snd s') q = mem (snd s) q)"

definition page_count :: "area \<Rightarrow> nat" where
  "page_count ar = unat (last_page ar) - unat (first_page ar)"

lemma page_tracked:
  assumes "framed_area ar s" and "j < page_count ar"
  shows "pt_trackers (fst s) (first_page ar + of_nat j) = Some (page_frame (fst s) ar j)"
    and "page_frame (fst s) ar j \<in> frames_of s (area_pages ar)"
proof -
  have "j * 4096 < area_bytes ar" using assms(2) by (simp add: area_bytes_def page_count_def)
  moreover have pg: "page_of_byte ar (j * 4096) = first_page ar + of_nat j"
    by (simp add: page_of_byte_def)
  ultimately obtain f where f: "pt_trackers (fst s) (first_page ar + of_nat j) = Some f"
    "f \<in> frames_of s (area_pages ar)"
    using page_of_byte_tracked [OF assms(1)] by metis
  then have "page_frame (fst s) ar j = f" by (simp add: page_frame_def)
  then show "pt_trackers (fst s) (first_page ar + of_nat j) = Some (page_frame (fst s) ar j)"
    "page_frame (fst s) ar j \<in> frames_of s (area_pages ar)"
    using f by simp_all
qed

lemma page_frame_inj:
  assumes "framed_area ar s" and "i < page_count ar" and "j < page_count ar" and "i \<noteq> j"
  shows "page_frame (fst s) ar i \<noteq> page_frame (fst s) ar j"
proof -
  have lt: "i * 4096 < area_bytes ar" "j * 4096 < area_bytes ar"
    using assms(2,3) by (simp_all add: area_bytes_def page_count_def)
  have pg: "page_of_byte ar (j * 4096) = first_page ar + of_nat j" for j
    by (simp add: page_of_byte_def)
  have "pt_trackers (fst s) (page_of_byte ar (j * 4096)) = Some (page_frame (fst s) ar j)"
    unfolding pg by (rule page_tracked(1) [OF assms(1,3)])
  from same_frame_iff [OF assms(1) lt this]
  have "the (pt_trackers (fst s) (page_of_byte ar (i * 4096))) = page_frame (fst s) ar j \<longleftrightarrow> i = j"
    unfolding nonzero_mult_div_cancel_right [OF numeral_neq_zero] .
  then show ?thesis using assms(4) unfolding pg page_frame_def [symmetric] by blast
qed

abbreviation copy_page :: "area \<Rightarrow> page_table \<Rightarrow> area \<Rightarrow> usize \<Rightarrow> (pt_state, unit) kop" where
  "copy_page ar t' another \<equiv> \<lambda>offset.
     kbind (klift (area_get_byte_array (first_page another + offset) t')) (\<lambda>src.
     kbind (\<lambda>(t, m). klift (area_get_byte_array (first_page ar + offset) t) (t, m)) (\<lambda>dst.
     copy_frame dst src))"

lemma copy_loop:
  assumes "framed_area ar s" and "framed_area another (t', m')" and "c \<le> page_count ar" and "c \<le> page_count another"
    and "frames_of (t', m') (area_pages another) \<inter> frames_of s (area_pages ar) = {}" and "i \<le> c"
  shows "\<exists>s'. kfor (map of_nat [i..<c]) (copy_page ar t' another) s = (Ok (), s') \<and>
           pages_copied t' ar another i c s s'"
  using assms
proof (induction "c - i" arbitrary: i s)
  case 0
  then show ?case by (auto simp: pages_copied_def)
next
  case (Suc d)
  have i: "i < c" using Suc.hyps(2) by simp
  obtain t m where s: "s = (t, m)" by (cases s)
  let ?f = "page_frame t ar" and ?g = "page_frame t' another"
  let ?s1 = "(t, m\<lparr>mem := (mem m)(?f i := mem m (?g i))\<rparr>)"
  have f: "pt_trackers t (first_page ar + of_nat i) = Some (?f i)"
    using page_tracked(1) [OF Suc.prems(1), of i] i Suc.prems(3) s by simp
  have g: "pt_trackers t' (first_page another + of_nat i) = Some (?g i)"
    using page_tracked(1) [OF Suc.prems(2), of i] i Suc.prems(4) by simp
  have "copy_page ar t' another (of_nat i) s = (Ok (), ?s1)"
    using f g by (simp add: s klift_def area_get_byte_array_def get_tracker_with_def copy_frame_def kbind_def)
  then have run: "kfor (map of_nat [i..<c]) (copy_page ar t' another) s =
      kfor (map of_nat [Suc i..<c]) (copy_page ar t' another) ?s1"
    unfolding upt_conv_Cons [OF i] list.map kfor.simps by (rule kbind_Ok)
  have "\<exists>s'. kfor (map of_nat [Suc i..<c]) (copy_page ar t' another) ?s1 = (Ok (), s') \<and>
           pages_copied t' ar another (Suc i) c ?s1 s'"
    by (rule Suc.hyps(1)) (use Suc.hyps(2) Suc.prems s in \<open>auto simp: framed_area_def frames_of_def\<close>)
  then obtain s' where s': "kfor (map of_nat [Suc i..<c]) (copy_page ar t' another) ?s1 = (Ok (), s')"
    and cp: "pages_copied t' ar another (Suc i) c ?s1 s'" by blast
  have "?f i \<noteq> ?f j" if "j \<in> {Suc i..<c}" for j
    using page_frame_inj [OF Suc.prems(1), of i j] i Suc.prems(3) s that by simp
  then have fi: "?f i \<notin> ?f ` {Suc i..<c}" by blast
  have gi: "?g j \<noteq> ?f i" if "j < c" for j
  proof -
    have "?g j \<in> frames_of (t', m') (area_pages another)"
      using page_tracked(2) [OF Suc.prems(2), of j] Suc.prems(4) that by simp
    moreover have "?f i \<in> frames_of s (area_pages ar)"
      using page_tracked(2) [OF Suc.prems(1), of i] Suc.prems(3) i s by simp
    ultimately show ?thesis using Suc.prems(5) by auto
  qed
  have "pages_copied t' ar another i c s s'"
    unfolding pages_copied_def
  proof (intro conjI ballI allI impI)
    fix j assume j: "j \<in> {i..<c}"
    show "mem (snd s') (page_frame (fst s) ar j) = mem (snd s) (?g j)"
    proof (cases "j = i")
      case True
      then show ?thesis using cp fi by (auto simp: pages_copied_def s)
    next
      case False
      then show ?thesis using cp j gi [of j] by (auto simp: pages_copied_def s)
    qed
  next
    fix q assume "q \<notin> page_frame (fst s) ar ` {i..<c}"
    then have "q \<noteq> ?f i" "q \<notin> ?f ` {Suc i..<c}" using i s by auto
    then show "mem (snd s') q = mem (snd s) q" using cp by (auto simp: pages_copied_def s)
  qed (use cp in \<open>auto simp: pages_copied_def s\<close>)
  then show ?case using run s' by auto
qed

text \<open>Writing to the frames of an area leaves the page table well-formed.\<close>

lemma data_write_inv:
  assumes inv: "vm_inv K st R (a, t, m)" and alloc: "frame_allocator m' = frame_allocator m"
    and same: "\<And>q. q \<notin> ran (pt_trackers t) \<Longrightarrow> mem m' q = mem m q"
  shows "vm_inv K st R (a, t, m')" and "vpn_view K (t, m') = vpn_view K (t, m)"
proof -
  have i: "pt_inv K st (t, m)" using inv by (simp add: vm_inv_def)
  then have fo: "frames_ok st t m" by (simp add: pt_inv_def)
  then have "frames_ok st t m'" using alloc by (simp add: frames_ok_def)
  moreover have "mem m' p = mem m p" if "p \<in> pt_nodes t" for p
    using that fo same by (auto simp: frames_ok_def)
  ultimately have ch: "pt_inv K st (t, m')" "pt_look K (t, m') = pt_look K (t, m)"
    using machine_change_inv [OF i] by blast+
  then show v: "vpn_view K (t, m') = vpn_view K (t, m)" using vpn_view_cong by blast
  show "vm_inv K st R (a, t, m')" using inv ch(1) v by (simp add: vm_inv_def)
qed

lemma frames_of_ran: "frames_of s V \<subseteq> ran (pt_trackers (fst s))"
  by (auto simp: frames_of_def ran_def restrict_map_def split: if_splits)

lemma copy_another_spec:
  assumes "framed_area ar s" and "framed_area another (t', m')" and "page_count another = page_count ar"
    and "frames_of (t', m') (area_pages another) \<inter> frames_of s (area_pages ar) = {}"
  obtains s' where "copy_another ar t' another s = (Ok (last_page ar - first_page ar), s')"
    and "pages_copied t' ar another 0 (page_count ar) s s'"
proof -
  have cnt: "unat (last_page x - first_page x) = page_count x" if "framed_area x y" for x y
    using that by (simp add: framed_area_def page_count_def unat_sub)
  then have eq: "last_page another - first_page another = last_page ar - first_page ar"
    using assms(1-3) by (metis word_unat_eq_iff)
  obtain s' where s': "kfor (map of_nat [0..<page_count ar]) (copy_page ar t' another) s = (Ok (), s')"
    "pages_copied t' ar another 0 (page_count ar) s s'"
    using copy_loop [OF assms(1,2) _ _ assms(4), of "page_count ar" 0] assms(3) by auto
  have "copy_another ar t' another s = (Ok (last_page ar - first_page ar), s')"
    using s'(1) cnt [OF assms(1)] by (simp add: copy_another_def area_range_def eq)
  then show thesis using that s'(2) by blast
qed

lemma area_from_another_cases:
  assumes "area_new K (first_page another) (last_page another) (area_flags another) (area_kind another) (a, s) = r"
  shows "(case r of
      (Ok ar, a', s') \<Rightarrow>
        (\<forall>c s''. copy_another ar t' another s' = (Ok c, s'') \<longrightarrow>
           area_from_another K t' another (a, s) = (Ok ar, a', s''))
    | (Err x, z) \<Rightarrow> area_from_another K t' another (a, s) = (Err x, z)
    | (Panic, z) \<Rightarrow> area_from_another K t' another (a, s) = (Panic, z)
    | (Hang, z) \<Rightarrow> True)"
proof -
  define ar where "ar = area_of (first_page another) (last_page another) (area_flags another) (area_kind another)"
  let ?al = "on_ranges (range_alloc (first_page another) (last_page another))"
  let ?new = "kbind (on_error (on_machine (area_map K ar)) (area_drop K ar)) (\<lambda>_. kret ar)"
  let ?from = "kbind (on_error (on_machine (kbind (area_map K ar) (\<lambda>_. copy_another ar t' another)))
     (area_drop K ar)) (\<lambda>_. kret ar)"
  have new: "r = kbind ?al (\<lambda>x. case x of None \<Rightarrow> kerr (AreaAllocFailed (first_page another) (last_page another))
      | Some _ \<Rightarrow> ?new) (a, s)"
    unfolding assms [symmetric] area_new_def ar_def area_of_def Let_def ..
  have old: "area_from_another K t' another (a, s) =
      kbind ?al (\<lambda>x. case x of None \<Rightarrow> kerr (AreaAllocFailed (first_page another) (last_page another))
      | Some _ \<Rightarrow> ?from) (a, s)"
    unfolding area_from_another_def ar_def area_of_def Let_def area_range_def prod.case ..
  have step: "case ?new z of
      (Ok ar', a', s') \<Rightarrow> (\<forall>c s''. copy_another ar' t' another s' = (Ok c, s'') \<longrightarrow> ?from z = (Ok ar', a', s''))
    | (Err x, z') \<Rightarrow> ?from z = (Err x, z') | (Panic, z') \<Rightarrow> ?from z = (Panic, z') | (Hang, z') \<Rightarrow> True" for z
  proof -
    obtain a1 s1 where z: "z = (a1, s1)" by (cases z)
    obtain x s2 where m: "area_map K ar s1 = (x, s2)" by (cases "area_map K ar s1")
    show ?thesis
      by (cases x; cases "area_drop K ar (a1, s2)"; cases "fst (area_drop K ar (a1, s2))")
         (simp_all add: z m kbind_def on_error_def on_machine_def)
  qed
  obtain x z where al: "?al (a, s) = (x, z)" by (cases "?al (a, s)")
  show ?thesis
  proof (cases x)
    case (Ok y)
    show ?thesis
    proof (cases y)
      case None
      then show ?thesis using Ok al by (simp add: new old)
    next
      case (Some u)
      have "r = ?new z" "area_from_another K t' another (a, s) = ?from z"
        unfolding new old using al Ok Some by simp_all
      then show ?thesis using step [of z] by (simp only:)
    qed
  qed (use al in \<open>simp_all add: new old\<close>)
qed

section \<open>Properties\<close>

text \<open>
  C28. Writing bytes into an area that has its own frames, at an offset and over as many pages
  as it takes: when the offset is page-aligned or the bytes stay within one page, the area holds
  exactly these bytes from the offset on afterwards, its other bytes and every other frame are
  unchanged, and the loop ends; otherwise the call panics before it has written anything.
\<close>

theorem write_multi_pages_outcome:
  assumes "vm_inv K st R (a, s)" and "area_ok K (a, s) ar" and "area_kind ar = Framed"
    and "unat offset + length data \<le> area_bytes ar"
  shows "if unat offset mod 4096 = 0 \<or> unat offset mod 4096 + length data \<le> 4096
     then \<exists>s'. write_multi_pages ar offset data s = (Ok (), s') \<and>
       bytes_set ar (unat offset) (unat offset) (unat offset + length data) data s s' \<and> vm_inv K st R (a, s')
     else write_multi_pages ar offset data s = (Panic, s)"
proof (cases "unat offset mod 4096 = 0 \<or> unat offset mod 4096 + length data \<le> 4096")
  case True
  have fa: "framed_area ar s" by (rule area_ok_framed [OF assms(1-3)])
  obtain s' where s': "write_loop ar (of_nat (unat offset)) (of_nat (unat offset + length data)) data (of_nat (unat offset)) s = Some (Ok (), s')"
    "bytes_set ar (unat offset) (unat offset) (unat offset + length data) data s s'"
    using write_loop_spec [OF fa assms(4), of "unat offset"] True by auto
  obtain t m t' m' where t: "s = (t, m)" "s' = (t', m')" by (cases s, cases s')
  have "vm_inv K st R (a, t, m')"
    using data_write_inv(1) [of K st R a t m m'] assms(1) s'(2) t frames_of_ran [of s "area_pages ar"]
    by (auto simp: bytes_set_def)
  moreover have "t' = t" using s'(2) t by (simp add: bytes_set_def)
  moreover have "write_multi_pages ar offset data s = (Ok (), s')"
    using s'(1) write_multi_pages_loop [OF fa assms(4)] by simp
  ultimately show ?thesis using True s'(2) t by auto
next
  case False
  then show ?thesis
    using write_multi_pages_crossing [OF area_ok_framed [OF assms(1-3)] assms(4)] by simp
qed

theorem write_multi_pages_outcome_witness:
  "\<exists>a t m a' s' s''. page_ranges_new 0 (2 ^ 27) = Ok a \<and> page_table_new 1 (sample_machine 32) = (Ok t, m) \<and>
     area_new rust_crates 5 7 6 Framed (a, t, m) = (Ok (area_of 5 7 6 Framed), (a', s')) \<and>
     write_multi_pages (area_of 5 7 6 Framed) 4096 [7, 8] s' = (Ok (), s'') \<and>
     area_byte (area_of 5 7 6 Framed) s'' 4097 = 8 \<and>
     write_multi_pages (area_of 5 7 6 Framed) 4095 [7, 8] s' = (Panic, s')"
proof -
  let ?ar = "area_of 5 7 6 Framed"
  obtain a t m s1 where s: "page_ranges_new 0 (2 ^ 27) = Ok a" "page_table_new 1 (sample_machine 32) = (Ok t, m)"
    "vm_inv rust_crates 16 {} (a, t, m)" "area_new rust_crates 5 7 6 Framed (a, t, m) = (Ok ?ar, s1)"
    by (rule sample_area)
  have fl: "{5..<7} \<inter> {} = ({} :: usize set)" "Framed = Framed \<longrightarrow> (6 :: u8) \<noteq> 0" by simp_all
  obtain a' s' where s1: "s1 = (a', s')" and v: "vm_inv rust_crates 16 {} (a', s')" "area_ok rust_crates (a', s') ?ar"
    by (rule area_new_spec [OF s(3) fl]) (use s(4) in auto)
  have n: "area_bytes ?ar = 8192" and k: "area_kind ?ar = Framed"
    by (simp_all add: area_bytes_def area_of_def)
  obtain s'' where w: "write_multi_pages ?ar 4096 [7, 8] s' = (Ok (), s'')" "bytes_set ?ar 4096 4096 4098 [7, 8] s' s''"
    using write_multi_pages_outcome [OF v k, of 4096 "[7, 8]"] n by auto
  have "area_byte ?ar s'' 4097 = 8" using w(2) n by (simp add: bytes_set_def)
  moreover have "write_multi_pages ?ar 4095 [7, 8] s' = (Panic, s')"
    using write_multi_pages_outcome [OF v k, of 4095 "[7, 8]"] n by simp
  ultimately show ?thesis using s s1 w(1) by blast
qed

text \<open>
  C23. Copying an area into another address space, as a fork does: on success the new area has
  the range, flags and kind of the original and every page of it holds, in a frame of its own that
  was not in use, what the page of the original holds; the original and every other frame in use
  is unchanged, so later writes to one copy are not seen in the other. Otherwise the range is not
  free in the new space and nothing changes, or the frames run out.
\<close>

theorem area_fork_copies:
  assumes "vm_inv K st R (a, t, m)" and "{first_page another..<last_page another} \<inter> R = {}"
    and "area_flags another \<noteq> 0" and "framed_area another (t', m)"
    and "frames_of (t', m) (area_pages another) \<subseteq> others st (t, m)"
  shows "case area_from_another K t' another (a, t, m) of
      (Ok ar, a1, t1, m1) \<Rightarrow> ar = another \<and> vm_inv K st R (a1, t1, m1) \<and> area_ok K (a1, t1, m1) ar \<and>
        pr_used a1 = pr_used a \<union> area_pages another \<and>
        (\<forall>j < page_count another. mem m1 (page_frame t1 ar j) = mem m (page_frame t' another j) \<and>
           page_frame t1 ar j \<notin> others st (t, m)) \<and>
        (\<forall>q \<in> others st (t, m). mem m1 q = mem m q)
    | (Err x, s') \<Rightarrow> x = AreaAllocFailed (first_page another) (last_page another) \<and> s' = (a, t, m) \<and>
        \<not> range_ok 0 (2 ^ 27) (pr_used a) (first_page another) (last_page another) True
    | (Panic, _) \<Rightarrow> fst (area_map K another (t, m)) = Err FrameExhausted
    | (Hang, _) \<Rightarrow> False"
proof -
  let ?b = "first_page another" and ?e = "last_page another"
  have kind: "area_kind another = Framed" using assms(4) by (simp add: framed_area_def)
  have ar: "area_of ?b ?e (area_flags another) Framed = another"
    using kind by (simp add: area_of_def)
  have fl: "Framed = Framed \<longrightarrow> area_flags another \<noteq> 0" using assms(3) by simp
  from assms(1,2) fl show ?thesis
  proof (cases rule: area_new_spec)
    case (created a1 s1)
    note n = created [unfolded ar]
    obtain t1 m1 where s1: "s1 = (t1, m1)" by (cases s1)
    have fa: "framed_area another (t1, m1)" using area_ok_framed n(3,6) kind s1 by blast
    have new: "f \<notin> others st (t, m)" if "f \<in> frames_of s1 (area_pages another)" for f
      using n(4) that by (simp add: mapped_in_def area_pages_def)
    have disj: "frames_of (t', m) (area_pages another) \<inter> frames_of (t1, m1) (area_pages another) = {}"
      using new assms(5) s1 by blast
    obtain c s2 where c: "copy_another another t' another (t1, m1) = (Ok c, s2)"
      and cp: "pages_copied t' another another 0 (page_count another) (t1, m1) s2"
      by (rule copy_another_spec [OF fa assms(4) refl disj])
    obtain m2 where s2: "s2 = (t1, m2)" using cp by (cases s2) (auto simp: pages_copied_def)
    have pf: "page_frame t1 another j \<in> frames_of s1 (area_pages another)" if "j < page_count another" for j
      using page_tracked(2) [OF fa that] s1 by simp
    have keep: "mem m2 q = mem m1 q" if "q \<notin> frames_of s1 (area_pages another)" for q
    proof -
      have "q \<notin> page_frame t1 another ` {0..<page_count another}" using pf that by auto
      then show ?thesis using cp s2 by (simp add: pages_copied_def)
    qed
    have inv: "vm_inv K st R (a1, t1, m2)" and view: "vpn_view K (t1, m2) = vpn_view K (t1, m1)"
      using data_write_inv [of K st R a1 t1 m1 m2] n(3) s1 cp s2 keep frames_of_ran [of s1 "area_pages another"]
      by (auto simp: pages_copied_def)
    have old: "mem m2 q = mem m q" if "q \<in> others st (t, m)" for q
      using keep [of q] new that n(4) s1 by (auto simp: mapped_in_def enlarges_def)
    have "area_from_another K t' another (a, t, m) = (Ok another, a1, t1, m2)"
      using area_from_another_cases [OF n(1) [folded kind], of t'] c s1 s2 by simp
    moreover have "area_ok K (a1, t1, m2) another"
      using n(6) s1 view by (simp add: area_ok_def page_mapped_def kind)
    moreover have "mem m2 (page_frame t1 another j) = mem m (page_frame t' another j) \<and>
        page_frame t1 another j \<notin> others st (t, m)" if j: "j < page_count another" for j
    proof -
      have src: "page_frame t' another j \<in> others st (t, m)"
        using page_tracked(2) [OF assms(4) j] assms(5) by auto
      have "mem m2 (page_frame t1 another j) = mem m1 (page_frame t' another j)"
        using cp j s2 by (simp add: pages_copied_def)
      also have "\<dots> = mem m (page_frame t' another j)"
        using n(4) src s1 by (auto simp: mapped_in_def enlarges_def)
      finally show ?thesis using new [OF pf [OF j]] by simp
    qed
    ultimately show ?thesis using inv old n(5) by (simp add: area_pages_def)
  next
    case refused
    then show ?thesis
      using area_from_another_cases [OF refused(1) [folded kind], of t'] by simp
  next
    case (exhausted s1 s')
    then show ?thesis using area_from_another_cases [OF exhausted(1) [folded kind], of t'] ar by simp
  qed
qed

theorem area_fork_copies_witness:
  "\<exists>a t m a1 t1 m1 t2 m2 a3 t3 m3. page_ranges_new 0 (2 ^ 27) = Ok a \<and> page_table_new 1 (sample_machine 32) = (Ok t, m) \<and>
     area_new rust_crates 5 7 6 Framed (a, t, m) = (Ok (area_of 5 7 6 Framed), (a1, t1, m1)) \<and>
     page_table_new 2 m1 = (Ok t2, m2) \<and>
     area_from_another rust_crates t1 (area_of 5 7 6 Framed) (a, t2, m2) = (Ok (area_of 5 7 6 Framed), (a3, t3, m3)) \<and>
     mem m3 (page_frame t3 (area_of 5 7 6 Framed) 1) = mem m2 (page_frame t1 (area_of 5 7 6 Framed) 1)"
proof -
  let ?ar = "area_of 5 7 6 Framed" and ?K = rust_crates
  have run: "case page_table_new 1 (sample_machine 32) of
       (Ok t, m) \<Rightarrow> (case area_map ?K ?ar (t, m) of
          (Ok _, t1, m1) \<Rightarrow> (case page_table_new 2 m1 of
             (Ok t2, m2) \<Rightarrow> is_ok (area_map ?K ?ar (t2, m2)) | _ \<Rightarrow> False)
        | _ \<Rightarrow> False)
     | _ \<Rightarrow> False"
    by code_simp
  obtain a t m where s: "page_ranges_new 0 (2 ^ 27) = Ok a" "page_table_new 1 (sample_machine 32) = (Ok t, m)"
    "vm_inv ?K 16 {} (a, t, m)" "pr_used a = {}"
    by (rule sample_vm [of 32]) simp_all
  have fl: "{5..<7} \<inter> {} = ({} :: usize set)" "Framed = Framed \<longrightarrow> (6 :: u8) \<noteq> 0" by simp_all
  obtain a1 t1 m1 where n: "area_new ?K 5 7 6 Framed (a, t, m) = (Ok ?ar, (a1, t1, m1))"
    "vm_inv ?K 16 {} (a1, t1, m1)" "area_ok ?K (a1, t1, m1) ?ar" "area_map ?K ?ar (t, m) = (Ok (), (t1, m1))"
    by (rule area_new_spec [OF s(3) fl]) (use run s(2,4) in \<open>auto simp: range_ok_def\<close>)
  obtain t2 m2 where t2: "page_table_new 2 m1 = (Ok t2, m2)" and ok: "is_ok (area_map ?K ?ar (t2, m2))"
    using run s(2) n(4) by (auto split: prod.splits outcome.splits)
  have i1: "pt_inv ?K 16 (t1, m1)" using n(2) by (simp add: vm_inv_def)
  have fr: "frame_inv 16 (frame_allocator m1)" "end_ppn (frame_allocator m1) \<le> 2 ^ 44"
    using i1 by (auto simp: pt_inv_def frames_ok_def)
  note new = page_table_new_inv [OF fr t2]
  have e2: "pt_trackers t2 = Map.empty" "pt_nodes t2 = {root_ppn t2}"
    using t2 by (auto simp: page_table_new_def kbind_def pt_nodes_def split: prod.splits outcome.splits)
  have vm: "vm_inv ?K 16 {} (a, t2, m2)"
    using s(3) new(1,2) e2(1) by (simp add: vm_inv_def)
  have fa: "framed_area ?ar (t1, m2)"
    using area_ok_framed [OF n(2,3)] by (simp add: framed_area_def area_of_def)
  have "ran (pt_trackers t1) \<subseteq> owned_frames 16 m1" using i1 by (simp add: pt_inv_def frames_ok_def)
  then have oth: "frames_of (t1, m2) (area_pages ?ar) \<subseteq> others 16 (t2, m2)"
    using frames_of_ran [of "(t1, m2)" "area_pages ?ar"] new(4,5) e2(2) by (auto simp: others_def)
  have "{first_page ?ar..<last_page ?ar} \<inter> {} = {}" "area_flags ?ar \<noteq> 0" by (simp_all add: area_of_def)
  note fork = area_fork_copies [OF vm this fa oth]
  have pc: "1 < page_count ?ar" by (simp add: page_count_def area_of_def)
  obtain a3 t3 m3 where f: "area_from_another ?K t1 ?ar (a, t2, m2) = (Ok ?ar, (a3, t3, m3))"
    "mem m3 (page_frame t3 ?ar 1) = mem m2 (page_frame t1 ?ar 1)"
  proof -
    have rg: "range_ok 0 (2 ^ 27) (pr_used a) (first_page ?ar) (last_page ?ar) True"
      by (simp add: range_ok_def s(4) area_of_def)
    have "fst (area_map ?K ?ar (t2, m2)) \<noteq> Err FrameExhausted"
      using ok by (auto simp: is_ok_def)
    then show thesis
      using fork rg pc that by (auto split: prod.splits outcome.splits)
  qed
  show ?thesis using s(1,2) n(1) t2 f by blast
qed

end
