(* ===== verification/Ordered_Maps.thy ===== *)
theory Ordered_Maps
  imports Kernel_Prelude "HOL-Library.Product_Lexorder"
begin

text \<open>
  \<open>BTreeMap\<close> of the standard library as an association list whose keys increase strictly, so that
  iterating over the list is iterating over the map in key order.
\<close>

type_synonym ('k, 'v) btree = "('k \<times> 'v) list"

definition bt_wf :: "('k::linorder, 'v) btree \<Rightarrow> bool" where
  "bt_wf m \<longleftrightarrow> sorted_wrt (<) (map fst m)"

definition bt_get :: "('k, 'v) btree \<Rightarrow> 'k \<Rightarrow> 'v option" where
  "bt_get m k = map_of m k"

text \<open>The map after an insertion; the value that was there before is \<open>bt_get m k\<close>.\<close>

fun bt_insert :: "'k::linorder \<Rightarrow> 'v \<Rightarrow> ('k, 'v) btree \<Rightarrow> ('k, 'v) btree" where
  "bt_insert k v [] = [(k, v)]"
| "bt_insert k v ((k', v') # m) =
     (if k < k' then (k, v) # (k', v') # m
      else if k = k' then (k, v) # m
      else (k', v') # bt_insert k v m)"

definition bt_remove :: "'k \<Rightarrow> ('k, 'v) btree \<Rightarrow> ('k, 'v) btree" where
  "bt_remove k m = filter (\<lambda>p. fst p \<noteq> k) m"

lemma bt_get_empty [simp]: "bt_get [] k = None"
  by (simp add: bt_get_def)

lemma bt_wf_empty [simp]: "bt_wf []"
  by (simp add: bt_wf_def)

lemma bt_get_insert [simp]:
  assumes "bt_wf m"
  shows "bt_get (bt_insert k v m) = (bt_get m)(k \<mapsto> v)"
  using assms unfolding bt_get_def bt_wf_def
  by (induction k v m rule: bt_insert.induct) (auto simp: fun_eq_iff)

lemma bt_keys_insert: "fst ` set (bt_insert k v m) = insert k (fst ` set m)"
  by (induction k v m rule: bt_insert.induct) auto

lemma bt_wf_insert [simp]:
  assumes "bt_wf m"
  shows "bt_wf (bt_insert k v m)"
  using assms unfolding bt_wf_def
proof (induction k v m rule: bt_insert.induct)
  case (2 k v k' v' m)
  have "set (map fst (bt_insert k v m)) = insert k (fst ` set m)"
    using bt_keys_insert [of k v m] by simp
  then show ?case using 2 by auto
qed simp

lemma bt_get_remove [simp]: "bt_get (bt_remove k m) = (bt_get m)(k := None)"
  unfolding bt_get_def bt_remove_def by (induction m) (auto simp: fun_eq_iff)

lemma bt_wf_remove [simp]: "bt_wf m \<Longrightarrow> bt_wf (bt_remove k m)"
  unfolding bt_wf_def bt_remove_def by (induction m) auto

lemma bt_wf_distinct: "bt_wf m \<Longrightarrow> distinct (map fst m)"
  unfolding bt_wf_def by (induction m) auto

lemma bt_get_iff:
  assumes "bt_wf m"
  shows "bt_get m k = Some v \<longleftrightarrow> (k, v) \<in> set m"
  using bt_wf_distinct [OF assms] unfolding bt_get_def by simp

lemma bt_set_insert:
  assumes "bt_get m k = None"
  shows "set (bt_insert k v m) = insert (k, v) (set m)"
  using assms unfolding bt_get_def
  by (induction k v m rule: bt_insert.induct) (auto split: if_splits)

lemma bt_set_remove: "set (bt_remove k m) = {p \<in> set m. fst p \<noteq> k}"
  by (auto simp: bt_remove_def)

end
