(* ===== verification/Spaces.thy ===== *)
theory Spaces
  imports Ordered_Maps Areas Buffers
begin

text \<open>
  Address spaces (src/memory/space.rs).

  A space holds its areas in key order, its page table and its page range allocator; the machine
  is shared by all spaces. The operations of \<open>Space\<close> work on a space and the machine. A space
  that is local to a constructor is dropped when the constructor returns early: its areas in key
  order, then the page table with the frames it still owns.

  The addresses that the linker script provides are the record \<open>kernel_image\<close>, and the ELF
  parser, a third-party crate, is the record \<open>elf_crate\<close>.
\<close>

unbundle bit_operations_syntax

section \<open>The layout of virtual pages\<close>

definition vpn_ceil :: "crates \<Rightarrow> usize \<Rightarrow> usize" where
  "vpn_ceil K va = get_vpn_with K (va + MEMORY_PAGE_BYTE_SIZE - 1)"

definition vpn_floor :: "crates \<Rightarrow> usize \<Rightarrow> usize" where
  "vpn_floor K va = get_vpn_with K va"

definition get_kernel_task_stack_vpn_range :: "crates \<Rightarrow> usize \<Rightarrow> usize \<times> usize" where
  "get_kernel_task_stack_vpn_range K kid =
     (let max_vpn = TRAMPOLINE_VIRTUAL_PAGE_NUMBER K;
          stack_page_count = vpn_ceil K KERNEL_TASK_STACK_BYTE_SIZE;
          end_vpn = max_vpn - (stack_page_count + KERNEL_GUARD_PAGE_COUNT) * kid;
          start_vpn = end_vpn - stack_page_count in
      (start_vpn, end_vpn))"

definition get_kernel_task_stack_top_va :: "crates \<Rightarrow> usize \<Rightarrow> usize outcome" where
  "get_kernel_task_stack_top_va K kid = cal_base_va_with K (snd (get_kernel_task_stack_vpn_range K kid))"

definition get_user_task_stack_vpn_range :: "crates \<Rightarrow> usize \<Rightarrow> usize \<Rightarrow> usize \<times> usize" where
  "get_user_task_stack_vpn_range K end_va tid =
     (let guard_size = (tid + 1) * KERNEL_GUARD_PAGE_COUNT * MEMORY_PAGE_BYTE_SIZE;
          stack_size = tid * USER_TASK_STACK_BYTE_SIZE;
          start_va = end_va + guard_size + stack_size;
          end_va = start_va + USER_TASK_STACK_BYTE_SIZE in
      (vpn_ceil K start_va, vpn_ceil K end_va))"

definition get_user_task_stack_top_va :: "crates \<Rightarrow> usize \<Rightarrow> usize \<Rightarrow> usize outcome" where
  "get_user_task_stack_top_va K end_va tid =
     cal_base_va_with K (snd (get_user_task_stack_vpn_range K end_va tid))"

definition get_task_trap_ctx_vpn_range :: "crates \<Rightarrow> usize \<Rightarrow> usize \<times> usize" where
  "get_task_trap_ctx_vpn_range K tid =
     (let offset = MEMORY_PAGE_BYTE_SIZE * tid;
          start_va = TRAP_CTX_VIRTUAL_BASE_ADDR - offset;
          end_va = start_va + MEMORY_PAGE_BYTE_SIZE in
      (vpn_ceil K start_va, vpn_ceil K end_va))"

definition get_task_trap_ctx_bottom_va :: "crates \<Rightarrow> usize \<Rightarrow> usize outcome" where
  "get_task_trap_ctx_bottom_va K tid = cal_base_va_with K (fst (get_task_trap_ctx_vpn_range K tid))"

section \<open>Spaces\<close>

record space =
  area_set :: "(usize \<times> usize, area) btree"
  space_page_table :: page_table
  page_range_allocator :: page_ranges

type_synonym space_state = "space \<times> machine"

definition on_vm :: "(vm, 'a) kop \<Rightarrow> (space_state, 'a) kop" where
  "on_vm f = (\<lambda>(sp, m).
     case f (page_range_allocator sp, space_page_table sp, m) of
       (r, a, t, m') \<Rightarrow> (r, (sp\<lparr>page_range_allocator := a, space_page_table := t\<rparr>, m')))"

definition space_mmu_token :: "crates \<Rightarrow> space \<Rightarrow> usize outcome" where
  "space_mmu_token K sp = mmu_token K (space_page_table sp)"

definition new_bare :: "crates \<Rightarrow> usize \<Rightarrow> (machine, space) kop" where
  "new_bare K asid =
     kbind (page_table_new asid) (\<lambda>page_table.
     kbind (klift (page_ranges_new 0 (MAX_VIRTUAL_PAGE_NUMBER K + 1))) (\<lambda>ranges.
     kret \<lparr>area_set = [], space_page_table = page_table, page_range_allocator = ranges\<rparr>))"

text \<open>
  \<open>push\<close> owns the area: it is dropped when writing the data fails, and an area that the insertion
  displaces is dropped too.
\<close>

definition push :: "crates \<Rightarrow> area \<Rightarrow> usize \<Rightarrow> u8 list option \<Rightarrow> (space_state, unit) kop" where
  "push K ar offset data =
     kbind (case data of
              Some bytes \<Rightarrow> on_error (on_vm (on_machine (write_multi_pages ar offset bytes))) (on_vm (area_drop K ar))
            | None \<Rightarrow> kret ()) (\<lambda>_.
     (\<lambda>(sp, m).
        let range = area_range ar; old = bt_get (area_set sp) range;
            sp' = sp\<lparr>area_set := bt_insert range ar (area_set sp)\<rparr> in
        case old of
          Some o' \<Rightarrow> kbind (on_vm (area_drop K o')) (\<lambda>_. kerr (AreaAllocFailed (fst range) (snd range))) (sp', m)
        | None \<Rightarrow> (Ok (), (sp', m))))"

definition pop :: "crates \<Rightarrow> usize \<Rightarrow> usize \<Rightarrow> (space_state, unit) kop" where
  "pop K start_vpn end_vpn = (\<lambda>(sp, m).
     case bt_get (area_set sp) (start_vpn, end_vpn) of
       Some ar \<Rightarrow> on_vm (area_drop K ar) (sp\<lparr>area_set := bt_remove (start_vpn, end_vpn) (area_set sp)\<rparr>, m)
     | None \<Rightarrow> (Err (AreaDeallocFailed start_vpn end_vpn), (sp, m)))"

definition get_area :: "usize \<Rightarrow> usize \<Rightarrow> space \<Rightarrow> area outcome" where
  "get_area start_vpn end_vpn sp =
     (case bt_get (area_set sp) (start_vpn, end_vpn) of
        Some ar \<Rightarrow> Ok ar | None \<Rightarrow> Err (AreaNotExists start_vpn end_vpn))"

text \<open>\<open>Area::new\<close> on the space followed by \<open>push(area, 0, data)\<close>.\<close>

definition new_area :: "crates \<Rightarrow> usize \<Rightarrow> usize \<Rightarrow> u8 \<Rightarrow> area_mapping \<Rightarrow> u8 list option \<Rightarrow> (space_state, unit) kop" where
  "new_area K start_vpn end_vpn flags mapping data =
     kbind (on_vm (area_new K start_vpn end_vpn flags mapping)) (\<lambda>ar. push K ar 0 data)"

section \<open>Access to user memory\<close>

text \<open>
  A slice \<open>&mut buffer[a..b]\<close> of a page is its frame with the two bounds. \<open>None\<close> is a loop that
  does not end.
\<close>

type_synonym byte_slice = "usize \<times> nat \<times> nat"

definition slice_bytes :: "memory \<Rightarrow> byte_slice \<Rightarrow> u8 list" where
  "slice_bytes M = (\<lambda>(p, a, b). map (frame_byte M p) [a..<b])"

partial_function (option) buffers_loop ::
    "crates \<Rightarrow> page_table \<Rightarrow> usize \<Rightarrow> usize \<Rightarrow> byte_slice list \<Rightarrow> byte_slice list outcome option" where
  "buffers_loop K t end_va start_va buffers =
     (if start_va < end_va then
        let tmp_start_offset = get_va_offset K start_va;
            tmp_byte_length = MEMORY_PAGE_BYTE_SIZE - tmp_start_offset;
            tmp_end_va = min end_va (start_va + tmp_byte_length);
            tmp_end_offset = (if get_va_offset K tmp_end_va = 0 then MEMORY_PAGE_BYTE_SIZE
                              else get_va_offset K tmp_end_va) in
        case get_tracker_with (vpn_floor K start_va) t of
          Ok tracker \<Rightarrow>
            if tmp_start_offset \<le> tmp_end_offset \<and> tmp_end_offset \<le> MEMORY_PAGE_BYTE_SIZE
            then buffers_loop K t end_va tmp_end_va
                   (buffers @ [(tracker, unat tmp_start_offset, unat tmp_end_offset)])
            else Some Panic
        | Err e \<Rightarrow> Some (Err e) | Panic \<Rightarrow> Some Panic | Hang \<Rightarrow> None
      else Some (Ok buffers))"

definition translated_byte_buffers :: "crates \<Rightarrow> usize \<Rightarrow> usize \<Rightarrow> space \<Rightarrow> (byte_slice list \<times> usize) outcome" where
  "translated_byte_buffers K ptr len sp =
     (case buffers_loop K (space_page_table sp) (ptr + len) ptr [] of
        Some (Ok buffers) \<Rightarrow> Ok (buffers, len)
      | Some (Err e) \<Rightarrow> Err e | Some Panic \<Rightarrow> Panic | Some Hang \<Rightarrow> Hang | None \<Rightarrow> Hang)"

text \<open>The inner loop of \<open>translated_string\<close>: the string so far, and whether a NULL was met.\<close>

fun scan_bytes :: "u8 list \<Rightarrow> string \<Rightarrow> string \<times> bool" where
  "scan_bytes [] str = (str, False)"
| "scan_bytes (b # bs) str = (if b = 0 then (str, True) else scan_bytes bs (str @ [char_of (unat b)]))"

partial_function (option) string_loop ::
    "crates \<Rightarrow> page_table \<Rightarrow> memory \<Rightarrow> usize \<Rightarrow> string \<Rightarrow> string outcome option" where
  "string_loop K t M start_va str =
     (let tmp_start_offset = get_va_offset K start_va;
          tmp_byte_length = MEMORY_PAGE_BYTE_SIZE - tmp_start_offset;
          tmp_end_va = start_va + tmp_byte_length in
      case get_tracker_with (vpn_floor K start_va) t of
        Ok tracker \<Rightarrow>
          (case scan_bytes (slice_bytes M (tracker, unat tmp_start_offset, 4096)) str of
             (str', found) \<Rightarrow> if found then Some (Ok str') else string_loop K t M tmp_end_va str')
      | Err e \<Rightarrow> Some (Err e) | Panic \<Rightarrow> Some Panic | Hang \<Rightarrow> None)"

definition translated_string :: "crates \<Rightarrow> usize \<Rightarrow> space_state \<Rightarrow> string outcome" where
  "translated_string K ptr = (\<lambda>(sp, m).
     case string_loop K (space_page_table sp) (mem m) ptr [] of Some r \<Rightarrow> r | None \<Rightarrow> Hang)"

text \<open>\<open>translated_refmut\<close> returns an address; \<open>mem_size\<close> is the size of the type it is used at.\<close>

definition translated_refmut :: "crates \<Rightarrow> usize \<Rightarrow> usize \<Rightarrow> space \<Rightarrow> usize outcome" where
  "translated_refmut K ptr mem_size sp =
     pt_as_kernel_mut (vpn_floor K ptr) (get_va_offset K ptr) mem_size (space_page_table sp)"

definition translate_pa :: "crates \<Rightarrow> usize \<Rightarrow> (space_state, usize option) kop" where
  "translate_pa K va = (\<lambda>(sp, m).
     case translate_ppn_with K (vpn_floor K va) (space_page_table sp, m) of
       (Ok p, _) \<Rightarrow> (Ok (map_option (\<lambda>ppn. ppn * MEMORY_PAGE_BYTE_SIZE + get_va_offset K va) p), (sp, m))
     | (Err e, _) \<Rightarrow> (Err e, (sp, m)) | (Panic, _) \<Rightarrow> (Panic, (sp, m)) | (Hang, _) \<Rightarrow> (Hang, (sp, m)))"

section \<open>Task stacks and trap contexts\<close>

definition map_trampoline :: "crates \<Rightarrow> usize \<Rightarrow> (space_state, unit) kop" where
  "map_trampoline K trampoline_ppn =
     on_vm (on_machine (map_without_alloc K (TRAMPOLINE_VIRTUAL_PAGE_NUMBER K) trampoline_ppn FLAGS_RX))"

definition alloc_user_task_stack :: "crates \<Rightarrow> usize \<Rightarrow> usize \<Rightarrow> (space_state, unit) kop" where
  "alloc_user_task_stack K end_va tid =
     (case get_user_task_stack_vpn_range K end_va tid of
        (start_vpn, end_vpn) \<Rightarrow> new_area K start_vpn end_vpn FLAGS_RWU Framed None)"

definition dealloc_user_task_stack :: "crates \<Rightarrow> usize \<Rightarrow> usize \<Rightarrow> (space_state, unit) kop" where
  "dealloc_user_task_stack K end_va tid =
     (case get_user_task_stack_vpn_range K end_va tid of (start_vpn, end_vpn) \<Rightarrow> pop K start_vpn end_vpn)"

definition alloc_task_trap_ctx :: "crates \<Rightarrow> usize \<Rightarrow> (space_state, unit) kop" where
  "alloc_task_trap_ctx K tid =
     (case get_task_trap_ctx_vpn_range K tid of
        (start_vpn, end_vpn) \<Rightarrow> new_area K start_vpn end_vpn FLAGS_RW Framed None)"

definition dealloc_task_trap_ctx :: "crates \<Rightarrow> usize \<Rightarrow> (space_state, unit) kop" where
  "dealloc_task_trap_ctx K tid =
     (case get_task_trap_ctx_vpn_range K tid of (start_vpn, end_vpn) \<Rightarrow> pop K start_vpn end_vpn)"

text \<open>On the kernel space.\<close>

definition map_kernel_task_stack :: "crates \<Rightarrow> usize \<Rightarrow> (space_state, usize) kop" where
  "map_kernel_task_stack K kid =
     (case get_kernel_task_stack_vpn_range K kid of
        (bottom_vpn, top_vpn) \<Rightarrow>
          kbind (new_area K bottom_vpn top_vpn FLAGS_RW Framed None) (\<lambda>_. kret top_vpn))"

definition unmap_kernel_task_stack :: "crates \<Rightarrow> usize \<Rightarrow> (space_state, unit) kop" where
  "unmap_kernel_task_stack K kid =
     (case get_kernel_task_stack_vpn_range K kid of (start_vpn, end_vpn) \<Rightarrow> pop K start_vpn end_vpn)"

section \<open>Copying areas between spaces\<close>

definition copy_area_from_another ::
    "crates \<Rightarrow> space \<Rightarrow> usize \<Rightarrow> usize \<Rightarrow> usize \<Rightarrow> usize \<Rightarrow> (space_state, unit) kop" where
  "copy_area_from_another K another src_start src_end dst_start dst_end =
     kbind (klift (get_area src_start src_end another)) (\<lambda>another_area.
     (\<lambda>(sp, m).
        case get_area dst_start dst_end sp of
          Ok current_area \<Rightarrow>
            kbind (on_vm (on_machine (copy_another current_area (space_page_table another) another_area)))
              (\<lambda>_. kret ()) (sp, m)
        | _ \<Rightarrow>
            kbind (on_vm (area_from_another K (space_page_table another) another_area))
              (\<lambda>current_area. push K current_area 0 None) (sp, m)))"

definition copy_area_from_self ::
    "crates \<Rightarrow> usize \<Rightarrow> usize \<Rightarrow> usize \<Rightarrow> usize \<Rightarrow> (space_state, unit) kop" where
  "copy_area_from_self K src_start src_end dst_start dst_end =
     (\<lambda>(sp, m). copy_area_from_another K sp src_start src_end dst_start dst_end (sp, m))"

section \<open>Dropping a space\<close>

definition drop_areas :: "crates \<Rightarrow> (usize \<times> usize, area) btree \<Rightarrow> (space_state, unit) kop" where
  "drop_areas K areas = kfor areas (\<lambda>(range, ar). on_vm (area_drop K ar))"

definition recycle_data_pages :: "crates \<Rightarrow> (space_state, unit) kop" where
  "recycle_data_pages K = (\<lambda>(sp, m). drop_areas K (area_set sp) (sp\<lparr>area_set := []\<rparr>, m))"

text \<open>The fields of a page table in order: the root mapper, the other mappers, the data frames.\<close>

definition page_table_drop :: "page_table \<Rightarrow> (machine, unit) kop" where
  "page_table_drop t =
     kbind (tracker_drop (pm_tracker (pt_root t))) (\<lambda>_.
     kbind (kfor (sorted_list_of_set (dom (pt_mappers t)))
              (\<lambda>p. tracker_drop (pm_tracker (the (pt_mappers t p))))) (\<lambda>_.
     kfor (sorted_list_of_set (dom (pt_trackers t))) (\<lambda>v. tracker_drop (the (pt_trackers t v)))))"

definition space_drop :: "crates \<Rightarrow> (space_state, unit) kop" where
  "space_drop K =
     kbind (recycle_data_pages K) (\<lambda>_.
     (\<lambda>(sp, m). case page_table_drop (space_page_table sp) m of (r, m') \<Rightarrow> (r, (sp, m'))))"

text \<open>The body of a constructor that owns the space it works on.\<close>

definition build_space :: "crates \<Rightarrow> (space_state, 'a) kop \<Rightarrow> space \<Rightarrow> (machine, space \<times> 'a) kop" where
  "build_space K body sp m =
     (case on_error body (space_drop K) (sp, m) of
        (Ok x, (sp', m')) \<Rightarrow> (Ok (sp', x), m')
      | (Err e, (_, m')) \<Rightarrow> (Err e, m')
      | (Panic, (_, m')) \<Rightarrow> (Panic, m')
      | (Hang, (_, m')) \<Rightarrow> (Hang, m'))"

section \<open>The kernel space\<close>

record kernel_image =
  text_start :: usize
  text_end :: usize
  rodata_start :: usize
  rodata_end :: usize
  data_start :: usize
  data_end :: usize
  bootstack_start :: usize
  bootstack_end :: usize
  bss_start :: usize
  bss_end :: usize
  free_mem_start :: usize
  free_mem_end :: usize
  fn_trampoline :: usize

definition TRAMPOLINE_PHYSICAL_PAGE_NUMBER :: "crates \<Rightarrow> kernel_image \<Rightarrow> usize" where
  "TRAMPOLINE_PHYSICAL_PAGE_NUMBER K img = get_ppn_with K (fn_trampoline img)"

definition MMIO :: "(usize \<times> usize) list" where
  "MMIO = [(0x00100000, 0x00102000), (0x10001000, 0x10002000)]"

definition identical_area :: "crates \<Rightarrow> usize \<Rightarrow> usize \<Rightarrow> u8 \<Rightarrow> (space_state, unit) kop" where
  "identical_area K start_vpn end_vpn flags = new_area K start_vpn end_vpn flags Identical None"

text \<open>A segment of the kernel image that may be empty.\<close>

definition optional_segment :: "crates \<Rightarrow> usize \<Rightarrow> usize \<Rightarrow> (space_state, unit) kop" where
  "optional_segment K start_va end_va =
     (let start_vpn = vpn_floor K start_va; end_vpn = vpn_ceil K end_va in
      if start_vpn \<noteq> end_vpn then identical_area K start_vpn end_vpn FLAGS_RW else kret ())"

definition map_kernel_image :: "crates \<Rightarrow> kernel_image \<Rightarrow> (space_state, unit) kop" where
  "map_kernel_image K img =
     kbind (kfor MMIO (\<lambda>(start_va, end_va).
       identical_area K (vpn_floor K start_va) (vpn_ceil K end_va) FLAGS_RW)) (\<lambda>_.
     kbind (identical_area K (vpn_floor K (text_start img)) (vpn_ceil K (text_end img)) FLAGS_RX) (\<lambda>_.
     kbind (identical_area K (vpn_floor K (rodata_start img)) (vpn_ceil K (rodata_end img)) FLAGS_R) (\<lambda>_.
     kbind (optional_segment K (data_start img) (data_end img)) (\<lambda>_.
     kbind (optional_segment K (bootstack_start img) (bootstack_end img)) (\<lambda>_.
     kbind (optional_segment K (bss_start img) (bss_end img)) (\<lambda>_.
     kbind (identical_area K (vpn_floor K (free_mem_start img)) (vpn_floor K (free_mem_end img)) FLAGS_RW) (\<lambda>_.
     map_trampoline K (TRAMPOLINE_PHYSICAL_PAGE_NUMBER K img))))))))"

definition new_kernel :: "crates \<Rightarrow> kernel_image \<Rightarrow> (machine, space) kop" where
  "new_kernel K img =
     kbind (new_bare K MAX_TASK_ID) (\<lambda>sp.
     kbind (build_space K (map_kernel_image K img) sp) (\<lambda>(sp', _). kret sp'))"

section \<open>User spaces\<close>

record elf_phdr =
  p_type :: u32
  p_flags :: u32
  p_offset :: usize
  p_vaddr :: usize
  p_filesz :: usize
  p_memsz :: usize

record elf_file =
  ef_segments :: "elf_phdr list option"
  ef_segment_data :: "elf_phdr \<Rightarrow> elf_parse_error + u8 list"
  ef_entry :: usize

record elf_crate =
  minimal_parse :: "u8 list \<Rightarrow> elf_parse_error + elf_file"
  PT_LOAD :: u32
  PF_X :: u32
  PF_W :: u32
  PF_R :: u32

definition convert_flags :: "elf_crate \<Rightarrow> u32 \<Rightarrow> u8" where
  "convert_flags E bits =
     (let flags = FLAGS_EMPTY;
          flags = (if bits AND PF_R E \<noteq> 0 then flags OR FLAGS_R else flags);
          flags = (if bits AND PF_W E \<noteq> 0 then flags OR FLAGS_W else flags);
          flags = (if bits AND PF_X E \<noteq> 0 then flags OR FLAGS_X else flags) in
      flags)"

definition load_segment :: "crates \<Rightarrow> elf_crate \<Rightarrow> elf_file \<Rightarrow> elf_phdr \<Rightarrow> (space_state, unit) kop" where
  "load_segment K E file phdr =
     (let start_va = p_vaddr phdr; end_va = p_vaddr phdr + p_memsz phdr;
          start_vpn = vpn_floor K start_va; end_vpn = vpn_ceil K end_va;
          flags = convert_flags E (p_flags phdr) in
      kbind (on_vm (area_new K start_vpn end_vpn (flags OR FLAGS_U) Framed)) (\<lambda>ar.
      kbind (on_error (klift (case ef_segment_data file phdr of
                                Inl e \<Rightarrow> Err (ParseElfError e) | Inr bytes \<Rightarrow> Ok bytes))
               (on_vm (area_drop K ar))) (\<lambda>segment.
      push K ar 0 (Some segment))))"

definition new_user_from_elf ::
    "crates \<Rightarrow> elf_crate \<Rightarrow> kernel_image \<Rightarrow> usize \<Rightarrow> u8 list \<Rightarrow> (machine, space \<times> usize \<times> usize) kop" where
  "new_user_from_elf K E img asid data =
     (case minimal_parse E data of
        Inl e \<Rightarrow> kerr (ParseElfError e)
      | Inr file \<Rightarrow>
          (case ef_segments file of
             None \<Rightarrow> kerr InvalidHeadlessTask
           | Some segments \<Rightarrow>
               let program_headers = filter (\<lambda>phdr. p_type phdr = PT_LOAD E) segments in
               if program_headers = [] then kerr UnloadableTask
               else
                 kbind (new_bare K asid) (\<lambda>sp.
                 kbind (build_space K
                          (kbind (kfor program_headers (load_segment K E file)) (\<lambda>_.
                           map_trampoline K (TRAMPOLINE_PHYSICAL_PAGE_NUMBER K img))) sp) (\<lambda>(sp', _).
                 kret (sp', p_vaddr (last program_headers) + p_memsz (last program_headers), ef_entry file)))))"

text \<open>The areas of the other space whose range is not excluded; without a set none is copied.\<close>

definition new_user_from_another ::
    "crates \<Rightarrow> kernel_image \<Rightarrow> usize \<Rightarrow> space \<Rightarrow> (usize \<times> usize) set option \<Rightarrow> (machine, space) kop" where
  "new_user_from_another K img asid another exclude_ranges =
     kbind (new_bare K asid) (\<lambda>sp.
     kbind (build_space K
              (kbind (kfor (area_set another) (\<lambda>(range, another_area).
                 if (case exclude_ranges of None \<Rightarrow> True | Some ranges \<Rightarrow> range \<in> ranges) then kret ()
                 else kbind (on_vm (area_from_another K (space_page_table another) another_area))
                        (\<lambda>ar. push K ar 0 None))) (\<lambda>_.
               map_trampoline K (TRAMPOLINE_PHYSICAL_PAGE_NUMBER K img))) sp) (\<lambda>(sp', _).
     kret sp'))"

end
