(* ===== verification/Space_Layout.thy ===== *)
theory Space_Layout
  imports Spaces
begin

text \<open>
  The ranges that \<open>Space\<close> computes for kernel stacks, user stacks and trap contexts: they have the
  right size, do not overlap, leave guard pages, and stay off the trampoline.
\<close>

section \<open>Page numbers of addresses\<close>

lemma unat_get_vpn:
  assumes "crates_ok K"
  shows "unat (get_vpn_with K va) = unat va div 4096 mod 2 ^ 27"
proof -
  have "get_vpn_with K va = take_bit 27 (drop_bit 12 va)"
    using get_bits_ok [OF assms, of 12 39 va] by (simp add: get_vpn_with_def)
  moreover have lt: "unat va < 2 ^ 64" using unsigned_less [of va] by simp
  ultimately have "unat (get_vpn_with K va) = take_bit 27 (drop_bit 12 (unat va))"
    by (simp only: unsigned_take_bit_eq unsigned_drop_bit_eq) (simp add: take_bit_nat_eq_self [OF lt])
  then show ?thesis by (simp add: take_bit_eq_mod drop_bit_eq_div)
qed

lemma get_vpn_low:
  assumes "crates_ok K"
  shows "get_vpn_with K va < 2 ^ 27"
  using unat_get_vpn [OF assms, of va] by (simp add: word_less_nat_alt)

lemma unat_vpn_ceil:
  assumes "crates_ok K" and "unat va + 4095 < 2 ^ 64"
  shows "unat (vpn_ceil K va) = (unat va + 4095) div 4096 mod 2 ^ 27"
proof -
  have "va + MEMORY_PAGE_BYTE_SIZE - 1 = va + 4095" by (simp add: MEMORY_PAGE_BYTE_SIZE_def)
  moreover have "unat (va + 4095) = unat va + 4095" using assms(2) by (simp add: unat_word_ariths)
  ultimately show ?thesis
    using unat_get_vpn [OF assms(1), of "va + 4095"] unfolding vpn_ceil_def by (simp only:)
qed

lemma trampoline_vpn:
  assumes "crates_ok K"
  shows "TRAMPOLINE_VIRTUAL_PAGE_NUMBER K = 2 ^ 27 - 1"
proof -
  have "unat (TRAMPOLINE_VIRTUAL_PAGE_NUMBER K) = 2 ^ 27 - 1"
    using unat_get_vpn [OF assms] by (simp add: TRAMPOLINE_VIRTUAL_PAGE_NUMBER_def config_defs)
  then show ?thesis by (simp add: word_unat_eq_iff)
qed

lemma max_vpn:
  assumes "crates_ok K"
  shows "MAX_VIRTUAL_PAGE_NUMBER K + 1 = 2 ^ 27"
proof -
  have "unat (MAX_VIRTUAL_PAGE_NUMBER K) = 2 ^ 27 - 1"
    using unat_get_vpn [OF assms] by (simp add: MAX_VIRTUAL_PAGE_NUMBER_def config_defs)
  then have "MAX_VIRTUAL_PAGE_NUMBER K = 2 ^ 27 - 1" by (simp add: word_unat_eq_iff)
  then show ?thesis by simp
qed

section \<open>The ranges in unbounded integers\<close>

lemma kernel_stack_range:
  assumes K: "crates_ok K" and kid: "3 * unat kid + 2 \<le> 2 ^ 27 - 1"
    and "get_kernel_task_stack_vpn_range K kid = (b, e)"
  shows "unat b = 2 ^ 27 - 3 - 3 * unat kid" and "unat e = 2 ^ 27 - 1 - 3 * unat kid"
proof -
  have "unat (vpn_ceil K KERNEL_TASK_STACK_BYTE_SIZE) = 2"
    using unat_vpn_ceil [OF K, of KERNEL_TASK_STACK_BYTE_SIZE] by (simp add: config_defs)
  then have c: "vpn_ceil K KERNEL_TASK_STACK_BYTE_SIZE = 2" by (simp add: word_unat_eq_iff)
  have e: "e = 2 ^ 27 - 1 - 3 * kid" and b: "b = e - 2"
    using assms(3) by (auto simp: get_kernel_task_stack_vpn_range_def c trampoline_vpn [OF K]
        KERNEL_GUARD_PAGE_COUNT_def Let_def)
  have "unat (3 * kid) = 3 * unat kid" using kid by (simp add: unat_word_ariths)
  then show ue: "unat e = 2 ^ 27 - 1 - 3 * unat kid"
    using kid unfolding e by (subst unat_sub) (simp_all add: word_le_nat_alt)
  show "unat b = 2 ^ 27 - 3 - 3 * unat kid"
    using kid ue unfolding b by (subst unat_sub) (simp_all add: word_le_nat_alt)
qed

lemma user_stack_range:
  assumes K: "crates_ok K" and bound: "unat end_va + 40960 + 36864 * unat tid < 2 ^ 39"
    and "get_user_task_stack_vpn_range K end_va tid = (b, e)"
  shows "unat b = (unat end_va + 4095) div 4096 + 1 + 9 * unat tid" and "unat e = unat b + 8"
proof -
  define v where "v = end_va + (tid + 1) * KERNEL_GUARD_PAGE_COUNT * MEMORY_PAGE_BYTE_SIZE + tid * USER_TASK_STACK_BYTE_SIZE"
  have be: "b = vpn_ceil K v" "e = vpn_ceil K (v + USER_TASK_STACK_BYTE_SIZE)"
    using assms(3) by (auto simp: get_user_task_stack_vpn_range_def v_def Let_def)
  have "v = end_va + (36864 * tid + 4096)"
    by (simp add: v_def config_defs algebra_simps)
  moreover have "unat (36864 * tid + 4096) = 36864 * unat tid + 4096"
    using bound by (simp add: unat_word_ariths)
  ultimately have v: "unat v = unat end_va + (36864 * unat tid + 4096)"
    using bound by (simp add: unat_word_ariths)
  have v8: "unat (v + USER_TASK_STACK_BYTE_SIZE) = unat v + 32768"
    using v bound by (simp add: unat_word_ariths config_defs)
  have "unat b = (unat v + 4095) div 4096 mod 2 ^ 27"
    unfolding be by (rule unat_vpn_ceil [OF K]) (use v bound in simp)
  also have "(unat v + 4095) div 4096 = (unat end_va + 4095) div 4096 + 1 + 9 * unat tid"
  proof -
    have "unat v + 4095 = (unat end_va + 4095) + (1 + 9 * unat tid) * 4096" using v by simp
    then show ?thesis by (simp only: div_mult_self1)
  qed
  finally show b: "unat b = (unat end_va + 4095) div 4096 + 1 + 9 * unat tid"
    using bound by simp
  have "unat e = (unat (v + USER_TASK_STACK_BYTE_SIZE) + 4095) div 4096 mod 2 ^ 27"
    unfolding be by (rule unat_vpn_ceil [OF K]) (use v8 v bound in simp)
  also have "(unat (v + USER_TASK_STACK_BYTE_SIZE) + 4095) div 4096 = (unat end_va + 4095) div 4096 + 9 + 9 * unat tid"
  proof -
    have "unat (v + USER_TASK_STACK_BYTE_SIZE) + 4095 = (unat end_va + 4095) + (9 + 9 * unat tid) * 4096"
      using v v8 by simp
    then show ?thesis by (simp only: div_mult_self1)
  qed
  finally show "unat e = unat b + 8" using b bound by simp
qed

lemma trap_ctx_range:
  assumes K: "crates_ok K" and tid: "unat tid \<le> 2 ^ 27 - 2"
    and "get_task_trap_ctx_vpn_range K tid = (b, e)"
  shows "unat b = 2 ^ 27 - 2 - unat tid" and "unat e = 2 ^ 27 - 1 - unat tid"
proof -
  define v where "v = TRAP_CTX_VIRTUAL_BASE_ADDR - MEMORY_PAGE_BYTE_SIZE * tid"
  have be: "b = vpn_ceil K v" "e = vpn_ceil K (v + MEMORY_PAGE_BYTE_SIZE)"
    using assms(3) by (auto simp: get_task_trap_ctx_vpn_range_def v_def Let_def)
  have "unat (MEMORY_PAGE_BYTE_SIZE * tid) = 4096 * unat tid"
    using tid by (simp add: unat_word_ariths MEMORY_PAGE_BYTE_SIZE_def)
  moreover have "unat TRAP_CTX_VIRTUAL_BASE_ADDR = 2 ^ 64 - 8192" by (simp add: config_defs)
  ultimately have v: "unat v = 2 ^ 64 - 8192 - 4096 * unat tid"
    using tid unfolding v_def by (subst unat_sub) (simp_all add: word_le_nat_alt)
  have v1: "unat (v + MEMORY_PAGE_BYTE_SIZE) = unat v + 4096"
    using v by (simp add: unat_word_ariths MEMORY_PAGE_BYTE_SIZE_def)
  have "unat v = (2 ^ 52 - 2 - unat tid) * 4096" using v tid by simp
  then have d: "(unat v + 4095) div 4096 = 2 ^ 52 - 2 - unat tid"
    "(unat (v + MEMORY_PAGE_BYTE_SIZE) + 4095) div 4096 = 2 ^ 52 - 1 - unat tid"
    using v1 tid by simp_all
  have m: "(2 ^ 52 - k) mod 2 ^ 27 = 2 ^ 27 - k" if "0 < k" "k \<le> 2 ^ 27" for k :: nat
  proof -
    have "2 ^ 52 - k = (2 ^ 27 - k) + (2 ^ 25 - 1) * 2 ^ 27" using that by simp
    then show ?thesis using that by (simp only: mod_mult_self1) simp
  qed
  have "unat b = (2 ^ 52 - (2 + unat tid)) mod 2 ^ 27"
    unfolding be using unat_vpn_ceil [OF K, of v] v d(1) by simp
  then show "unat b = 2 ^ 27 - 2 - unat tid" using m [of "2 + unat tid"] tid by simp
  have "unat e = (2 ^ 52 - (1 + unat tid)) mod 2 ^ 27"
    unfolding be using unat_vpn_ceil [OF K, of "v + MEMORY_PAGE_BYTE_SIZE", unfolded d(2)] v v1 tid by simp
  then show "unat e = 2 ^ 27 - 1 - unat tid" using m [of "1 + unat tid"] tid by simp
qed

section \<open>Properties\<close>

text \<open>Two ranges of pages with at least one page between them.\<close>

definition apart :: "usize \<times> usize \<Rightarrow> usize \<times> usize \<Rightarrow> bool" where
  "apart r r' \<longleftrightarrow> snd r < fst r' \<or> snd r' < fst r"

text \<open>
  The kernel stacks of different tasks: as long as the stack id is small enough for the
  address space, each stack has two pages, lies below the trampoline page, and a guard page
  separates the stacks of any two ids.
\<close>

theorem kernel_stacks_apart:
  assumes "crates_ok K" and "unat i \<le> 44739241" and "unat j \<le> 44739241" and "i \<noteq> j"
  shows "case get_kernel_task_stack_vpn_range K i of (b, e) \<Rightarrow>
           unat e = unat b + 2 \<and> e \<le> TRAMPOLINE_VIRTUAL_PAGE_NUMBER K \<and>
           apart (b, e) (get_kernel_task_stack_vpn_range K j)"
proof -
  obtain b e b' e' where r: "get_kernel_task_stack_vpn_range K i = (b, e)" "get_kernel_task_stack_vpn_range K j = (b', e')"
    by (metis surj_pair)
  have bnd: "3 * unat i + 2 \<le> 2 ^ 27 - 1" "3 * unat j + 2 \<le> 2 ^ 27 - 1" using assms(2,3) by simp_all
  note i = kernel_stack_range [OF assms(1) bnd(1) r(1)] and j = kernel_stack_range [OF assms(1) bnd(2) r(2)]
  have ne: "unat i \<noteq> unat j" using assms(4) by (simp add: word_unat_eq_iff)
  have "unat e = unat b + 2" "e \<le> TRAMPOLINE_VIRTUAL_PAGE_NUMBER K"
    using i bnd by (simp_all add: trampoline_vpn [OF assms(1)] word_le_nat_alt)
  moreover have "apart (b, e) (b', e')"
    using i j bnd ne by (simp add: apart_def word_less_nat_alt) linarith
  ultimately show ?thesis by (simp add: r)
qed

text \<open>
  C25. The pages of the tasks of one process: for two task ids below the limit on tasks and a
  program that ends in the lower half of the address space, the user stacks have eight pages and
  start after a guard page above the program, a guard page separates the two stacks, the trap
  contexts are one page each, different from one another and from the trampoline, and no stack
  reaches a trap context.
\<close>

theorem task_pages_apart:
  assumes K: "crates_ok K" and i: "i < MAX_TID_COUNT" and j: "j < MAX_TID_COUNT" and "i \<noteq> j"
    and "end_va \<le> 2 ^ 38"
  shows "let us = get_user_task_stack_vpn_range K end_va; tc = get_task_trap_ctx_vpn_range K in
     unat (snd (us i)) = unat (fst (us i)) + 8 \<and> vpn_ceil K end_va < fst (us i) \<and> apart (us i) (us j) \<and>
     snd (tc i) = fst (tc i) + 1 \<and> fst (tc i) \<noteq> fst (tc j) \<and>
     fst (tc i) < TRAMPOLINE_VIRTUAL_PAGE_NUMBER K \<and> snd (us i) < fst (tc j)"
proof -
  let ?us = "get_user_task_stack_vpn_range K end_va" and ?tc = "get_task_trap_ctx_vpn_range K"
  have n: "unat i < 10240" "unat j < 10240" "unat end_va \<le> 2 ^ 38"
    using i j assms(5) by (simp_all add: word_less_nat_alt word_le_nat_alt MAX_TID_COUNT_def)
  have bi: "unat end_va + 40960 + 36864 * unat i < 2 ^ 39" and bj: "unat end_va + 40960 + 36864 * unat j < 2 ^ 39"
    using n by simp_all
  have ti: "unat i \<le> 2 ^ 27 - 2" "unat j \<le> 2 ^ 27 - 2" using n by simp_all
  note ui = user_stack_range [OF K bi surjective_pairing [of "?us i"]]
    and uj = user_stack_range [OF K bj surjective_pairing [of "?us j"]]
    and ci = trap_ctx_range [OF K ti(1) surjective_pairing [of "?tc i"]]
    and cj = trap_ctx_range [OF K ti(2) surjective_pairing [of "?tc j"]]
  have ceil: "unat (vpn_ceil K end_va) = (unat end_va + 4095) div 4096"
    using unat_vpn_ceil [OF K, of end_va] n(3) by simp
  have ne: "unat i \<noteq> unat j" using assms(4) by (simp add: word_unat_eq_iff)
  have top: "(unat end_va + 4095) div 4096 \<le> 2 ^ 26" using n(3) by simp
  have "snd (?tc i) = fst (?tc i) + 1"
    using ci n by (simp add: word_unat_eq_iff unat_word_ariths)
  moreover have "fst (?tc i) \<noteq> fst (?tc j)" using ci(1) cj(1) ne n by (auto simp: word_unat_eq_iff)
  moreover have "fst (?tc i) < TRAMPOLINE_VIRTUAL_PAGE_NUMBER K"
    using ci(1) n by (simp add: trampoline_vpn [OF K] word_less_nat_alt)
  moreover have "snd (?us i) < fst (?tc j)"
    using ui cj(1) n top by (simp add: word_less_nat_alt)
  moreover have "vpn_ceil K end_va < fst (?us i)" using ui(1) ceil by (simp add: word_less_nat_alt)
  moreover have "apart (?us i) (?us j)"
    using ui uj ne by (simp add: apart_def word_less_nat_alt) linarith
  ultimately show ?thesis using ui(2) by (simp add: Let_def)
qed

theorem task_pages_apart_witness:
  "apart (get_user_task_stack_vpn_range rust_crates 0x12345 0) (get_user_task_stack_vpn_range rust_crates 0x12345 7)"
  using task_pages_apart [OF rust_crates_ok, of 0 7 "0x12345"] by (simp add: MAX_TID_COUNT_def Let_def)

end
