(* ===== verification/Space_Spec.thy ===== *)
theory Space_Spec
  imports Space_Layout Area_Data
begin

text \<open>
  The invariant of an address space and what the operations that add and remove areas do to it.
\<close>

section \<open>The invariant\<close>

abbreviation vm_of :: "space_state \<Rightarrow> vm" where
  "vm_of \<equiv> \<lambda>(sp, m). (page_range_allocator sp, space_page_table sp, m)"

abbreviation pt_of :: "space_state \<Rightarrow> pt_state" where
  "pt_of \<equiv> \<lambda>(sp, m). (space_page_table sp, m)"

definition areas_of :: "space \<Rightarrow> area set" where
  "areas_of sp = snd ` set (area_set sp)"

text \<open>
  Every area of the set is mapped and shares no page with another; the allocated page ranges are
  exactly those of the areas.
\<close>

definition areas_inv :: "crates \<Rightarrow> usize \<Rightarrow> usize set \<Rightarrow> vm \<Rightarrow> area set \<Rightarrow> bool" where
  "areas_inv K st R v A \<longleftrightarrow>
     vm_inv K st R v \<and> (\<forall>ar \<in> A. area_ok K v ar) \<and>
     (\<forall>ar \<in> A. \<forall>ar' \<in> A. ar \<noteq> ar' \<longrightarrow> area_pages ar \<inter> area_pages ar' = {}) \<and>
     pr_used (fst v) = \<Union> (area_pages ` A)"

text \<open>Moreover every area of a space is filed under its range.\<close>

definition space_inv :: "crates \<Rightarrow> usize \<Rightarrow> usize set \<Rightarrow> space_state \<Rightarrow> bool" where
  "space_inv K st R = (\<lambda>(sp, m).
     areas_inv K st R (vm_of (sp, m)) (areas_of sp) \<and> bt_wf (area_set sp) \<and>
     (\<forall>(k, ar) \<in> set (area_set sp). k = area_range ar))"

lemma areas_of_get:
  assumes "space_inv K st R (sp, m)"
  shows "ar \<in> areas_of sp \<longleftrightarrow> bt_get (area_set sp) (area_range ar) = Some ar"
proof -
  have wf: "bt_wf (area_set sp)" and keys: "\<forall>(k, ar) \<in> set (area_set sp). k = area_range ar"
    using assms by (auto simp: space_inv_def areas_inv_def)
  show ?thesis
    unfolding bt_get_iff [OF wf] areas_of_def using keys by force
qed

lemma area_set_get:
  assumes "space_inv K st R (sp, m)" and "bt_get (area_set sp) k = Some ar"
  shows "ar \<in> areas_of sp" and "area_range ar = k"
proof -
  have "bt_wf (area_set sp)" using assms(1) by (simp add: space_inv_def areas_inv_def)
  then have "(k, ar) \<in> set (area_set sp)" using assms(2) by (simp add: bt_get_iff)
  then show "ar \<in> areas_of sp" "area_range ar = k"
    using assms(1) by (force simp: areas_of_def, auto simp: space_inv_def)
qed

lemma area_pages_range: "area_pages ar = {fst (area_range ar)..<snd (area_range ar)}"
  by (simp add: area_pages_def area_range_def)

lemma area_nonempty:
  assumes "area_ok K v ar"
  shows "area_pages ar \<noteq> {}"
  using assms by (cases v) (auto simp: area_ok_def range_ok_def area_pages_def)

lemma area_range_inj:
  assumes "space_inv K st R (sp, m)" and "ar \<in> areas_of sp" and "ar' \<in> areas_of sp" and "area_range ar = area_range ar'"
  shows "ar = ar'"
  using areas_of_get [OF assms(1)] assms by (metis option.inject)

section \<open>Adding an area\<close>

lemma page_mapped_cong:
  assumes "vpn_view K s' v = vpn_view K s v" and "pt_trackers (fst s') v = pt_trackers (fst s) v"
  shows "page_mapped K k s' v = page_mapped K k s v"
  using assms by (cases k) (simp_all add: page_mapped_def)

lemma area_ok_mapped:
  assumes ok: "area_ok K (a, s) ar" and m: "mapped_in K st k V s s'" and used: "pr_used a' = pr_used a \<union> V"
    and disj: "V \<inter> pr_used a = {}"
  shows "area_ok K (a', s') ar"
proof -
  have "v \<in> pr_used a" "v < 2 ^ 27" if "v \<in> area_pages ar" for v
    using ok that by (auto simp: area_ok_def range_ok_def area_pages_def intro: order.strict_trans2)
  then have "v \<notin> V" "v < 2 ^ 27" if "v \<in> area_pages ar" for v using disj that by auto
  then have "page_mapped K (area_kind ar) s' v = page_mapped K (area_kind ar) s v" if "v \<in> area_pages ar" for v
    using m that by (intro page_mapped_cong) (simp_all add: mapped_in_def)
  then show ?thesis using ok used by (auto simp: area_ok_def range_ok_def)
qed

lemma push_new:
  assumes inv: "space_inv K st R (sp, m)"
    and vm: "vm_inv K st R (a', t', m')" and mp: "mapped_in K st k (area_pages ar) (space_page_table sp, m) (t', m')"
    and used: "pr_used a' = pr_used (page_range_allocator sp) \<union> area_pages ar"
    and free: "area_pages ar \<inter> pr_used (page_range_allocator sp) = {}" and ok: "area_ok K (a', t', m') ar"
  shows "bt_get (area_set sp) (area_range ar) = None"
    and "space_inv K st R (sp\<lparr>area_set := bt_insert (area_range ar) ar (area_set sp),
           page_range_allocator := a', space_page_table := t'\<rparr>, m')"
proof -
  have wf: "bt_wf (area_set sp)" using inv by (simp add: space_inv_def areas_inv_def)
  show new: "bt_get (area_set sp) (area_range ar) = None"
  proof (rule ccontr)
    assume "bt_get (area_set sp) (area_range ar) \<noteq> None"
    then obtain x where x: "bt_get (area_set sp) (area_range ar) = Some x" by blast
    then have "area_pages x = area_pages ar" "area_pages x \<subseteq> pr_used (page_range_allocator sp)"
      using area_set_get [OF inv x] inv by (auto simp: area_pages_range space_inv_def areas_inv_def)
    then show False using free area_nonempty [OF ok] by auto
  qed
  let ?sp = "sp\<lparr>area_set := bt_insert (area_range ar) ar (area_set sp),
           page_range_allocator := a', space_page_table := t'\<rparr>"
  have elems: "set (bt_insert (area_range ar) ar (area_set sp)) = insert (area_range ar, ar) (set (area_set sp))"
    by (rule bt_set_insert [OF new])
  have as: "areas_of ?sp = insert ar (areas_of sp)"
    by (simp add: areas_of_def elems)
  have sub: "area_pages x \<subseteq> pr_used (page_range_allocator sp)" if "x \<in> areas_of sp" for x
    using inv that by (auto simp: space_inv_def areas_inv_def)
  have "area_ok K (a', t', m') x" if "x \<in> areas_of sp" for x
    using area_ok_mapped [OF _ mp used free] inv that by (auto simp: space_inv_def areas_inv_def)
  moreover have "area_pages x \<inter> area_pages y = {}"
    if "x \<in> areas_of ?sp" "y \<in> areas_of ?sp" "x \<noteq> y" for x y
  proof -
    have old: "area_pages x \<inter> area_pages y = {}" if "x \<in> areas_of sp" "y \<in> areas_of sp"
      using inv that \<open>x \<noteq> y\<close> by (auto simp: space_inv_def areas_inv_def)
    have new: "area_pages ar \<inter> area_pages z = {}" if "z \<in> areas_of sp" for z
      using sub [OF that] free by blast
    show ?thesis using that old new [of x] new [of y] unfolding as by (metis Int_commute insertE)
  qed
  moreover have "pr_used a' = \<Union> (area_pages ` areas_of ?sp)"
    using used inv unfolding as by (auto simp: space_inv_def areas_inv_def)
  ultimately show "space_inv K st R (?sp, m')"
    using vm ok inv wf elems as by (auto simp: space_inv_def areas_inv_def)
qed

lemma new_area_spec:
  assumes inv: "space_inv K st R (sp, m)" and R: "{b..<e} \<inter> R = {}" and fl: "k = Framed \<longrightarrow> fl \<noteq> 0"
  obtains (created) sp' m' where "new_area K b e fl k None (sp, m) = (Ok (), (sp', m'))"
      and "space_inv K st R (sp', m')" and "range_ok 0 (2 ^ 27) (pr_used (page_range_allocator sp)) b e True"
      and "mapped_in K st k {b..<e} (pt_of (sp, m)) (pt_of (sp', m'))"
      and "area_set sp' = bt_insert (b, e) (area_of b e fl k) (area_set sp)"
      and "areas_of sp' = insert (area_of b e fl k) (areas_of sp)"
    | (refused) "new_area K b e fl k None (sp, m) = (Err (AreaAllocFailed b e), (sp, m))"
      and "\<not> range_ok 0 (2 ^ 27) (pr_used (page_range_allocator sp)) b e True"
    | (exhausted) s' where "new_area K b e fl k None (sp, m) = (Panic, s')"
      and "fst (area_map K (area_of b e fl k) (pt_of (sp, m))) = Err FrameExhausted"
proof -
  let ?ar = "area_of b e fl k"
  have rng: "area_range ?ar = (b, e)" and pg: "area_pages ?ar = {b..<e}"
    by (simp_all add: area_range_def area_of_def area_pages_def)
  have vm: "vm_inv K st R (page_range_allocator sp, space_page_table sp, m)" and wf: "bt_wf (area_set sp)"
    using inv by (simp_all add: space_inv_def areas_inv_def)
  from vm R fl show thesis
  proof (cases rule: area_new_spec)
    case n: (created a' s')
    obtain t' m' where s': "s' = (t', m')" by (cases s')
    let ?sp = "sp\<lparr>area_set := bt_insert (b, e) ?ar (area_set sp), page_range_allocator := a', space_page_table := t'\<rparr>"
    have free: "area_pages ?ar \<inter> pr_used (page_range_allocator sp) = {}"
      using n(2) by (simp add: pg range_ok_def)
    have mp: "mapped_in K st k (area_pages ?ar) (space_page_table sp, m) (t', m')" using n(4) s' pg by simp
    have used: "pr_used a' = pr_used (page_range_allocator sp) \<union> area_pages ?ar" using n(5) pg by simp
    note pn = push_new [OF inv n(3) [unfolded s'] mp used free n(6) [unfolded s'], unfolded rng]
    have "new_area K b e fl k None (sp, m) = (Ok (), (?sp, m'))"
      using n(1) pn(1) s' by (simp add: new_area_def on_vm_def push_def kbind_def rng Let_def)
    moreover have "areas_of ?sp = insert ?ar (areas_of sp)"
    proof -
      have "x \<in> areas_of ?sp \<longleftrightarrow> x \<in> insert ?ar (areas_of sp)" for x
        using areas_of_get [OF pn(2), of x] areas_of_get [OF inv, of x] pn(1) wf rng
        by (auto split: if_splits)
      then show ?thesis by blast
    qed
    ultimately show thesis using created pn(2) n(2,4) s' by simp
  next
    case n: refused
    then have "new_area K b e fl k None (sp, m) = (Err (AreaAllocFailed b e), (sp, m))"
      by (simp add: new_area_def on_vm_def kbind_def)
    then show thesis using refused n(2) by blast
  next
    case n: (exhausted s1 s')
    then have "\<exists>z. new_area K b e fl k None (sp, m) = (Panic, z)"
      by (cases s') (simp add: new_area_def on_vm_def kbind_def)
    then show thesis using exhausted n(3) by auto
  qed
qed

section \<open>Removing areas\<close>

lemma area_ok_unmapped:
  assumes ok: "area_ok K (a, s) ar" and u: "unmapped_in K st V s s'" and used: "pr_used a' = pr_used a - V"
    and disj: "area_pages ar \<inter> V = {}"
  shows "area_ok K (a', s') ar"
proof -
  have "v \<notin> V" "v < 2 ^ 27" if "v \<in> area_pages ar" for v
    using ok disj that by (auto simp: area_ok_def range_ok_def area_pages_def intro: order.strict_trans2)
  then have "page_mapped K (area_kind ar) s' v = page_mapped K (area_kind ar) s v" if "v \<in> area_pages ar" for v
    using u that by (intro page_mapped_cong) (simp_all add: unmapped_in_def)
  moreover have "area_pages ar \<subseteq> pr_used a'"
    using ok used disj by (auto simp: area_ok_def range_ok_def area_pages_def)
  ultimately show ?thesis using ok by (auto simp: area_ok_def range_ok_def area_pages_def)
qed

lemma drop_one_area:
  assumes inv: "areas_inv K st R (a, s) A" and ar: "ar \<in> A"
  obtains a' s' where "area_drop K ar (a, s) = (Ok (), (a', s'))" and "areas_inv K st R (a', s') (A - {ar})"
    and "unmapped_in K st (area_pages ar) s s'"
proof -
  have v: "vm_inv K st R (a, s)" and ok: "area_ok K (a, s) ar"
    using inv ar by (auto simp: areas_inv_def)
  obtain a' s' where d: "area_drop K ar (a, s) = (Ok (), (a', s'))" "vm_inv K st R (a', s')"
    "unmapped_in K st (area_pages ar) s s'" "pr_used a' = pr_used a - area_pages ar"
    by (rule area_drop_spec [OF v ok])
  have disj: "area_pages x \<inter> area_pages ar = {}" if "x \<in> A - {ar}" for x
    using inv ar that by (auto simp: areas_inv_def)
  have "area_ok K (a', s') x" if "x \<in> A - {ar}" for x
    using area_ok_unmapped [OF _ d(3,4) disj [OF that]] inv that by (auto simp: areas_inv_def)
  moreover have "pr_used a' = \<Union> (area_pages ` (A - {ar}))"
  proof -
    have "pr_used a = area_pages ar \<union> \<Union> (area_pages ` (A - {ar}))"
      using inv ar by (auto simp: areas_inv_def)
    moreover have "area_pages ar \<inter> \<Union> (area_pages ` (A - {ar})) = {}" using disj by blast
    ultimately show ?thesis using d(4) by blast
  qed
  ultimately have "areas_inv K st R (a', s') (A - {ar})"
    using d(2) inv by (auto simp: areas_inv_def)
  then show thesis using that d(1,3) by blast
qed

lemma pop_spec:
  assumes inv: "space_inv K st R (sp, m)" and get: "bt_get (area_set sp) (b, e) = Some ar"
  obtains sp' m' where "pop K b e (sp, m) = (Ok (), (sp', m'))" and "space_inv K st R (sp', m')"
    and "unmapped_in K st {b..<e} (pt_of (sp, m)) (pt_of (sp', m'))"
    and "area_set sp' = bt_remove (b, e) (area_set sp)" and "areas_of sp' = areas_of sp - {ar}"
proof -
  note g = area_set_get [OF inv get]
  have i: "areas_inv K st R (page_range_allocator sp, space_page_table sp, m) (areas_of sp)"
    and wf: "bt_wf (area_set sp)" and keys: "\<forall>(k, x) \<in> set (area_set sp). k = area_range x"
    using inv by (simp_all add: space_inv_def)
  obtain a' s' where d: "area_drop K ar (page_range_allocator sp, space_page_table sp, m) = (Ok (), (a', s'))"
    "areas_inv K st R (a', s') (areas_of sp - {ar})"
    "unmapped_in K st (area_pages ar) (space_page_table sp, m) s'"
    by (rule drop_one_area [OF i g(1)])
  obtain t' m' where s': "s' = (t', m')" by (cases s')
  let ?sp = "sp\<lparr>area_set := bt_remove (b, e) (area_set sp), page_range_allocator := a', space_page_table := t'\<rparr>"
  have run: "pop K b e (sp, m) = (Ok (), (?sp, m'))"
    using d(1) s' get by (simp add: pop_def on_vm_def)
  have as: "areas_of ?sp = areas_of sp - {ar}"
  proof -
    have "x \<in> areas_of ?sp \<longleftrightarrow> x \<in> areas_of sp \<and> area_range x \<noteq> (b, e)" for x
      using keys by (force simp: areas_of_def bt_set_remove)
    moreover have "area_range x = (b, e) \<longleftrightarrow> x = ar" if "x \<in> areas_of sp" for x
      using area_range_inj [OF inv that g(1)] g(2) by auto
    ultimately show ?thesis by blast
  qed
  have "space_inv K st R (?sp, m')"
    using d(2) s' as wf keys by (auto simp: space_inv_def bt_set_remove)
  moreover have "{b..<e} = area_pages ar" using g(2) by (simp add: area_pages_range)
  ultimately show thesis using that run d(3) s' as by simp
qed

lemma pop_absent:
  "bt_get (area_set sp) (b, e) = None \<Longrightarrow> pop K b e (sp, m) = (Err (AreaDeallocFailed b e), (sp, m))"
  by (simp add: pop_def)

text \<open>Dropping a list of areas one after the other.\<close>

lemma drop_areas_spec:
  assumes "areas_inv K st R (vm_of (sp, m)) A" and "distinct (map snd l)" and "snd ` set l \<subseteq> A"
  obtains sp' m' where "drop_areas K l (sp, m) = (Ok (), (sp', m'))"
    and "areas_inv K st R (vm_of (sp', m')) (A - snd ` set l)"
    and "unmapped_in K st (\<Union> (area_pages ` snd ` set l)) (pt_of (sp, m)) (pt_of (sp', m'))"
    and "area_set sp' = area_set sp"
  using assms
proof (induction l arbitrary: sp m A thesis)
  case Nil
  then show ?case
    using unmapped_in_refl [of K st] by (auto simp: drop_areas_def areas_inv_def vm_inv_def)
next
  case (Cons p l)
  obtain k ar where p: "p = (k, ar)" by (cases p)
  have i: "areas_inv K st R (page_range_allocator sp, space_page_table sp, m) A" and ar: "ar \<in> A"
    using Cons.prems p by auto
  obtain a' s' where d: "area_drop K ar (page_range_allocator sp, space_page_table sp, m) = (Ok (), (a', s'))"
    "areas_inv K st R (a', s') (A - {ar})" "unmapped_in K st (area_pages ar) (space_page_table sp, m) s'"
    by (rule drop_one_area [OF i ar])
  obtain t' m' where s': "s' = (t', m')" by (cases s')
  let ?sp = "sp\<lparr>page_range_allocator := a', space_page_table := t'\<rparr>"
  have run: "drop_areas K (p # l) (sp, m) = drop_areas K l (?sp, m')"
    using d(1) s' by (simp add: drop_areas_def p on_vm_def kbind_def)
  have i': "areas_inv K st R (vm_of (?sp, m')) (A - {ar})" using d(2) s' by simp
  have l: "distinct (map snd l)" "snd ` set l \<subseteq> A - {ar}" using Cons.prems p by auto
  obtain sp2 m2 where r: "drop_areas K l (?sp, m') = (Ok (), (sp2, m2))"
    "areas_inv K st R (vm_of (sp2, m2)) (A - {ar} - snd ` set l)"
    "unmapped_in K st (\<Union> (area_pages ` snd ` set l)) (pt_of (?sp, m')) (pt_of (sp2, m2))"
    "area_set sp2 = area_set ?sp"
    by (rule Cons.IH [OF _ i' l])
  have low: "area_pages ar \<subseteq> {..<2 ^ 27}"
    using i ar by (auto simp: areas_inv_def area_ok_def range_ok_def area_pages_def intro: order.strict_trans2)
  have disj: "area_pages ar \<inter> \<Union> (area_pages ` snd ` set l) = {}"
  proof -
    have "area_pages ar \<inter> area_pages x = {}" if "x \<in> snd ` set l" for x
      using i ar l(2) that unfolding areas_inv_def by blast
    then show ?thesis by blast
  qed
  have "unmapped_in K st (\<Union> (area_pages ` snd ` set (p # l))) (pt_of (sp, m)) (pt_of (sp2, m2))"
    using unmapped_in_trans [OF d(3) _ disj low, of "pt_of (sp2, m2)"] r(3) s' p by simp
  moreover have "A - snd ` set (p # l) = A - {ar} - snd ` set l" using p by auto
  ultimately show ?case using Cons.prems(1) run r(1,2,4) by simp
qed

section \<open>Other address spaces\<close>

text \<open>The frames that a page table owns, and that another table owns none of them.\<close>

definition table_frames :: "page_table \<Rightarrow> usize set" where
  "table_frames t = pt_nodes t \<union> ran (pt_trackers t)"

definition separate :: "usize \<Rightarrow> machine \<Rightarrow> page_table \<Rightarrow> page_table \<Rightarrow> bool" where
  "separate st m t t' \<longleftrightarrow> table_frames t' \<subseteq> others st (t, m) - ran (pt_trackers t)"

lemma other_table_kept:
  assumes other: "pt_inv K st (t', m)" and cur: "pt_inv K st (t1, m1)"
    and same: "\<And>p. p \<in> table_frames t' \<Longrightarrow> mem m1 p = mem m p"
    and own: "table_frames t' \<subseteq> owned_frames st m1"
  shows "pt_inv K st (t', m1)" and "vpn_view K (t', m1) = vpn_view K (t', m)"
proof -
  have "frames_ok st t' m1"
    using other cur own by (auto simp: pt_inv_def frames_ok_def table_frames_def)
  moreover have "mem m1 p = mem m p" if "p \<in> pt_nodes t'" for p
    using same that by (simp add: table_frames_def)
  ultimately have "pt_inv K st (t', m1) \<and> pt_look K (t', m1) = pt_look K (t', m)"
    using machine_change_inv [OF other, of m1] by blast
  then show "pt_inv K st (t', m1)" "vpn_view K (t', m1) = vpn_view K (t', m)"
    using vpn_view_cong by blast+
qed

lemma mapped_in_separate:
  assumes other: "pt_inv K st (t', m)" and sep: "separate st m t t'" and mp: "mapped_in K st k V (t, m) (t1, m1)"
  shows "pt_inv K st (t', m1)" and "vpn_view K (t', m1) = vpn_view K (t', m)"
    and "\<forall>p \<in> table_frames t'. mem m1 p = mem m p" and "separate st m1 t1 t'"
proof -
  have i: "pt_inv K st (t1, m1)" using mp by (simp add: mapped_in_def)
  have oth: "others st (t1, m1) = others st (t, m) \<union> frames_of (t1, m1) V" using mp by (simp add: mapped_in_def)
  show same: "\<forall>p \<in> table_frames t'. mem m1 p = mem m p"
    using mp sep by (auto simp: mapped_in_def enlarges_def separate_def)
  have "table_frames t' \<subseteq> owned_frames st m1"
    using sep oth by (auto simp: separate_def others_def)
  from other_table_kept [OF other i _ this] same
  show "pt_inv K st (t', m1)" "vpn_view K (t', m1) = vpn_view K (t', m)" by blast+
  have "ran (pt_trackers t1) \<subseteq> ran (pt_trackers t) \<union> frames_of (t1, m1) V"
  proof
    fix f assume "f \<in> ran (pt_trackers t1)"
    then obtain v where v: "pt_trackers t1 v = Some f" by (auto simp: ran_def)
    show "f \<in> ran (pt_trackers t) \<union> frames_of (t1, m1) V"
    proof (cases "v \<in> V")
      case True
      then have "(pt_trackers t1 |` V) v = Some f" using v by simp
      then show ?thesis by (auto simp: frames_of_def intro: ranI)
    next
      case False
      then have "pt_trackers t v = Some f" using v mp by (simp add: mapped_in_def)
      then show ?thesis by (auto intro: ranI)
    qed
  qed
  moreover have "frames_of (t1, m1) V \<inter> others st (t, m) = {}" using mp by (auto simp: mapped_in_def)
  ultimately show "separate st m1 t1 t'" using sep oth by (auto simp: separate_def)
qed

lemma unmapped_in_separate:
  assumes other: "pt_inv K st (t', m)" and sep: "separate st m t t'" and u: "unmapped_in K st V (t, m) (t1, m1)"
  shows "pt_inv K st (t', m1)" and "vpn_view K (t', m1) = vpn_view K (t', m)"
    and "\<forall>p \<in> table_frames t'. mem m1 p = mem m p" and "separate st m1 t1 t'"
proof -
  have i: "pt_inv K st (t1, m1)" using u by (simp add: unmapped_in_def)
  have "frames_of (t, m) V \<subseteq> ran (pt_trackers t)" using frames_of_ran [of "(t, m)" V] by simp
  then have oth: "table_frames t' \<subseteq> others st (t1, m1)"
    using u sep by (auto simp: unmapped_in_def separate_def)
  then show same: "\<forall>p \<in> table_frames t'. mem m1 p = mem m p"
    using u by (auto simp: unmapped_in_def enlarges_def)
  have "table_frames t' \<subseteq> owned_frames st m1" using oth by (auto simp: others_def)
  from other_table_kept [OF other i _ this] same
  show "pt_inv K st (t', m1)" "vpn_view K (t', m1) = vpn_view K (t', m)" by blast+
  have "ran (pt_trackers t1) \<subseteq> ran (pt_trackers t)"
  proof
    fix f assume "f \<in> ran (pt_trackers t1)"
    then obtain v where v: "pt_trackers t1 v = Some f" by (auto simp: ran_def)
    then have "v \<notin> V" using u by (auto simp: unmapped_in_def)
    then have "pt_trackers t v = Some f" using v u by (simp add: unmapped_in_def)
    then show "f \<in> ran (pt_trackers t)" by (rule ranI)
  qed
  then show "separate st m1 t1 t'" using oth sep by (auto simp: separate_def)
qed

section \<open>Histories\<close>

datatype space_call = New_Area usize usize u8 area_mapping | Pop_Area usize usize

fun space_step :: "crates \<Rightarrow> space_call \<Rightarrow> (space_state, unit) kop" where
  "space_step K (New_Area b e fl k) = new_area K b e fl k None"
| "space_step K (Pop_Area b e) = pop K b e"

text \<open>The answers of a sequence of calls; only a panic ends the sequence.\<close>

fun space_run :: "crates \<Rightarrow> space_call list \<Rightarrow> (space_state, kernel_error option list) kop" where
  "space_run K [] s = (Ok [], s)"
| "space_run K (c # cs) s =
     (case space_step K c s of
        (Ok _, s') \<Rightarrow> kbind (space_run K cs) (\<lambda>as. kret (None # as)) s'
      | (Err x, s') \<Rightarrow> kbind (space_run K cs) (\<lambda>as. kret (Some x # as)) s'
      | (Panic, s') \<Rightarrow> (Panic, s')
      | (Hang, s') \<Rightarrow> (Hang, s'))"

text \<open>What a space promises: a set of ranges that do not overlap.\<close>

definition range_free :: "usize \<Rightarrow> usize \<Rightarrow> (usize \<times> usize) set \<Rightarrow> bool" where
  "range_free b e S \<longleftrightarrow> b < e \<and> e \<le> 2 ^ 27 \<and> (\<forall>(b', e') \<in> S. {b..<e} \<inter> {b'..<e'} = {})"

fun ranges_run :: "space_call list \<Rightarrow> (usize \<times> usize) set \<Rightarrow> kernel_error option list \<times> (usize \<times> usize) set" where
  "ranges_run [] S = ([], S)"
| "ranges_run (New_Area b e fl k # cs) S =
     (if range_free b e S then case ranges_run cs (insert (b, e) S) of (as, S') \<Rightarrow> (None # as, S')
      else case ranges_run cs S of (as, S') \<Rightarrow> (Some (AreaAllocFailed b e) # as, S'))"
| "ranges_run (Pop_Area b e # cs) S =
     (if (b, e) \<in> S then case ranges_run cs (S - {(b, e)}) of (as, S') \<Rightarrow> (None # as, S')
      else case ranges_run cs S of (as, S') \<Rightarrow> (Some (AreaDeallocFailed b e) # as, S'))"

definition ranges_of :: "space \<Rightarrow> (usize \<times> usize) set" where
  "ranges_of sp = area_range ` areas_of sp"

definition call_ok :: "usize set \<Rightarrow> space_call \<Rightarrow> bool" where
  "call_ok R c = (case c of New_Area b e fl k \<Rightarrow> {b..<e} \<inter> R = {} \<and> (k = Framed \<longrightarrow> fl \<noteq> 0) | Pop_Area b e \<Rightarrow> True)"

text \<open>The call at which a sequence ran out of frames.\<close>

definition exhausted_at :: "crates \<Rightarrow> space_call list \<Rightarrow> space_state \<Rightarrow> bool" where
  "exhausted_at K cs s \<longleftrightarrow>
     (\<exists>cs1 b e fl k cs2 as s1. cs = cs1 @ New_Area b e fl k # cs2 \<and> space_run K cs1 s = (Ok as, s1) \<and>
        fst (area_map K (area_of b e fl k) (pt_of s1)) = Err FrameExhausted)"

lemma range_free_iff:
  assumes "space_inv K st R (sp, m)"
  shows "range_ok 0 (2 ^ 27) (pr_used (page_range_allocator sp)) b e True \<longleftrightarrow> range_free b e (ranges_of sp)"
proof -
  have "pr_used (page_range_allocator sp) = \<Union> (area_pages ` areas_of sp)"
    using assms by (simp add: space_inv_def areas_inv_def)
  then have "{b..<e} \<inter> pr_used (page_range_allocator sp) = {} \<longleftrightarrow> (\<forall>ar \<in> areas_of sp. {b..<e} \<inter> area_pages ar = {})"
    by blast
  also have "\<dots> \<longleftrightarrow> (\<forall>(b', e') \<in> ranges_of sp. {b..<e} \<inter> {b'..<e'} = {})"
    unfolding ranges_of_def area_pages_range ball_simps split_beta by blast
  finally have "{b..<e} \<inter> pr_used (page_range_allocator sp) = {} \<longleftrightarrow> (\<forall>(b', e') \<in> ranges_of sp. {b..<e} \<inter> {b'..<e'} = {})" .
  then show ?thesis by (simp add: range_ok_def range_free_def)
qed

lemma ranges_of_get:
  assumes "space_inv K st R (sp, m)"
  shows "(b, e) \<in> ranges_of sp \<longleftrightarrow> bt_get (area_set sp) (b, e) \<noteq> None"
proof
  assume "(b, e) \<in> ranges_of sp"
  then obtain ar where "ar \<in> areas_of sp" "area_range ar = (b, e)" by (auto simp: ranges_of_def)
  then show "bt_get (area_set sp) (b, e) \<noteq> None" using areas_of_get [OF assms, of ar] by simp
next
  assume "bt_get (area_set sp) (b, e) \<noteq> None"
  then obtain ar where "bt_get (area_set sp) (b, e) = Some ar" by blast
  from area_set_get [OF assms this] show "(b, e) \<in> ranges_of sp" by (force simp: ranges_of_def)
qed

text \<open>One call against the set of ranges.\<close>

lemma space_step_spec:
  assumes inv: "space_inv K st R s" and ok: "call_ok R c"
  shows "case space_step K c s of
      (Ok _, s') \<Rightarrow> space_inv K st R s' \<and> ranges_run [c] (ranges_of (fst s)) = ([None], ranges_of (fst s'))
    | (Err x, s') \<Rightarrow> s' = s \<and> ranges_run [c] (ranges_of (fst s)) = ([Some x], ranges_of (fst s))
    | (Panic, _) \<Rightarrow> exhausted_at K [c] s
    | (Hang, _) \<Rightarrow> False"
proof -
  obtain sp m where s: "s = (sp, m)" by (cases s)
  note i = inv [unfolded s]
  show ?thesis
  proof (cases c)
    case c: (New_Area b e fl k)
    then have R: "{b..<e} \<inter> R = {}" and fl: "k = Framed \<longrightarrow> fl \<noteq> 0" using ok by (auto simp: call_ok_def)
    from i R fl show ?thesis
    proof (cases rule: new_area_spec)
      case (created sp' m')
      then have "ranges_of sp' = insert (b, e) (ranges_of sp)"
        by (simp add: ranges_of_def area_range_def area_of_def)
      then show ?thesis using created(1-3) range_free_iff [OF i] by (simp add: c s)
    next
      case refused
      then show ?thesis using range_free_iff [OF i] by (simp add: c s)
    next
      case (exhausted s')
      then have "exhausted_at K [c] s"
        unfolding exhausted_at_def c s by (intro exI [of _ "[]"]) simp
      then show ?thesis using exhausted(1) by (simp add: c s)
    qed
  next
    case c: (Pop_Area b e)
    show ?thesis
    proof (cases "bt_get (area_set sp) (b, e)")
      case None
      then show ?thesis using ranges_of_get [OF i, of b e] pop_absent [of sp b e] by (simp add: c s)
    next
      case (Some ar)
      obtain sp' m' where p: "pop K b e (sp, m) = (Ok (), (sp', m'))" "space_inv K st R (sp', m')"
        "areas_of sp' = areas_of sp - {ar}"
        by (rule pop_spec [OF i Some])
      note g = area_set_get [OF i Some]
      have "inj_on area_range (areas_of sp)"
        using area_range_inj [OF i] by (auto simp: inj_on_def)
      then have "ranges_of sp' = ranges_of sp - {(b, e)}"
        using g p(3) by (simp add: ranges_of_def inj_on_image_set_diff)
      then show ?thesis using p(1,2) Some ranges_of_get [OF i, of b e] by (simp add: c s)
    qed
  qed
qed

lemma ranges_run_Cons:
  "ranges_run (c # cs) S =
     (case ranges_run [c] S of (as, S1) \<Rightarrow> case ranges_run cs S1 of (as', S') \<Rightarrow> (as @ as', S'))"
  by (cases c) (auto split: prod.splits)

lemma exhausted_at_Cons:
  assumes "space_step K c s = (r, s1)" and "r = Ok u \<or> r = Err x" and "exhausted_at K cs s1"
  shows "exhausted_at K (c # cs) s"
proof -
  obtain cs1 b e fl k cs2 as s2 where *: "cs = cs1 @ New_Area b e fl k # cs2" "space_run K cs1 s1 = (Ok as, s2)"
    "fst (area_map K (area_of b e fl k) (pt_of s2)) = Err FrameExhausted"
    using assms(3) by (auto simp: exhausted_at_def)
  have "\<exists>as'. space_run K (c # cs1) s = (Ok as', s2)"
    using assms(1,2) *(2) by auto
  then show ?thesis unfolding exhausted_at_def using * by (metis append_Cons)
qed

lemma exhausted_at_first:
  assumes "exhausted_at K [c] s"
  shows "exhausted_at K (c # cs) s"
proof -
  obtain b e fl k where "c = New_Area b e fl k" "fst (area_map K (area_of b e fl k) (pt_of s)) = Err FrameExhausted"
    using assms by (auto simp: exhausted_at_def Cons_eq_append_conv)
  then show ?thesis unfolding exhausted_at_def by (intro exI [of _ "[]"]) simp
qed

lemma space_run_spec:
  assumes "space_inv K st R s" and "\<forall>c \<in> set cs. call_ok R c"
  shows "case space_run K cs s of
      (Ok as, s') \<Rightarrow> space_inv K st R s' \<and> ranges_run cs (ranges_of (fst s)) = (as, ranges_of (fst s'))
    | (Panic, _) \<Rightarrow> exhausted_at K cs s
    | _ \<Rightarrow> False"
  using assms
proof (induction cs arbitrary: s)
  case Nil
  then show ?case by simp
next
  case (Cons c cs)
  have ok: "call_ok R c" "\<forall>c \<in> set cs. call_ok R c" using Cons.prems(2) by auto
  note st = space_step_spec [OF Cons.prems(1) ok(1)]
  obtain r s1 where r: "space_step K c s = (r, s1)" by (cases "space_step K c s")
  have go: ?case if res: "r = Ok () \<and> a = None \<or> (\<exists>x. r = Err x \<and> a = Some x)"
    and inv1: "space_inv K st R s1" and one: "ranges_run [c] (ranges_of (fst s)) = ([a], ranges_of (fst s1))" for a
  proof -
    have run: "space_run K (c # cs) s = kbind (space_run K cs) (\<lambda>as. kret (a # as)) s1"
      using r res by auto
    obtain q s2 where q: "space_run K cs s1 = (q, s2)" by (cases "space_run K cs s1")
    note ih = Cons.IH [OF inv1 ok(2), unfolded q]
    show ?thesis
    proof (cases q)
      case (Ok as)
      then show ?thesis
        unfolding run ranges_run_Cons [of c cs] using ih q one by simp
    next
      case Panic
      then have "exhausted_at K (c # cs) s" using ih exhausted_at_Cons [OF r] res by auto
      then show ?thesis unfolding run using Panic q by simp
    qed (use ih in auto)
  qed
  show ?case
  proof (cases r)
    case (Ok u)
    then show ?thesis using st r go [of None] by simp
  next
    case (Err x)
    then show ?thesis using st r go [of "Some x"] Cons.prems(1) by auto
  next
    case Panic
    then have "exhausted_at K (c # cs) s" using st r exhausted_at_first by simp
    then show ?thesis using Panic r by simp
  qed (use st r in simp)
qed

end
