(* ===== verification/Space_Properties.thy ===== *)
theory Space_Properties
  imports Space_Spec
begin

text \<open>
  Properties of address spaces: histories of areas, isolation between spaces, recycling, and the
  stacks of tasks.
\<close>

section \<open>New spaces\<close>

lemma new_bare_inv:
  assumes K: "crates_ok K" and fi: "frame_inv st (frame_allocator m)" "end_ppn (frame_allocator m) \<le> 2 ^ 44"
    and new: "new_bare K asid m = (Ok sp, m')"
  shows "space_inv K st {} (sp, m')" and "areas_of sp = {}" and "ranges_of sp = {}"
proof -
  obtain t where t: "page_table_new asid m = (Ok t, m')"
    and sp: "\<exists>a. page_ranges_new 0 (2 ^ 27) = Ok a \<and> sp = \<lparr>area_set = [], space_page_table = t, page_range_allocator = a\<rparr>"
    using new by (auto simp: new_bare_def kbind_def klift_def max_vpn [OF K] split: prod.splits outcome.splits)
  then obtain a where a: "page_ranges_new 0 (2 ^ 27) = Ok a"
    and sp: "sp = \<lparr>area_set = [], space_page_table = t, page_range_allocator = a\<rparr>" by blast
  note pt = page_table_new_inv [OF fi t] and pr = page_ranges_new_inv [OF a]
  have "pt_trackers t = Map.empty"
    using t by (auto simp: page_table_new_def kbind_def split: prod.splits outcome.splits)
  then have "vm_inv K st {} (a, t, m')" using K pt(1,2) pr by (simp add: vm_inv_def)
  then show "space_inv K st {} (sp, m')"
    using pr(2) by (simp add: space_inv_def areas_inv_def areas_of_def sp)
  show "areas_of sp = {}" "ranges_of sp = {}" by (simp_all add: areas_of_def ranges_of_def sp)
qed

lemma sample_space:
  assumes "16 < n" and "n \<le> 2 ^ 44"
  obtains sp m where "new_bare rust_crates 1 (sample_machine n) = (Ok sp, m)" and "space_inv rust_crates 16 {} (sp, m)"
    and "ranges_of sp = {}" and "page_table_new 1 (sample_machine n) = (Ok (space_page_table sp), m)"
proof -
  obtain a t m where s: "page_ranges_new 0 (2 ^ 27) = Ok a" "page_table_new 1 (sample_machine n) = (Ok t, m)"
    by (rule sample_vm [OF assms])
  let ?sp = "\<lparr>area_set = [], space_page_table = t, page_range_allocator = a\<rparr>"
  have new: "new_bare rust_crates 1 (sample_machine n) = (Ok ?sp, m)"
    using s by (simp add: new_bare_def kbind_def klift_def max_vpn [OF rust_crates_ok])
  have fi: "frame_inv 16 (frame_allocator (sample_machine n))" "end_ppn (frame_allocator (sample_machine n)) \<le> 2 ^ 44"
    using assms by (simp_all add: frame_inv_def sample_machine_def)
  note i = new_bare_inv [OF rust_crates_ok fi new]
  show thesis by (rule that [OF new i(1,3)]) (simp add: s(2))
qed

lemma sample_space_area:
  obtains sp m sp' m' where "new_bare rust_crates 1 (sample_machine 32) = (Ok sp, m)"
    and "new_area rust_crates 5 7 6 Framed None (sp, m) = (Ok (), (sp', m'))"
    and "space_inv rust_crates 16 {} (sp', m')" and "areas_of sp' = {area_of 5 7 6 Framed}"
proof -
  obtain sp m where n: "new_bare rust_crates 1 (sample_machine 32) = (Ok sp, m)" "space_inv rust_crates 16 {} (sp, m)"
    "ranges_of sp = {}" "page_table_new 1 (sample_machine 32) = (Ok (space_page_table sp), m)"
    by (rule sample_space [of 32]) simp_all
  have fl: "{5..<7} \<inter> {} = ({} :: usize set)" "Framed = Framed \<longrightarrow> (6 :: u8) \<noteq> 0" by simp_all
  have free: "range_free 5 7 (ranges_of sp)" by (simp add: range_free_def n(3))
  have ok: "is_ok (area_map rust_crates (area_of 5 7 6 Framed) (space_page_table sp, m))"
    using sample_area_map_ok n(4) by simp
  show thesis
    by (rule new_area_spec [OF n(2) fl])
       (use that [OF n(1)] n(3) free range_free_iff [OF n(2)] ok in \<open>auto simp: is_ok_def ranges_of_def\<close>)
qed

section \<open>Histories of areas\<close>

text \<open>
  C1. The areas of a space over any history: from a new space on, every sequence of creating
  and removing areas (with valid flags, and away from directly mapped pages) answers exactly as a
  set of non-overlapping ranges does: a range is refused if and only if it is empty, out of the
  address space or overlaps a live area, and an area can be removed if and only if it is live. The
  invariant of the space holds throughout. Only running out of frames while an area is being
  mapped can end the sequence, with a panic.
\<close>

theorem space_history:
  assumes "crates_ok K" and "frame_inv st (frame_allocator m)" and "end_ppn (frame_allocator m) \<le> 2 ^ 44"
    and "new_bare K asid m = (Ok sp, m')" and "\<forall>c \<in> set cs. call_ok {} c"
  shows "case space_run K cs (sp, m') of
      (Ok as, s') \<Rightarrow> space_inv K st {} s' \<and> ranges_run cs {} = (as, ranges_of (fst s'))
    | (Panic, _) \<Rightarrow> exhausted_at K cs (sp, m')
    | _ \<Rightarrow> False"
  using space_run_spec [OF new_bare_inv(1) [OF assms(1-4)] assms(5)]
  unfolding fst_conv new_bare_inv(3) [OF assms(1-4)] .

theorem space_history_witness:
  "case new_bare rust_crates 1 (sample_machine 32) of
     (Ok sp, m') \<Rightarrow>
       (case space_run rust_crates [New_Area 5 7 6 Framed] (sp, m') of
          (Ok as, s') \<Rightarrow> as = [None] \<and> ranges_of (fst s') = {(5, 7)} \<and> space_inv rust_crates 16 {} s'
        | _ \<Rightarrow> False)
   | _ \<Rightarrow> False"
proof -
  let ?cs = "[New_Area 5 7 6 Framed]"
  obtain sp m where n: "new_bare rust_crates 1 (sample_machine 32) = (Ok sp, m)"
    "page_table_new 1 (sample_machine 32) = (Ok (space_page_table sp), m)"
    by (rule sample_space [of 32]) simp_all
  have fi: "frame_inv 16 (frame_allocator (sample_machine 32))" "end_ppn (frame_allocator (sample_machine 32)) \<le> 2 ^ 44"
    by (simp_all add: frame_inv_def sample_machine_def)
  have ok: "\<forall>c \<in> set ?cs. call_ok {} c" by (simp add: call_ok_def)
  have "is_ok (area_map rust_crates (area_of 5 7 6 Framed) (space_page_table sp, m))"
    using sample_area_map_ok n(2) by simp
  then have ne: "\<not> exhausted_at rust_crates ?cs (sp, m)"
    by (auto simp: exhausted_at_def Cons_eq_append_conv is_ok_def)
  have "ranges_run ?cs {} = ([None], {(5, 7)})" by (simp add: range_free_def)
  then show ?thesis
    using space_history [OF rust_crates_ok fi n(1) ok] n(1) ne
    by (auto simp del: space_run.simps split: prod.splits outcome.splits)
qed

section \<open>Isolation\<close>

text \<open>
  C2. Spaces are isolated from one another: creating or removing an area in one space leaves
  another space, whose page table owns other frames, untouched: its page table stays well-formed,
  translates every page as before, and all of its frames keep their contents. The two spaces still
  own different frames afterwards, so this holds for any number of calls.
\<close>

theorem spaces_isolated:
  assumes "space_inv K st R (sp, m)" and "call_ok R c" and "space_step K c (sp, m) = (Ok (), (sp', m'))"
    and "pt_inv K st (other, m)" and "separate st m (space_page_table sp) other"
  shows "pt_inv K st (other, m') \<and> vpn_view K (other, m') = vpn_view K (other, m) \<and>
    (\<forall>p \<in> table_frames other. mem m' p = mem m p) \<and> separate st m' (space_page_table sp') other"
proof (cases c)
  case c: (New_Area b e fl k)
  then have R: "{b..<e} \<inter> R = {}" and fl: "k = Framed \<longrightarrow> fl \<noteq> 0" using assms(2) by (auto simp: call_ok_def)
  have "mapped_in K st k {b..<e} (space_page_table sp, m) (space_page_table sp', m')"
    by (rule new_area_spec [OF assms(1) R fl]) (use assms(3) c in auto)
  from mapped_in_separate [OF assms(4,5) this] show ?thesis by blast
next
  case c: (Pop_Area b e)
  obtain ar where ar: "bt_get (area_set sp) (b, e) = Some ar"
    using assms(3) c by (auto simp: pop_def split: option.splits)
  have "unmapped_in K st {b..<e} (space_page_table sp, m) (space_page_table sp', m')"
    by (rule pop_spec [OF assms(1) ar]) (use assms(3) c in auto)
  from unmapped_in_separate [OF assms(4,5) this] show ?thesis by blast
qed

text \<open>A new table leaves the others alone and owns frames of its own.\<close>

lemma new_table_separate:
  assumes i: "pt_inv K st (t, m)" and t2: "page_table_new asid m = (Ok t2, m2)"
  shows "pt_inv K st (t, m2)" and "vpn_view K (t, m2) = vpn_view K (t, m)" and "separate st m2 t2 t"
proof -
  have fi: "frame_inv st (frame_allocator m)" "end_ppn (frame_allocator m) \<le> 2 ^ 44" and own: "table_frames t \<subseteq> owned_frames st m"
    using i by (auto simp: pt_inv_def frames_ok_def table_frames_def)
  note pt2 = page_table_new_inv [OF fi t2]
  have e2: "pt_trackers t2 = Map.empty" "pt_nodes t2 = {root_ppn t2}"
    using t2 by (auto simp: page_table_new_def kbind_def pt_nodes_def split: prod.splits outcome.splits)
  have root: "root_ppn t2 \<notin> table_frames t" using pt2(4) own by auto
  have kept: "mem m2 p = mem m p" if "p \<in> table_frames t" for p using that root pt2(6) by metis
  have "owned_frames st m \<subseteq> owned_frames st m2" using pt2(5) by auto
  then have sub: "table_frames t \<subseteq> owned_frames st m2" using own by blast
  show "pt_inv K st (t, m2)" "vpn_view K (t, m2) = vpn_view K (t, m)"
    using other_table_kept [OF i pt2(1) kept sub] by simp_all
  show "separate st m2 t2 t" using root own pt2(5) e2 by (auto simp: separate_def others_def)
qed

text \<open>Two new spaces own different frames.\<close>

lemma two_spaces:
  obtains sp m sp2 m2 where "new_bare rust_crates 1 (sample_machine 32) = (Ok sp, m)"
    and "new_bare rust_crates 2 m = (Ok sp2, m2)" and "space_inv rust_crates 16 {} (sp2, m2)"
    and "pt_inv rust_crates 16 (space_page_table sp, m2)" and "separate 16 m2 (space_page_table sp2) (space_page_table sp)"
    and "is_ok (area_map rust_crates (area_of 5 7 6 Framed) (space_page_table sp2, m2))" and "ranges_of sp2 = {}"
proof -
  have run: "case page_table_new 1 (sample_machine 32) of
       (Ok t, m) \<Rightarrow> (case page_table_new 2 m of
          (Ok t2, m2) \<Rightarrow> is_ok (area_map rust_crates (area_of 5 7 6 Framed) (t2, m2)) | _ \<Rightarrow> False)
     | _ \<Rightarrow> False"
    by code_simp
  obtain sp m where n: "new_bare rust_crates 1 (sample_machine 32) = (Ok sp, m)" "space_inv rust_crates 16 {} (sp, m)"
    "page_table_new 1 (sample_machine 32) = (Ok (space_page_table sp), m)"
    by (rule sample_space [of 32]) simp_all
  let ?t = "space_page_table sp"
  have i: "pt_inv rust_crates 16 (?t, m)" using n(2) by (simp add: space_inv_def areas_inv_def vm_inv_def)
  then have fi: "frame_inv 16 (frame_allocator m)" "end_ppn (frame_allocator m) \<le> 2 ^ 44"
    by (auto simp: pt_inv_def frames_ok_def)
  obtain t2 m2 where t2: "page_table_new 2 m = (Ok t2, m2)"
    and ok: "is_ok (area_map rust_crates (area_of 5 7 6 Framed) (t2, m2))"
    using run n(3) by (auto split: prod.splits outcome.splits)
  obtain a where a: "page_ranges_new 0 (2 ^ 27) = Ok a"
    by (simp add: page_ranges_new_def new_node_def Let_def)
  let ?sp2 = "\<lparr>area_set = [], space_page_table = t2, page_range_allocator = a\<rparr>"
  have new: "new_bare rust_crates 2 m = (Ok ?sp2, m2)"
    using a t2 by (simp add: new_bare_def kbind_def klift_def max_vpn [OF rust_crates_ok])
  from new_table_separate [OF i t2] new_bare_inv [OF rust_crates_ok fi new] ok show thesis
    using that [OF n(1) new] by simp
qed

theorem spaces_isolated_witness:
  "\<exists>sp m sp2 m2 sp3 m3. new_bare rust_crates 1 (sample_machine 32) = (Ok sp, m) \<and>
     new_bare rust_crates 2 m = (Ok sp2, m2) \<and>
     space_step rust_crates (New_Area 5 7 6 Framed) (sp2, m2) = (Ok (), (sp3, m3)) \<and>
     pt_inv rust_crates 16 (space_page_table sp, m3) \<and> separate 16 m3 (space_page_table sp3) (space_page_table sp)"
proof -
  obtain sp m sp2 m2 where s: "new_bare rust_crates 1 (sample_machine 32) = (Ok sp, m)"
    "new_bare rust_crates 2 m = (Ok sp2, m2)" "space_inv rust_crates 16 {} (sp2, m2)"
    "pt_inv rust_crates 16 (space_page_table sp, m2)" "separate 16 m2 (space_page_table sp2) (space_page_table sp)"
    "is_ok (area_map rust_crates (area_of 5 7 6 Framed) (space_page_table sp2, m2))" "ranges_of sp2 = {}"
    by (rule two_spaces)
  have fl: "{5..<7} \<inter> {} = ({} :: usize set)" "Framed = Framed \<longrightarrow> (6 :: u8) \<noteq> 0"
    and c: "call_ok {} (New_Area 5 7 6 Framed)" by (simp_all add: call_ok_def)
  have free: "range_free 5 7 (ranges_of sp2)" by (simp add: range_free_def s(7))
  obtain sp3 m3 where n: "space_step rust_crates (New_Area 5 7 6 Framed) (sp2, m2) = (Ok (), (sp3, m3))"
    by (rule new_area_spec [OF s(3) fl])
       (use free range_free_iff [OF s(3)] s(6) in \<open>auto simp: is_ok_def\<close>)
  from spaces_isolated [OF s(3) c n s(4,5)] s(1,2) n show ?thesis by blast
qed

section \<open>Recycling\<close>

lemma recycle_spec:
  assumes inv: "space_inv K st R (sp, m)"
  obtains sp' m' where "recycle_data_pages K (sp, m) = (Ok (), (sp', m'))" and "space_inv K st R (sp', m')"
    and "area_set sp' = []" and "unmapped_in K st (pr_used (page_range_allocator sp)) (pt_of (sp, m)) (pt_of (sp', m'))"
    and "pr_used (page_range_allocator sp') = {}" and "pt_trackers (space_page_table sp') = Map.empty"
    and "others st (space_page_table sp', m') = others st (space_page_table sp, m) - ran (pt_trackers (space_page_table sp))"
proof -
  have i: "areas_inv K st R (vm_of (sp, m)) (areas_of sp)" and wf: "bt_wf (area_set sp)"
    and keys: "\<forall>(k, ar) \<in> set (area_set sp). k = area_range ar"
    using inv by (auto simp: space_inv_def)
  have "fst p = area_range (snd p)" if "p \<in> set (area_set sp)" for p using keys that by auto
  then have "inj_on snd (set (area_set sp))" by (metis inj_onI prod_eq_iff)
  then have dist: "distinct (map snd (area_set sp))"
    using bt_wf_distinct [OF wf] by (simp add: distinct_map)
  have i': "areas_inv K st R (vm_of (sp\<lparr>area_set := []\<rparr>, m)) (areas_of sp)" using i by simp
  obtain sp' m' where d: "drop_areas K (area_set sp) (sp\<lparr>area_set := []\<rparr>, m) = (Ok (), (sp', m'))"
    "areas_inv K st R (vm_of (sp', m')) (areas_of sp - snd ` set (area_set sp))"
    "unmapped_in K st (\<Union> (area_pages ` snd ` set (area_set sp))) (pt_of (sp\<lparr>area_set := []\<rparr>, m)) (pt_of (sp', m'))"
    "area_set sp' = area_set (sp\<lparr>area_set := []\<rparr>)"
    by (rule drop_areas_spec [OF i' dist]) (simp add: areas_of_def)
  have all: "\<Union> (area_pages ` snd ` set (area_set sp)) = pr_used (page_range_allocator sp)"
    using i by (simp add: areas_inv_def areas_of_def)
  have inv': "space_inv K st R (sp', m')" and none: "area_set sp' = []"
    using d by (simp_all add: space_inv_def areas_of_def)
  then have used: "pr_used (page_range_allocator sp') = {}" by (simp add: space_inv_def areas_inv_def areas_of_def)
  have "dom (pt_trackers (space_page_table sp)) \<subseteq> pr_used (page_range_allocator sp)"
    using inv unfolding space_inv_def areas_inv_def vm_inv_def split_conv fst_conv by blast
  then have "frames_of (space_page_table sp, m) (pr_used (page_range_allocator sp)) = ran (pt_trackers (space_page_table sp))"
    by (auto simp: frames_of_def ran_def restrict_map_def dom_def)
  moreover have "pt_trackers (space_page_table sp') = Map.empty"
    using inv' used by (auto simp: space_inv_def areas_inv_def vm_inv_def)
  moreover have u: "unmapped_in K st (pr_used (page_range_allocator sp)) (pt_of (sp, m)) (pt_of (sp', m'))"
    using d(3) unfolding all by simp
  moreover from u have "others st (space_page_table sp', m') =
      others st (space_page_table sp, m) - frames_of (space_page_table sp, m) (pr_used (page_range_allocator sp))"
    by (simp add: unmapped_in_def)
  ultimately show thesis
    using d(1) inv' none used by (intro that [of sp' m']) (simp_all add: recycle_data_pages_def)
qed

text \<open>
  Recycling a space removes all of its areas without a panic: no page but those mapped
  directly is mapped afterwards, no page range is allocated, and exactly the frames of its areas
  are given back.
\<close>

theorem recycle_frees_areas:
  assumes inv: "space_inv K st R (sp, m)"
  shows "\<exists>sp' m'. recycle_data_pages K (sp, m) = (Ok (), (sp', m')) \<and> space_inv K st R (sp', m') \<and>
    area_set sp' = [] \<and> pr_used (page_range_allocator sp') = {} \<and> pt_trackers (space_page_table sp') = Map.empty \<and>
    (\<forall>v < 2 ^ 27. v \<notin> R \<longrightarrow> vpn_view K (space_page_table sp', m') v = None) \<and>
    others st (space_page_table sp', m') = others st (space_page_table sp, m) - ran (pt_trackers (space_page_table sp))"
proof -
  obtain sp' m' where d: "recycle_data_pages K (sp, m) = (Ok (), (sp', m'))" "space_inv K st R (sp', m')" "area_set sp' = []"
    "pr_used (page_range_allocator sp') = {}" "pt_trackers (space_page_table sp') = Map.empty"
    "others st (space_page_table sp', m') = others st (space_page_table sp, m) - ran (pt_trackers (space_page_table sp))"
    by (rule recycle_spec [OF inv])
  then show ?thesis by (simp add: space_inv_def areas_inv_def vm_inv_def)
qed

end
