(* ===== verification/User_Memory.thy ===== *)
theory User_Memory
  imports Space_Properties
begin

text \<open>
  Reading the memory of a user space from the kernel: \<open>translated_byte_buffers\<close> and
  \<open>translated_string\<close> against the bytes at the virtual addresses.
\<close>

section \<open>Bytes at virtual addresses\<close>

definition user_page :: "crates \<Rightarrow> page_table \<Rightarrow> nat \<Rightarrow> usize option" where
  "user_page K t n = pt_trackers t (vpn_floor K (of_nat n))"

definition user_byte :: "crates \<Rightarrow> page_table \<Rightarrow> memory \<Rightarrow> nat \<Rightarrow> u8" where
  "user_byte K t M n = frame_byte M (the (user_page K t n)) (n mod 4096)"

lemma unat_va_offset:
  assumes "crates_ok K"
  shows "unat (get_va_offset K va) = unat va mod 4096"
proof -
  have "get_va_offset K va = take_bit 12 va"
    using get_bits_ok [OF assms, of 0 12 va] by (simp add: get_va_offset_def get_pa_offset_def)
  then have "unat (get_va_offset K va) = take_bit 12 (unat va)" by (simp only: unsigned_take_bit_eq)
  then show ?thesis by (simp add: take_bit_eq_mod)
qed

lemma same_user_page:
  assumes "crates_ok K" and "n div 4096 = k div 4096" and "n < 2 ^ 64" and "k < 2 ^ 64"
  shows "user_page K t n = user_page K t k"
proof -
  have "unat (vpn_floor K (of_nat n)) = unat (vpn_floor K (of_nat k))"
    using assms by (simp add: vpn_floor_def unat_get_vpn [OF assms(1)] unat_of_nat)
  then have "vpn_floor K (of_nat n) = vpn_floor K (of_nat k)" by (simp only: word_unat_eq_iff)
  then show ?thesis by (simp add: user_page_def)
qed

lemma upt_split: "i \<le> j \<Longrightarrow> j \<le> k \<Longrightarrow> [i..<k] = [i..<j] @ [j..<k]"
  using upt_add_eq_append [of i j "k - j"] by simp

text \<open>A piece of one page.\<close>

lemma page_piece:
  assumes K: "crates_ok K" and "s < T" and "T \<le> s + (4096 - s mod 4096)" and "T < 2 ^ 64"
    and f: "user_page K t s = Some f"
  shows "slice_bytes M (f, s mod 4096, s mod 4096 + (T - s)) = map (user_byte K t M) [s..<T]"
    and "\<And>n. s \<le> n \<Longrightarrow> n < T \<Longrightarrow> user_page K t n = Some f"
proof -
  have page: "n div 4096 = s div 4096 \<and> n mod 4096 = s mod 4096 + (n - s)" if "s \<le> n" "n < T" for n
  proof -
    have lt: "s mod 4096 + (n - s) < 4096" using that assms(3) by linarith
    have "n = (s div 4096) * 4096 + (s mod 4096 + (n - s))"
      using that div_mult_mod_eq [of s 4096] by linarith
    then have "n div 4096 = s div 4096 + (s mod 4096 + (n - s)) div 4096"
      "n mod 4096 = (s mod 4096 + (n - s)) mod 4096"
      by (metis div_mult_self3 zero_neq_numeral add.commute, metis mod_mult_self3)
    then show ?thesis using lt by simp
  qed
  show up: "user_page K t n = Some f" if "s \<le> n" "n < T" for n
    using same_user_page [OF K, of n s t] page [OF that] f that assms(2,4) by simp
  have "frame_byte M f (s mod 4096 + i) = user_byte K t M (s + i)" if "i < T - s" for i
    using page [of "s + i"] up [of "s + i"] that by (simp add: user_byte_def)
  then show "slice_bytes M (f, s mod 4096, s mod 4096 + (T - s)) = map (user_byte K t M) [s..<T]"
    by (intro nth_equalityI) (auto simp: slice_bytes_def)
qed

section \<open>Byte buffers\<close>

lemma buffers_loop_spec:
  assumes "crates_ok K" and "s \<le> e" and "e + 4096 \<le> 2 ^ 64"
  shows "\<exists>r. buffers_loop K t (of_nat e) (of_nat s) acc = Some r \<and>
     (case r of
        Ok l \<Rightarrow> \<exists>new. l = acc @ new \<and> (\<forall>n \<in> {s..<e}. user_page K t n \<noteq> None) \<and>
          concat (map (slice_bytes M) new) = map (user_byte K t M) [s..<e]
      | Err x \<Rightarrow> \<exists>n \<in> {s..<e}. x = VPNNotMapped (vpn_floor K (of_nat n)) \<and> user_page K t n = None
      | _ \<Rightarrow> False)"
  using assms(2)
proof (induction "e - s" arbitrary: s acc rule: less_induct)
  case less
  have un: "unat (of_nat x :: usize) = x" if "x < 2 ^ 64" for x using that by (simp add: unat_of_nat)
  have us: "unat (of_nat s :: usize) = s" and ue: "unat (of_nat e :: usize) = e"
    using less.prems assms(3) by (auto intro!: un)
  show ?case
  proof (cases "s < e")
    case False
    then have "buffers_loop K t (of_nat e) (of_nat s) acc = Some (Ok acc)"
      using us ue by (subst buffers_loop.simps) (simp add: word_less_nat_alt)
    then show ?thesis using False by simp
  next
    case True
    define T where "T = min e (s + (4096 - s mod 4096))"
    have m: "s mod 4096 < 4096" by simp
    have T: "s < T" "T \<le> e" "T \<le> s + (4096 - s mod 4096)" "T < 2 ^ 64"
      using True assms(3) m by (auto simp: T_def)
    have off: "get_va_offset K (of_nat s) = of_nat (s mod 4096)"
      using unat_va_offset [OF assms(1), of "of_nat s"] us by (simp add: word_unat_eq_iff unat_of_nat)
    have len: "MEMORY_PAGE_BYTE_SIZE - of_nat (s mod 4096) = (of_nat (4096 - s mod 4096) :: usize)"
      using m by (simp add: MEMORY_PAGE_BYTE_SIZE_def of_nat_diff)
    have Tw: "min (of_nat e) (of_nat s + of_nat (4096 - s mod 4096)) = (of_nat T :: usize)"
    proof -
      define d where "d = 4096 - s mod 4096"
      have "unat (of_nat (s + d) :: usize) = s + d"
        using True assms(3) by (intro un) (simp add: d_def)
      then show ?thesis
        using ue unfolding T_def d_def [symmetric] by (simp only: min_def word_le_nat_alt of_nat_add [symmetric]) simp
    qed
    define E where "E = s mod 4096 + (T - s)"
    have E4: "E \<le> 4096" using T(3) m by (simp add: E_def)
    have Emod: "T mod 4096 = E mod 4096"
    proof -
      have "T = (s div 4096) * 4096 + E" using T(1) div_mult_mod_eq [of s 4096] by (simp add: E_def)
      then show ?thesis by (metis mod_mult_self3)
    qed
    have endo: "(if get_va_offset K (of_nat T) = 0 then MEMORY_PAGE_BYTE_SIZE else get_va_offset K (of_nat T)) = of_nat E"
    proof -
      have "get_va_offset K (of_nat T) = of_nat (E mod 4096)"
        using unat_va_offset [OF assms(1), of "of_nat T"] un [OF T(4)] Emod by (simp add: word_unat_eq_iff unat_of_nat)
      moreover have "0 < E" using T(1) by (simp add: E_def)
      ultimately show ?thesis
        using E4 by (cases "E = 4096") (auto simp: MEMORY_PAGE_BYTE_SIZE_def word_unat_eq_iff unat_of_nat)
    qed
    have lt: "(of_nat s :: usize) < of_nat e" using us ue True by (simp add: word_less_nat_alt)
    have uE: "unat (of_nat E :: usize) = E" "unat (of_nat (s mod 4096) :: usize) = s mod 4096"
      using E4 m by (auto intro!: un)
    have "s mod 4096 \<le> E" by (simp add: E_def)
    then have chk: "(of_nat (s mod 4096) :: usize) \<le> of_nat E \<and> (of_nat E :: usize) \<le> MEMORY_PAGE_BYTE_SIZE"
      using E4 uE by (simp add: word_le_nat_alt MEMORY_PAGE_BYTE_SIZE_def)
    show ?thesis
    proof (cases "user_page K t s")
      case None
      then have "buffers_loop K t (of_nat e) (of_nat s) acc = Some (Err (VPNNotMapped (vpn_floor K (of_nat s))))"
        using lt by (subst buffers_loop.simps) (simp add: user_page_def get_tracker_with_def Let_def)
      then show ?thesis using None True by auto
    next
      case (Some f)
      note pp = page_piece [OF assms(1) T(1,3,4) Some]
      have step: "buffers_loop K t (of_nat e) (of_nat s) acc =
          buffers_loop K t (of_nat e) (of_nat T) (acc @ [(f, s mod 4096, E)])"
        using Some [unfolded user_page_def] lt chk
        by (subst buffers_loop.simps)
           (simp only: get_tracker_with_def Let_def off len Tw endo option.case outcome.case if_True uE simp_thms)
      obtain r where r: "buffers_loop K t (of_nat e) (of_nat T) (acc @ [(f, s mod 4096, E)]) = Some r"
        and ih: "case r of
            Ok l \<Rightarrow> \<exists>new. l = (acc @ [(f, s mod 4096, E)]) @ new \<and> (\<forall>n \<in> {T..<e}. user_page K t n \<noteq> None) \<and>
              concat (map (slice_bytes M) new) = map (user_byte K t M) [T..<e]
          | Err x \<Rightarrow> \<exists>n \<in> {T..<e}. x = VPNNotMapped (vpn_floor K (of_nat n)) \<and> user_page K t n = None
          | _ \<Rightarrow> False"
      proof -
        have "e - T < e - s" using T True by linarith
        from less.hyps [OF this T(2), of "acc @ [(f, s mod 4096, E)]"] that show thesis by blast
      qed
      have split: "[s..<e] = [s..<T] @ [T..<e]" using T(1,2) by (intro upt_split) simp_all
      have "case r of
        Ok l \<Rightarrow> \<exists>new. l = acc @ new \<and> (\<forall>n \<in> {s..<e}. user_page K t n \<noteq> None) \<and>
          concat (map (slice_bytes M) new) = map (user_byte K t M) [s..<e]
      | Err x \<Rightarrow> \<exists>n \<in> {s..<e}. x = VPNNotMapped (vpn_floor K (of_nat n)) \<and> user_page K t n = None
      | _ \<Rightarrow> False"
      proof (cases r)
        case (Ok l)
        then obtain new where new: "l = acc @ (f, s mod 4096, E) # new" "\<forall>n \<in> {T..<e}. user_page K t n \<noteq> None"
          "concat (map (slice_bytes M) new) = map (user_byte K t M) [T..<e]" using ih by auto
        have "user_page K t n \<noteq> None" if "n \<in> {s..<e}" for n
          using that new(2) pp(2) [of n] by (cases "n < T") auto
        moreover have "concat (map (slice_bytes M) ((f, s mod 4096, E) # new)) = map (user_byte K t M) [s..<e]"
          using new(3) pp(1) [of M] by (simp add: split E_def)
        ultimately show ?thesis using Ok new(1) by auto
      next
        case (Err x)
        then show ?thesis using ih T(1) by auto
      qed (use ih in auto)
      then show ?thesis using step r by simp
    qed
  qed
qed

section \<open>Strings\<close>

lemma scan_bytes_spec:
  "scan_bytes bs str =
     (str @ map (\<lambda>b. char_of (unat b)) (takeWhile (\<lambda>b. b \<noteq> 0) bs), 0 \<in> set bs)"
  by (induction bs str rule: scan_bytes.induct) auto

lemma string_loop_spec:
  assumes K: "crates_ok K" and "s + d + 4096 < 2 ^ 64" and "\<forall>n \<in> {s..s + d}. user_page K t n \<noteq> None"
    and "\<forall>n \<in> {s..<s + d}. user_byte K t M n \<noteq> 0" and "user_byte K t M (s + d) = 0"
  shows "string_loop K t M (of_nat s) str =
     Some (Ok (str @ map (\<lambda>n. char_of (unat (user_byte K t M n))) [s..<s + d]))"
  using assms(2-5)
proof (induction d arbitrary: s str rule: less_induct)
  case (less d)
  define L where "L = 4096 - s mod 4096"
  have m: "s mod 4096 < 4096" by simp
  then have L: "0 < L" "L \<le> 4096" "s mod 4096 + L = 4096" by (simp_all add: L_def)
  obtain f where f: "user_page K t s = Some f" using less.prems(2) by (metis atLeastAtMost_iff le_add1 not_None_eq order_refl)
  have us: "unat (of_nat s :: usize) = s" using less.prems(1) by (simp add: unat_of_nat)
  have off: "get_va_offset K (of_nat s) = of_nat (s mod 4096)"
    using unat_va_offset [OF K, of "of_nat s"] us by (simp add: word_unat_eq_iff unat_of_nat)
  have uo: "unat (of_nat (s mod 4096) :: usize) = s mod 4096" using m by (simp add: unat_of_nat)
  have len: "of_nat s + (MEMORY_PAGE_BYTE_SIZE - of_nat (s mod 4096)) = (of_nat (s + L) :: usize)"
    using m by (simp add: MEMORY_PAGE_BYTE_SIZE_def of_nat_diff L_def)
  have sL: "s + L < 2 ^ 64" using less.prems(1) L by linarith
  have bytes: "slice_bytes M (f, s mod 4096, 4096) = map (user_byte K t M) [s..<s + L]"
    using page_piece(1) [OF K, of s "s + L" t f M] L f sL by (simp add: L_def)
  have step: "string_loop K t M (of_nat s) str =
      (case scan_bytes (map (user_byte K t M) [s..<s + L]) str of
         (str', found) \<Rightarrow> if found then Some (Ok str') else string_loop K t M (of_nat (s + L)) str')"
    using f [unfolded user_page_def]
    by (subst string_loop.simps) (simp only: Let_def off len uo bytes get_tracker_with_def option.case outcome.case)
  show ?case
  proof (cases "d < L")
    case True
    have sp: "[s..<s + L] = [s..<s + d] @ (s + d) # [Suc (s + d)..<s + L]"
      using True upt_split [of s "s + d" "s + L"] upt_conv_Cons [of "s + d" "s + L"] by simp
    have "takeWhile (\<lambda>b. b \<noteq> 0) (map (user_byte K t M) [s..<s + L]) = map (user_byte K t M) [s..<s + d]"
      using less.prems(3,4) unfolding sp by (simp add: takeWhile_append)
    moreover have "0 \<in> set (map (user_byte K t M) [s..<s + L])"
      using less.prems(4) unfolding sp by simp
    ultimately show ?thesis using step by (simp add: scan_bytes_spec comp_def)
  next
    case False
    then have nz: "\<forall>b \<in> set (map (user_byte K t M) [s..<s + L]). b \<noteq> 0" using less.prems(3) by auto
    then have "takeWhile (\<lambda>b. b \<noteq> 0) (map (user_byte K t M) [s..<s + L]) = map (user_byte K t M) [s..<s + L]"
      by (simp add: takeWhile_eq_all_conv)
    moreover have "0 \<notin> set (map (user_byte K t M) [s..<s + L])" using nz by blast
    ultimately have "scan_bytes (map (user_byte K t M) [s..<s + L]) str =
        (str @ map (\<lambda>n. char_of (unat (user_byte K t M n))) [s..<s + L], False)"
      by (simp only: scan_bytes_spec) (simp add: comp_def)
    then have "string_loop K t M (of_nat s) str =
        string_loop K t M (of_nat (s + L)) (str @ map (\<lambda>n. char_of (unat (user_byte K t M n))) [s..<s + L])"
      using step by simp
    also have "\<dots> = Some (Ok ((str @ map (\<lambda>n. char_of (unat (user_byte K t M n))) [s..<s + L]) @
        map (\<lambda>n. char_of (unat (user_byte K t M n))) [s + L..<s + L + (d - L)]))"
      by (rule less.IH) (use less.prems False L in auto)
    also have "s + L + (d - L) = s + d" using False by simp
    finally show ?thesis using False by (simp add: upt_split [of s "s + L" "s + d"])
  qed
qed

section \<open>Properties\<close>

text \<open>
  C21. A user buffer is translated to slices of the frames that back it: for an address range
  that does not reach the last page of the address space, the call returns, and the concatenation
  of the slices is exactly the bytes at the addresses of the range, in order and across pages; or
  some page of the range is not backed by a frame and that page is reported.
\<close>

theorem translated_buffers_bytes:
  assumes "crates_ok K" and "unat ptr + unat len + 4096 \<le> 2 ^ 64"
  shows "case translated_byte_buffers K ptr len sp of
      Ok (slices, l) \<Rightarrow> l = len \<and>
        (\<forall>n \<in> {unat ptr..<unat ptr + unat len}. user_page K (space_page_table sp) n \<noteq> None) \<and>
        concat (map (slice_bytes M) slices) = map (user_byte K (space_page_table sp) M) [unat ptr..<unat ptr + unat len]
    | Err x \<Rightarrow> \<exists>n \<in> {unat ptr..<unat ptr + unat len}.
        x = VPNNotMapped (vpn_floor K (of_nat n)) \<and> user_page K (space_page_table sp) n = None
    | _ \<Rightarrow> False"
proof -
  have eq: "of_nat (unat ptr + unat len) = ptr + len" "of_nat (unat ptr) = ptr" by simp_all
  from buffers_loop_spec [OF assms(1) le_add1 assms(2), of "space_page_table sp" "[]" M]
  obtain r where "buffers_loop K (space_page_table sp) (ptr + len) ptr [] = Some r"
    and "case r of
        Ok l \<Rightarrow> \<exists>new. l = [] @ new \<and> (\<forall>n \<in> {unat ptr..<unat ptr + unat len}. user_page K (space_page_table sp) n \<noteq> None) \<and>
          concat (map (slice_bytes M) new) = map (user_byte K (space_page_table sp) M) [unat ptr..<unat ptr + unat len]
      | Err x \<Rightarrow> \<exists>n \<in> {unat ptr..<unat ptr + unat len}.
          x = VPNNotMapped (vpn_floor K (of_nat n)) \<and> user_page K (space_page_table sp) n = None
      | _ \<Rightarrow> False"
    unfolding eq by blast
  then show ?thesis by (cases r) (auto simp: translated_byte_buffers_def)
qed

lemma sample_user_page:
  assumes "space_inv rust_crates 16 {} (sp', m')" and "areas_of sp' = {area_of 5 7 6 Framed}"
    and "5 \<le> n div 4096" and "n div 4096 < 7"
  obtains f where "user_page rust_crates (space_page_table sp') n = Some f"
proof -
  have lt: "n < 2 ^ 64" using assms(4) by simp
  have "unat (vpn_floor rust_crates (of_nat n)) = n div 4096"
    using unat_get_vpn [OF rust_crates_ok, of "of_nat n"] lt assms(4)
    by (simp add: vpn_floor_def unat_of_nat)
  then have "vpn_floor rust_crates (of_nat n) \<in> area_pages (area_of 5 7 6 Framed)"
    using assms(3,4) by (simp add: area_pages_def area_of_def word_le_nat_alt word_less_nat_alt)
  then have "page_mapped rust_crates Framed (space_page_table sp', m') (vpn_floor rust_crates (of_nat n))"
    using assms(1,2) by (auto simp: space_inv_def areas_inv_def area_ok_def area_of_def)
  then show thesis using that by (auto simp: page_mapped_def user_page_def)
qed

theorem translated_buffers_bytes_witness:
  "\<exists>sp m sp' m' slices. new_bare rust_crates 1 (sample_machine 32) = (Ok sp, m) \<and>
     new_area rust_crates 5 7 6 Framed None (sp, m) = (Ok (), (sp', m')) \<and>
     translated_byte_buffers rust_crates 24000 2000 sp' = Ok (slices, 2000) \<and>
     concat (map (slice_bytes (mem m')) slices) =
       map (user_byte rust_crates (space_page_table sp') (mem m')) [24000..<26000]"
proof -
  obtain sp m sp' m' where s: "new_bare rust_crates 1 (sample_machine 32) = (Ok sp, m)"
    "new_area rust_crates 5 7 6 Framed None (sp, m) = (Ok (), (sp', m'))"
    "space_inv rust_crates 16 {} (sp', m')" "areas_of sp' = {area_of 5 7 6 Framed}"
    by (rule sample_space_area)
  have pg: "\<forall>n \<in> {24000..<26000}. user_page rust_crates (space_page_table sp') n \<noteq> None"
  proof
    fix n :: nat assume "n \<in> {24000..<26000}"
    then have "5 \<le> n div 4096" "n div 4096 < 7" by auto
    then show "user_page rust_crates (space_page_table sp') n \<noteq> None"
      by (rule sample_user_page [OF s(3,4)]) simp
  qed
  have "unat (24000 :: usize) + unat (2000 :: usize) + 4096 \<le> 2 ^ 64" by simp
  note b = translated_buffers_bytes [OF rust_crates_ok this, of sp' "mem m'"]
  have "\<exists>slices. translated_byte_buffers rust_crates 24000 2000 sp' = Ok (slices, 2000) \<and>
      concat (map (slice_bytes (mem m')) slices) =
        map (user_byte rust_crates (space_page_table sp') (mem m')) [24000..<26000]"
  proof (cases "translated_byte_buffers rust_crates 24000 2000 sp'")
    case (Err x)
    then show ?thesis using b pg by auto
  qed (use b in auto)
  then show ?thesis using s(1,2) by blast
qed

text \<open>
  C22. A NULL-terminated user string is read exactly: when every page up to the first NULL byte is
  backed by a frame, the call returns the characters before it, whatever the number of pages they
  span.
\<close>

theorem translated_string_bytes:
  assumes "crates_ok K" and "unat ptr + d + 4096 < 2 ^ 64"
    and "\<forall>n \<in> {unat ptr..unat ptr + d}. user_page K (space_page_table sp) n \<noteq> None"
    and "\<forall>n \<in> {unat ptr..<unat ptr + d}. user_byte K (space_page_table sp) (mem m) n \<noteq> 0"
    and "user_byte K (space_page_table sp) (mem m) (unat ptr + d) = 0"
  shows "translated_string K ptr (sp, m) =
    Ok (map (\<lambda>n. char_of (unat (user_byte K (space_page_table sp) (mem m) n))) [unat ptr..<unat ptr + d])"
  using string_loop_spec [OF assms, of "[]"] by (simp add: translated_string_def)

theorem translated_string_bytes_witness:
  "\<exists>sp m sp' m'. new_bare rust_crates 1 (sample_machine 32) = (Ok sp, m) \<and>
     new_area rust_crates 5 7 6 Framed None (sp, m) = (Ok (), (sp', m')) \<and>
     translated_string rust_crates 24000
       (sp', m'\<lparr>mem := frame_write (the (user_page rust_crates (space_page_table sp') 24000)) 3520 [104, 105, 0] (mem m')\<rparr>) =
     Ok ''hi''"
proof -
  obtain sp m sp' m' where s: "new_bare rust_crates 1 (sample_machine 32) = (Ok sp, m)"
    "new_area rust_crates 5 7 6 Framed None (sp, m) = (Ok (), (sp', m'))"
    "space_inv rust_crates 16 {} (sp', m')" "areas_of sp' = {area_of 5 7 6 Framed}"
    by (rule sample_space_area)
  let ?t = "space_page_table sp'"
  obtain f where f: "user_page rust_crates ?t 24000 = Some f"
    by (rule sample_user_page [OF s(3,4), of 24000]) simp_all
  let ?m = "m'\<lparr>mem := frame_write f 3520 [104, 105, 0] (mem m')\<rparr>"
  have pg: "user_page rust_crates ?t 24001 = Some f" "user_page rust_crates ?t 24002 = Some f"
    using f same_user_page [OF rust_crates_ok, of 24001 24000 ?t] same_user_page [OF rust_crates_ok, of 24002 24000 ?t]
    by simp_all
  have bytes: "user_byte rust_crates ?t (mem ?m) 24000 = 104" "user_byte rust_crates ?t (mem ?m) 24001 = 105"
    "user_byte rust_crates ?t (mem ?m) 24002 = 0"
    using f pg by (simp_all add: user_byte_def frame_write_byte del: frame_write.simps)
  have ns: "{24000..24002} = {24000, 24001, 24002 :: nat}" "{24000..<24002} = {24000, 24001 :: nat}"
    "[24000..<24002] = [24000, 24001 :: nat]" by (auto simp: upt_rec)
  have "translated_string rust_crates 24000 (sp', ?m) =
      Ok (map (\<lambda>n. char_of (unat (user_byte rust_crates ?t (mem ?m) n))) [24000..<24002])"
    using translated_string_bytes [OF rust_crates_ok, of 24000 2 sp' ?m] f pg bytes ns by simp
  also have "\<dots> = Ok ''hi''"
  proof -
    have "char_of (104 :: nat) = CHR ''h''" "char_of (105 :: nat) = CHR ''i''" by code_simp+
    then show ?thesis unfolding ns using bytes by (simp del: frame_write.simps)
  qed
  finally show ?thesis using s(1,2) f by auto
qed

end
