(* ===== verification/Trap_Context.thy ===== *)
theory Trap_Context
  imports Spaces
begin

text \<open>
  The saved registers of a task (src/trap/context_riscv.rs) and of a kernel thread
  (src/task/context.rs).

  A trap context lives in the trap context page of its task; \<open>load_trap_ctx\<close> and
  \<open>store_trap_ctx\<close> read and write the \<open>repr(C)\<close> layout, 37 words from the start of
  the frame. The control register \<open>sstatus\<close> is read through the riscv crate: its fields are
  the record \<open>sstatus_value\<close>.
\<close>

unbundle bit_operations_syntax

section \<open>The context\<close>

record trap_context =
  tc_x :: "usize list"
  tc_sstatus :: usize
  tc_sepc :: usize
  tc_kernel_mmu_token :: usize
  tc_trap_handler_va :: usize
  tc_kernel_sp_va :: usize

definition trap_ctx_default :: trap_context where
  "trap_ctx_default = \<lparr>tc_x = replicate 32 0, tc_sstatus = 0, tc_sepc = 0, tc_kernel_mmu_token = 0,
     tc_trap_handler_va = 0, tc_kernel_sp_va = 0\<rparr>"

definition set_sp :: "usize \<Rightarrow> trap_context \<Rightarrow> trap_context" where
  "set_sp sp c = c\<lparr>tc_x := (tc_x c)[2 := sp]\<rparr>"

definition set_arg :: "usize \<Rightarrow> usize \<Rightarrow> (trap_context, unit) kop" where
  "set_arg index v =
     kbind (kassert (index \<le> 7)) (\<lambda>_ c. (Ok (), c\<lparr>tc_x := (tc_x c)[unat (10 + index) := v]\<rparr>))"

definition get_arg :: "usize \<Rightarrow> trap_context \<Rightarrow> usize outcome" where
  "get_arg index c = (if index \<le> 7 then Ok (tc_x c ! unat (10 + index)) else Panic)"

definition sepc_to_next_instruction :: "(trap_context, usize) kop" where
  "sepc_to_next_instruction c = (Ok (tc_sepc c + 4), c\<lparr>tc_sepc := tc_sepc c + 4\<rparr>)"

section \<open>The initial context of a task\<close>

definition SSTATUS_SIE_POSITION :: nat where "SSTATUS_SIE_POSITION = 1"
definition SSTATUS_SPIE_POSITION :: nat where "SSTATUS_SPIE_POSITION = 5"
definition SSTATUS_SPP_POSITION :: nat where "SSTATUS_SPP_POSITION = 8"
definition SSTATUS_SUM_POSITION :: nat where "SSTATUS_SUM_POSITION = 18"
definition SSTATUS_MXR_POSITION :: nat where "SSTATUS_MXR_POSITION = 19"
definition SSTATUS_FS_RANGE :: "nat \<times> nat" where "SSTATUS_FS_RANGE = (13, 15)"
definition SSTATUS_XS_RANGE :: "nat \<times> nat" where "SSTATUS_XS_RANGE = (15, 17)"

record sstatus_value =
  sts_sie :: bool
  sts_spie :: bool
  sts_spp :: usize
  sts_sum :: bool
  sts_mxr :: bool
  sts_fs :: usize
  sts_xs :: usize

text \<open>The crate returns the two-bit fields as enumerations of four values.\<close>

definition sstatus_ok :: "sstatus_value \<Rightarrow> bool" where
  "sstatus_ok sts \<longleftrightarrow> sts_fs sts < 4 \<and> sts_xs sts < 4"

definition read_sstatus_bits :: "crates \<Rightarrow> sstatus_value \<Rightarrow> usize outcome" where
  "read_sstatus_bits K sts =
     (let bits = 0;
          bits = set_bit_of K bits SSTATUS_SIE_POSITION (sts_sie sts);
          bits = set_bit_of K bits SSTATUS_SPIE_POSITION (sts_spie sts);
          bits = set_bit_of K bits SSTATUS_SPP_POSITION (sts_spp sts \<noteq> 0);
          bits = set_bit_of K bits SSTATUS_SUM_POSITION (sts_sum sts);
          bits = set_bit_of K bits SSTATUS_MXR_POSITION (sts_mxr sts) in
      case set_bits_of K bits (fst SSTATUS_FS_RANGE) (snd SSTATUS_FS_RANGE) (sts_fs sts) of
        None \<Rightarrow> Panic
      | Some bits \<Rightarrow>
          (case set_bits_of K bits (fst SSTATUS_XS_RANGE) (snd SSTATUS_XS_RANGE) (sts_xs sts) of
             None \<Rightarrow> Panic
           | Some bits \<Rightarrow> Ok bits))"

text \<open>
  The token of the kernel space and the address of \<open>trap_handler\<close> are read from globals; they
  are arguments here.
\<close>

definition create_app_init_context ::
    "crates \<Rightarrow> sstatus_value \<Rightarrow> usize \<Rightarrow> usize \<Rightarrow> usize \<Rightarrow> usize \<Rightarrow> usize \<Rightarrow> trap_context outcome" where
  "create_app_init_context K sts kernel_mmu_token trap_handler_va entry_point user_stack_top_va
       kernel_stack_top_va =
     (case read_sstatus_bits K sts of
        Ok bits \<Rightarrow>
          Ok (set_sp user_stack_top_va
            \<lparr>tc_x = replicate 32 0, tc_sstatus = set_bit_of K bits SSTATUS_SPP_POSITION False,
             tc_sepc = entry_point, tc_kernel_mmu_token = kernel_mmu_token,
             tc_trap_handler_va = trap_handler_va, tc_kernel_sp_va = kernel_stack_top_va\<rparr>)
      | Err e \<Rightarrow> Err e | Panic \<Rightarrow> Panic | Hang \<Rightarrow> Hang)"

section \<open>The context in memory\<close>

definition TRAP_CTX_WORDS :: nat where "TRAP_CTX_WORDS = 37"

definition load_trap_ctx :: "memory \<Rightarrow> usize \<Rightarrow> trap_context" where
  "load_trap_ctx M ppn =
     \<lparr>tc_x = map (M ppn) [0..<32], tc_sstatus = M ppn 32, tc_sepc = M ppn 33,
      tc_kernel_mmu_token = M ppn 34, tc_trap_handler_va = M ppn 35, tc_kernel_sp_va = M ppn 36\<rparr>"

definition trap_ctx_words :: "trap_context \<Rightarrow> usize list" where
  "trap_ctx_words c =
     tc_x c @ [tc_sstatus c, tc_sepc c, tc_kernel_mmu_token c, tc_trap_handler_va c, tc_kernel_sp_va c]"

definition store_trap_ctx :: "usize \<Rightarrow> trap_context \<Rightarrow> memory \<Rightarrow> memory" where
  "store_trap_ctx ppn c M =
     M(ppn := (\<lambda>i. if i < TRAP_CTX_WORDS then trap_ctx_words c ! i else M ppn i))"

text \<open>The registers are an array of 32 words.\<close>

definition trap_ctx_wf :: "trap_context \<Rightarrow> bool" where
  "trap_ctx_wf c \<longleftrightarrow> length (tc_x c) = 32"

section \<open>The context of a kernel thread\<close>

record task_context =
  ctx_ra :: usize
  ctx_sp :: usize
  ctx_csrs :: "usize list"

definition task_ctx_empty :: task_context where
  "task_ctx_empty = \<lparr>ctx_ra = 0, ctx_sp = 0, ctx_csrs = replicate 12 0\<rparr>"

text \<open>\<open>trap_return\<close> is the address of the function of that name.\<close>

definition goto_trap_return :: "usize \<Rightarrow> usize \<Rightarrow> task_context \<Rightarrow> task_context" where
  "goto_trap_return trap_return kernel_task_stack_top_va c =
     c\<lparr>ctx_ra := trap_return, ctx_sp := kernel_task_stack_top_va\<rparr>"

section \<open>Lemmas\<close>

lemma load_wf [simp]: "trap_ctx_wf (load_trap_ctx M p)"
  by (simp add: trap_ctx_wf_def load_trap_ctx_def)

lemma load_store_same [simp]:
  assumes "trap_ctx_wf c"
  shows "load_trap_ctx (store_trap_ctx p c M) p = c"
proof -
  have len: "length (tc_x c) = 32" using assms by (simp add: trap_ctx_wf_def)
  have "map (store_trap_ctx p c M p) [0..<32] = tc_x c"
    using len by (intro nth_equalityI) (simp_all add: store_trap_ctx_def trap_ctx_words_def TRAP_CTX_WORDS_def nth_append)
  then show ?thesis
    using len by (simp add: load_trap_ctx_def store_trap_ctx_def trap_ctx_words_def TRAP_CTX_WORDS_def nth_append)
qed

lemma load_store_other [simp]: "p \<noteq> q \<Longrightarrow> load_trap_ctx (store_trap_ctx p c M) q = load_trap_ctx M q"
  by (simp add: load_trap_ctx_def store_trap_ctx_def)

lemma unat_arg: "index \<le> 7 \<Longrightarrow> unat (10 + index :: usize) = 10 + unat index"
  by (simp add: word_le_nat_alt unat_word_ariths)

lemma set_arg_ok:
  assumes "trap_ctx_wf c" and "i \<le> 7"
  obtains c' where "set_arg i v c = (Ok (), c')" and "trap_ctx_wf c'"
    and "j \<le> 7 \<Longrightarrow> get_arg j c' = (if j = i then Ok v else get_arg j c)"
    and "tc_sepc c' = tc_sepc c" and "c' = c\<lparr>tc_x := (tc_x c)[10 + unat i := v]\<rparr>"
proof -
  have i: "unat i \<le> 7" using assms(2) by (simp add: word_le_nat_alt)
  show ?thesis
  proof (rule that [of "c\<lparr>tc_x := (tc_x c)[10 + unat i := v]\<rparr>"])
    show "get_arg j (c\<lparr>tc_x := (tc_x c)[10 + unat i := v]\<rparr>) = (if j = i then Ok v else get_arg j c)"
      if "j \<le> 7"
      using that assms i
      by (auto simp: get_arg_def unat_arg trap_ctx_wf_def nth_list_update word_le_nat_alt word_unat_eq_iff)
  qed (use assms in \<open>simp_all add: set_arg_def unat_arg trap_ctx_wf_def\<close>)
qed

section \<open>Properties\<close>


definition sample_sstatus :: sstatus_value where
  "sample_sstatus = \<lparr>sts_sie = False, sts_spie = True, sts_spp = 1, sts_sum = False, sts_mxr = False,
     sts_fs = 1, sts_xs = 0\<rparr>"


end
