(* ===== verification/Signals.thy ===== *)
theory Signals
  imports Trap_Context
begin

text \<open>
  The signal state of a process (src/task/signal.rs).

  The types \<open>Signal\<close>, \<open>SignalFlags\<close>, \<open>SignalAction\<close> and \<open>SingalTable\<close> belong
  to the crate frontier_lib. A signal is its discriminant and a flag set its bits; what the code
  calls is the record \<open>signal_crate\<close>, over the types of actions and of action tables, and its
  documented behaviour is \<open>signal_crate_ok\<close>: bit sets, one nonempty flag per signal, no two
  of which overlap (as the tests of src/task/signal.rs presuppose), and a table that returns the
  action that was set last.
\<close>

unbundle bit_operations_syntax

section \<open>The signal types of frontier_lib\<close>

record ('act, 'tab) signal_crate =
  signal_iter :: "usize list"
  signal_flag :: "usize \<Rightarrow> u32"
  signal_try_from :: "usize \<Rightarrow> lib_error + usize"
  SIG_DEF :: usize
  SIG_INT :: usize
  SIG_ILL :: usize
  SIG_ABRT :: usize
  SIG_FPE :: usize
  SIG_KILL :: usize
  SIG_SEGV :: usize
  SIG_CONT :: usize
  SIG_STOP :: usize
  FLAG_INT :: u32
  FLAG_ILL :: u32
  FLAG_ABRT :: u32
  FLAG_FPE :: u32
  FLAG_KILL :: u32
  FLAG_SEGV :: u32
  FLAG_CONT :: u32
  FLAG_STOP :: u32
  sf_contains :: "u32 \<Rightarrow> u32 \<Rightarrow> bool"
  sf_insert :: "u32 \<Rightarrow> u32 \<Rightarrow> u32"
  sf_remove :: "u32 \<Rightarrow> u32 \<Rightarrow> u32"
  sf_toggle :: "u32 \<Rightarrow> u32 \<Rightarrow> u32"
  sf_from_bits :: "u32 \<Rightarrow> u32 option"
  action_mask :: "'act \<Rightarrow> u32"
  action_handler :: "'act \<Rightarrow> usize"
  table_new :: 'tab
  table_action :: "'tab \<Rightarrow> usize \<Rightarrow> 'act"
  table_set :: "'tab \<Rightarrow> usize \<Rightarrow> 'act \<Rightarrow> 'tab"

definition signal_crate_ok :: "('act, 'tab) signal_crate \<Rightarrow> bool" where
  "signal_crate_ok L \<longleftrightarrow>
     (\<forall>a b. sf_contains L a b = (a AND b = b)) \<and>
     (\<forall>a b. sf_insert L a b = a OR b) \<and>
     (\<forall>a b. sf_remove L a b = a AND NOT b) \<and>
     (\<forall>a b. sf_toggle L a b = a XOR b) \<and>
     distinct (signal_iter L) \<and>
     (\<forall>s \<in> set (signal_iter L). signal_flag L s \<noteq> 0) \<and>
     (\<forall>s \<in> set (signal_iter L). \<forall>t \<in> set (signal_iter L). s \<noteq> t \<longrightarrow> signal_flag L s AND signal_flag L t = 0) \<and>
     {SIG_INT L, SIG_ILL L, SIG_ABRT L, SIG_FPE L, SIG_KILL L, SIG_SEGV L, SIG_CONT L, SIG_STOP L}
       \<subseteq> set (signal_iter L) \<and>
     distinct [SIG_INT L, SIG_ILL L, SIG_ABRT L, SIG_FPE L, SIG_KILL L, SIG_SEGV L, SIG_CONT L, SIG_STOP L, SIG_DEF L] \<and>
     FLAG_INT L = signal_flag L (SIG_INT L) \<and> FLAG_ILL L = signal_flag L (SIG_ILL L) \<and>
     FLAG_ABRT L = signal_flag L (SIG_ABRT L) \<and> FLAG_FPE L = signal_flag L (SIG_FPE L) \<and>
     FLAG_KILL L = signal_flag L (SIG_KILL L) \<and> FLAG_SEGV L = signal_flag L (SIG_SEGV L) \<and>
     FLAG_CONT L = signal_flag L (SIG_CONT L) \<and> FLAG_STOP L = signal_flag L (SIG_STOP L) \<and>
     (\<forall>s \<in> set (signal_iter L). action_handler L (table_action L (table_new L) s) = 0) \<and>
     (\<forall>tb a. \<forall>s \<in> set (signal_iter L). \<forall>t \<in> set (signal_iter L).
        table_action L (table_set L tb s a) t = (if t = s then a else table_action L tb t))"

section \<open>The signal control block\<close>

record 'tab signal_block =
  sg_handling :: "usize option"
  sg_setted :: u32
  sg_masked :: u32
  sg_actions :: 'tab
  sg_trap_ctx_backup :: "trap_context option"
  sg_killed :: bool
  sg_frozen :: bool

definition signal_block_new :: "('act, 'tab) signal_crate \<Rightarrow> 'tab signal_block" where
  "signal_block_new L = \<lparr>sg_handling = None, sg_setted = 0, sg_masked = 0, sg_actions = table_new L,
     sg_trap_ctx_backup = None, sg_killed = False, sg_frozen = False\<rparr>"

definition is_pending_signal :: "('act, 'tab) signal_crate \<Rightarrow> usize \<Rightarrow> 'tab signal_block \<Rightarrow> bool" where
  "is_pending_signal L signal b \<longleftrightarrow>
     (let flag = signal_flag L signal in
      sf_contains L (sg_setted b) flag \<and> \<not> sf_contains L (sg_masked b) flag \<and>
      (case sg_handling b of
         Some h \<Rightarrow> \<not> sf_contains L (action_mask L (table_action L (sg_actions b) h)) flag
       | None \<Rightarrow> True))"

definition freeze :: "('act, 'tab) signal_crate \<Rightarrow> 'tab signal_block \<Rightarrow> 'tab signal_block" where
  "freeze L b = b\<lparr>sg_setted := sf_toggle L (sg_setted b) (FLAG_STOP L), sg_frozen := True\<rparr>"

definition cont :: "('act, 'tab) signal_crate \<Rightarrow> 'tab signal_block \<Rightarrow> 'tab signal_block" where
  "cont L b = b\<lparr>sg_setted := sf_toggle L (sg_setted b) (FLAG_CONT L), sg_frozen := False\<rparr>"

definition signal_kill :: "'tab signal_block \<Rightarrow> 'tab signal_block" where
  "signal_kill b = b\<lparr>sg_killed := True\<rparr>"

definition try_kill :: "('act, 'tab) signal_crate \<Rightarrow> usize \<Rightarrow> ('tab signal_block, unit) kop" where
  "try_kill L signal b =
     (if sf_contains L (sg_setted b) (signal_flag L signal) then (Err (DuplicateSignal signal), b)
      else (Ok (), b\<lparr>sg_setted := sf_insert L (sg_setted b) (signal_flag L signal)\<rparr>))"

definition signal_mask :: "u32 \<Rightarrow> 'tab signal_block \<Rightarrow> u32 \<times> 'tab signal_block" where
  "signal_mask masking b = (sg_masked b, b\<lparr>sg_masked := masking\<rparr>)"

definition backup :: "('act, 'tab) signal_crate \<Rightarrow> usize \<Rightarrow> trap_context \<Rightarrow> 'tab signal_block \<Rightarrow> 'tab signal_block" where
  "backup L signal ctx b =
     b\<lparr>sg_setted := sf_toggle L (sg_setted b) (signal_flag L signal), sg_handling := Some signal,
       sg_trap_ctx_backup := Some ctx\<rparr>"

text \<open>Both \<open>take\<close>s happen whatever they return.\<close>

definition rollback :: "('act, 'tab) signal_crate \<Rightarrow> 'tab signal_block \<Rightarrow> (usize \<times> trap_context) option \<times> 'tab signal_block" where
  "rollback L b =
     (let b' = b\<lparr>sg_handling := None, sg_trap_ctx_backup := None\<rparr> in
      case (sg_handling b, sg_trap_ctx_backup b) of
        (Some signal, Some ctx) \<Rightarrow>
          (Some (signal, ctx), b'\<lparr>sg_setted := sf_remove L (sg_setted b) (signal_flag L signal)\<rparr>)
      | _ \<Rightarrow> (None, b'))"

definition get_bad_signal :: "('act, 'tab) signal_crate \<Rightarrow> 'tab signal_block \<Rightarrow> usize option" where
  "get_bad_signal L b =
     (if sf_contains L (sg_setted b) (FLAG_INT L) then Some (SIG_INT L)
      else if sf_contains L (sg_setted b) (FLAG_ILL L) then Some (SIG_ILL L)
      else if sf_contains L (sg_setted b) (FLAG_ABRT L) then Some (SIG_ABRT L)
      else if sf_contains L (sg_setted b) (FLAG_FPE L) then Some (SIG_FPE L)
      else if sf_contains L (sg_setted b) (FLAG_SEGV L) then Some (SIG_SEGV L)
      else None)"

definition get_action :: "('act, 'tab) signal_crate \<Rightarrow> usize \<Rightarrow> 'tab signal_block \<Rightarrow> 'act" where
  "get_action L signal b = table_action L (sg_actions b) signal"

definition set_action :: "('act, 'tab) signal_crate \<Rightarrow> usize \<Rightarrow> 'act \<Rightarrow> 'tab signal_block \<Rightarrow> 'tab signal_block" where
  "set_action L signal action b = b\<lparr>sg_actions := table_set L (sg_actions b) signal action\<rparr>"

definition is_killed :: "'tab signal_block \<Rightarrow> bool" where
  "is_killed b = sg_killed b"

definition is_frozen :: "'tab signal_block \<Rightarrow> bool" where
  "is_frozen b = sg_frozen b"

section \<open>Handling the pending signals\<close>

text \<open>
  The loop of \<open>ProcessControlBlock::handle_all_signals\<close> (src/task/model.rs) over the signals
  still to be visited. The trap context of the root task is reached through \<open>modify_trap_ctx\<close>,
  an argument that runs a function on the context in the state \<open>'m\<close> or fails.
\<close>

fun signal_loop :: "('act, 'tab) signal_crate \<Rightarrow>
    ((trap_context, trap_context) kop \<Rightarrow> ('m, trap_context) kop) \<Rightarrow>
    usize list \<Rightarrow> ('tab signal_block \<times> 'm, bool \<times> bool) kop" where
  "signal_loop L modify_trap_ctx [] (b, m) = (Ok (is_killed b, is_frozen b), (b, m))"
| "signal_loop L modify_trap_ctx (signal # signals) (b, m) =
     (if \<not> is_pending_signal L signal b then signal_loop L modify_trap_ctx signals (b, m)
      else if signal = SIG_STOP L then signal_loop L modify_trap_ctx signals (freeze L b, m)
      else if signal = SIG_CONT L then signal_loop L modify_trap_ctx signals (cont L b, m)
      else if signal = SIG_KILL L \<or> signal = SIG_DEF L
        then signal_loop L modify_trap_ctx signals (signal_kill b, m)
      else
        let handler = action_handler L (get_action L signal b) in
        if handler = 0 then signal_loop L modify_trap_ctx signals (b, m)
        else
          (case modify_trap_ctx (\<lambda>c.
                  case set_arg 0 signal (c\<lparr>tc_sepc := handler\<rparr>) of
                    (Ok _, c') \<Rightarrow> (Ok c, c')
                  | (Err e, c') \<Rightarrow> (Err e, c')
                  | (Panic, c') \<Rightarrow> (Panic, c')
                  | (Hang, c') \<Rightarrow> (Hang, c')) m of
             (Ok ctx, m') \<Rightarrow>
               let b' = backup L signal ctx b in (Ok (is_killed b', is_frozen b'), (b', m'))
           | (Err e, m') \<Rightarrow> (Err e, (b, m'))
           | (Panic, m') \<Rightarrow> (Panic, (b, m'))
           | (Hang, m') \<Rightarrow> (Hang, (b, m'))))"

text \<open>
  The part of \<open>ProcessControlBlockInner::signal_return\<close> after the root task was found: the saved
  context becomes the context of the root task, and its first argument register is the result.
\<close>

definition signal_resume :: "('act, 'tab) signal_crate \<Rightarrow>
    ((trap_context, usize) kop \<Rightarrow> ('m, usize) kop) \<Rightarrow> ('tab signal_block \<times> 'm, usize) kop" where
  "signal_resume L modify_trap_ctx = (\<lambda>(b, m).
     case rollback L b of
       (Some (_, ctx), b') \<Rightarrow>
         (case modify_trap_ctx (\<lambda>_. (get_arg 0 ctx, ctx)) m of (r, m') \<Rightarrow> (r, (b', m')))
     | (None, b') \<Rightarrow> (Ok (-1), (b', m)))"

section \<open>Flags\<close>

lemma sf_ok:
  assumes "signal_crate_ok L"
  shows "sf_contains L a b = (a AND b = b)" and "sf_insert L a b = a OR b"
    and "sf_remove L a b = a AND NOT b" and "sf_toggle L a b = a XOR b"
  using assms by (simp_all add: signal_crate_ok_def)

lemma flags_apart:
  assumes "signal_crate_ok L" and "s \<in> set (signal_iter L)" and "t \<in> set (signal_iter L)" and "s \<noteq> t"
  shows "signal_flag L s AND signal_flag L t = 0"
  using assms unfolding signal_crate_ok_def by blast

lemma flag_nonzero: "signal_crate_ok L \<Longrightarrow> s \<in> set (signal_iter L) \<Longrightarrow> signal_flag L s \<noteq> 0"
  unfolding signal_crate_ok_def by blast

lemma named_signals:
  assumes "signal_crate_ok L"
  shows "SIG_INT L \<in> set (signal_iter L)" "SIG_ILL L \<in> set (signal_iter L)" "SIG_ABRT L \<in> set (signal_iter L)"
    "SIG_FPE L \<in> set (signal_iter L)" "SIG_KILL L \<in> set (signal_iter L)" "SIG_SEGV L \<in> set (signal_iter L)"
    "SIG_CONT L \<in> set (signal_iter L)" "SIG_STOP L \<in> set (signal_iter L)"
    and "distinct [SIG_INT L, SIG_ILL L, SIG_ABRT L, SIG_FPE L, SIG_KILL L, SIG_SEGV L, SIG_CONT L, SIG_STOP L, SIG_DEF L]"
  using assms unfolding signal_crate_ok_def by blast+

lemma named_flags:
  assumes "signal_crate_ok L"
  shows "FLAG_INT L = signal_flag L (SIG_INT L)" "FLAG_ILL L = signal_flag L (SIG_ILL L)"
    "FLAG_ABRT L = signal_flag L (SIG_ABRT L)" "FLAG_FPE L = signal_flag L (SIG_FPE L)"
    "FLAG_KILL L = signal_flag L (SIG_KILL L)" "FLAG_SEGV L = signal_flag L (SIG_SEGV L)"
    "FLAG_CONT L = signal_flag L (SIG_CONT L)" "FLAG_STOP L = signal_flag L (SIG_STOP L)"
  using assms unfolding signal_crate_ok_def by blast+

lemma apart_toggle:
  fixes a f g :: u32
  assumes "f AND g = 0"
  shows "(a XOR f) AND g = a AND g" and "(a OR f) AND g = a AND g" and "(a AND NOT f) AND g = a AND g"
proof -
  have "\<not> (bit f n \<and> bit g n)" for n
    using assms by (metis bit_0_eq bit_and_iff bot_apply bot_bool_def)
  then show "(a XOR f) AND g = a AND g" and "(a OR f) AND g = a AND g" and "(a AND NOT f) AND g = a AND g"
    by (auto intro!: bit_word_eqI simp: bit_and_iff bit_or_iff bit_xor_iff bit_not_iff)
qed

lemma toggle_clears:
  fixes a f :: u32
  assumes "a AND f = f"
  shows "a XOR f = a AND NOT f"
proof (rule bit_word_eqI)
  fix n
  have "bit f n \<Longrightarrow> bit a n" using assms by (metis bit_and_iff)
  then show "bit (a XOR f) n = bit (a AND NOT f) n" if "n < LENGTH(32)"
    using that by (auto simp: bit_xor_iff bit_and_iff bit_not_iff)
qed

section \<open>Delivery\<close>

text \<open>A signal that the loop answers by entering the handler the process has installed.\<close>

definition deliverable :: "('act, 'tab) signal_crate \<Rightarrow> 'tab signal_block \<Rightarrow> usize \<Rightarrow> bool" where
  "deliverable L b s \<longleftrightarrow> is_pending_signal L s b \<and> s \<notin> {SIG_STOP L, SIG_CONT L, SIG_KILL L, SIG_DEF L} \<and>
     action_handler L (get_action L s b) \<noteq> 0"

text \<open>Two blocks that differ at most in the stop and continue flags and in their effects.\<close>

definition same_requests :: "('act, 'tab) signal_crate \<Rightarrow> 'tab signal_block \<Rightarrow> 'tab signal_block \<Rightarrow> bool" where
  "same_requests L b b' \<longleftrightarrow>
     sg_handling b' = sg_handling b \<and> sg_masked b' = sg_masked b \<and> sg_actions b' = sg_actions b \<and>
     sg_trap_ctx_backup b' = sg_trap_ctx_backup b \<and>
     (\<forall>s \<in> set (signal_iter L) - {SIG_STOP L, SIG_CONT L}.
        sg_setted b' AND signal_flag L s = sg_setted b AND signal_flag L s)"

lemma same_refl [simp]: "same_requests L b b"
  by (simp add: same_requests_def)

lemma same_trans: "same_requests L a b \<Longrightarrow> same_requests L b c \<Longrightarrow> same_requests L a c"
  by (simp add: same_requests_def)

lemma same_steps:
  assumes "signal_crate_ok L"
  shows "same_requests L b (freeze L b)" and "same_requests L b (cont L b)" and "same_requests L b (signal_kill b)"
proof -
  have "(sg_setted b XOR signal_flag L u) AND signal_flag L s = sg_setted b AND signal_flag L s"
    if "s \<in> set (signal_iter L)" "u \<in> set (signal_iter L)" "u \<noteq> s" for s u
    using apart_toggle(1) flags_apart [OF assms that(2,1,3)] by blast
  then show "same_requests L b (freeze L b)" and "same_requests L b (cont L b)"
    using named_signals(7,8) [OF assms]
    unfolding same_requests_def freeze_def cont_def sf_ok [OF assms] named_flags [OF assms] by auto
qed (simp add: same_requests_def signal_kill_def)

lemma same_deliverable:
  assumes "signal_crate_ok L" and "same_requests L b b'" and "s \<in> set (signal_iter L)"
  shows "deliverable L b' s = deliverable L b s"
proof (cases "s = SIG_STOP L \<or> s = SIG_CONT L")
  case False
  then have "sg_setted b' AND signal_flag L s = sg_setted b AND signal_flag L s"
    using assms(2,3) by (simp add: same_requests_def)
  then show ?thesis
    using assms(2) by (simp add: deliverable_def is_pending_signal_def get_action_def sf_ok [OF assms(1)]
        same_requests_def Let_def cong: option.case_cong)
qed (auto simp: deliverable_def)

lemma loop_skips:
  assumes "signal_crate_ok L" and "set pre \<subseteq> set (signal_iter L)" and "\<forall>s \<in> set pre. \<not> deliverable L b s"
  shows "\<exists>b'. same_requests L b b' \<and> signal_loop L md (pre @ rest) (b, m) = signal_loop L md rest (b', m)"
  using assms(2,3)
proof (induction pre arbitrary: b)
  case Nil
  then show ?case by (metis append_Nil same_refl)
next
  case (Cons s pre)
  have step: "\<exists>b'. same_requests L b b' \<and> signal_loop L md (pre @ rest) (c, m) = signal_loop L md rest (b', m)"
    if c: "same_requests L b c" for c
  proof -
    have "\<forall>u \<in> set pre. \<not> deliverable L c u"
      using Cons.prems same_deliverable [OF assms(1) c] by auto
    then obtain b' where "same_requests L c b'" "signal_loop L md (pre @ rest) (c, m) = signal_loop L md rest (b', m)"
      using Cons.IH [of c] Cons.prems(1) by auto
    then show ?thesis using same_trans [OF c] by blast
  qed
  have nd: "\<not> deliverable L b s" using Cons.prems(2) by simp
  show ?case
  proof (cases "is_pending_signal L s b")
    case False
    then show ?thesis using step [OF same_refl] by simp
  next
    case True
    consider "s = SIG_STOP L" | "s = SIG_CONT L" "s \<noteq> SIG_STOP L"
      | "s = SIG_KILL L \<or> s = SIG_DEF L" "s \<noteq> SIG_STOP L" "s \<noteq> SIG_CONT L"
      | "s \<notin> {SIG_STOP L, SIG_CONT L, SIG_KILL L, SIG_DEF L}" by auto
    then show ?thesis
    proof cases
      case 1
      then show ?thesis using True step [OF same_steps(1) [OF assms(1)]] by simp
    next
      case 2
      then show ?thesis using True step [OF same_steps(2) [OF assms(1)]] by simp
    next
      case 3
      then show ?thesis using True step [OF same_steps(3) [OF assms(1)]] by auto
    next
      case 4
      then have "action_handler L (get_action L s b) = 0" using nd True by (simp add: deliverable_def)
      then show ?thesis using True 4 step [OF same_refl] by simp
    qed
  qed
qed

lemma loop_enters:
  assumes "deliverable L b s" and "trap_ctx_wf c"
  defines "c' \<equiv> c\<lparr>tc_sepc := action_handler L (get_action L s b), tc_x := (tc_x c)[10 := s]\<rparr>"
  shows "signal_loop L (\<lambda>f. f) (s # rest) (b, c) = (Ok (sg_killed b, sg_frozen b), (backup L s c b, c'))"
proof -
  have "set_arg 0 s (c\<lparr>tc_sepc := action_handler L (get_action L s b)\<rparr>) = (Ok (), c')"
    by (simp add: set_arg_def c'_def)
  then show ?thesis
    using assms(1) by (simp add: deliverable_def Let_def is_killed_def is_frozen_def backup_def)
qed

lemma loop_delivers:
  assumes "signal_crate_ok L" and "trap_ctx_wf c" and "s \<in> set (signal_iter L)" and "deliverable L b s"
    and "\<forall>u \<in> set (takeWhile (\<lambda>u. u \<noteq> s) (signal_iter L)). \<not> deliverable L b u"
  obtains b' where "same_requests L b b'"
    and "signal_loop L (\<lambda>f. f) (signal_iter L) (b, c) =
           (Ok (sg_killed b', sg_frozen b'), (backup L s c b',
             c\<lparr>tc_sepc := action_handler L (get_action L s b), tc_x := (tc_x c)[10 := s]\<rparr>))"
proof -
  define pre where "pre = takeWhile (\<lambda>u. u \<noteq> s) (signal_iter L)"
  obtain rest where split: "signal_iter L = pre @ s # rest"
    using assms(3) unfolding pre_def
    by (metis (mono_tags, lifting) dropWhile_eq_Cons_conv dropWhile_eq_Nil_conv list.exhaust takeWhile_dropWhile_id)
  have "set pre \<subseteq> set (signal_iter L)" using set_takeWhileD unfolding pre_def by fastforce
  then obtain b' where b': "same_requests L b b'"
    "signal_loop L (\<lambda>f. f) (pre @ s # rest) (b, c) = signal_loop L (\<lambda>f. f) (s # rest) (b', c)"
    using loop_skips [OF assms(1), of pre b "\<lambda>f. f" "s # rest" c] assms(5) unfolding pre_def by blast
  have "deliverable L b' s" using same_deliverable [OF assms(1) b'(1) assms(3)] assms(4) by simp
  moreover have "get_action L s b' = get_action L s b"
    using b'(1) by (simp add: get_action_def same_requests_def)
  ultimately show ?thesis
    using that [OF b'(1)] loop_enters [of L b' s c rest] assms(2) b'(2) split by simp
qed

section \<open>Properties\<close>

text \<open>
  C14. When a signal with an installed handler is pending and is the first such signal, handling the
  signals makes the root task enter that handler with the signal number as its argument and with
  every other register as it was, takes the request of exactly this signal back and keeps every
  other request; returning from the handler restores the interrupted context exactly and yields
  its own first argument register.
\<close>

theorem signal_delivery_roundtrip:
  assumes "signal_crate_ok L" and "trap_ctx_wf c" and "s \<in> set (signal_iter L)" and "deliverable L b s"
    and "\<forall>u \<in> set (takeWhile (\<lambda>u. u \<noteq> s) (signal_iter L)). \<not> deliverable L b u"
  shows "\<exists>r b1 c1 b2. signal_loop L (\<lambda>f. f) (signal_iter L) (b, c) = (Ok r, (b1, c1)) \<and>
           tc_sepc c1 = action_handler L (get_action L s b) \<and> get_arg 0 c1 = Ok s \<and>
           (\<forall>i. i \<noteq> 10 \<longrightarrow> tc_x c1 ! i = tc_x c ! i) \<and> sg_handling b1 = Some s \<and>
           \<not> sf_contains L (sg_setted b1) (signal_flag L s) \<and>
           (\<forall>u \<in> set (signal_iter L) - {s, SIG_STOP L, SIG_CONT L}.
              sf_contains L (sg_setted b1) (signal_flag L u) = sf_contains L (sg_setted b) (signal_flag L u)) \<and>
           signal_resume L (\<lambda>f. f) (b1, c1) = (get_arg 0 c, (b2, c)) \<and>
           sg_handling b2 = None \<and> sg_setted b2 = sg_setted b1"
proof -
  note ok = sf_ok [OF assms(1)]
  obtain b' where same: "same_requests L b b'"
    and run: "signal_loop L (\<lambda>f. f) (signal_iter L) (b, c) =
           (Ok (sg_killed b', sg_frozen b'), (backup L s c b',
             c\<lparr>tc_sepc := action_handler L (get_action L s b), tc_x := (tc_x c)[10 := s]\<rparr>))"
    by (rule loop_delivers [OF assms])
  define c1 where "c1 = c\<lparr>tc_sepc := action_handler L (get_action L s b), tc_x := (tc_x c)[10 := s]\<rparr>"
  have "sg_setted b' AND signal_flag L s = signal_flag L s"
    using same_deliverable [OF assms(1) same assms(3)] assms(4)
    by (simp add: deliverable_def is_pending_signal_def ok Let_def)
  then have set1: "sg_setted (backup L s c b') = sg_setted b' AND NOT (signal_flag L s)"
    by (simp add: backup_def ok toggle_clears)
  have gone: "(sg_setted b' AND NOT (signal_flag L s)) AND signal_flag L s = 0"
    by (intro bit_word_eqI) (auto simp: bit_and_iff bit_not_iff)
  have "sg_setted (backup L s c b') AND signal_flag L u = sg_setted b AND signal_flag L u"
    if "u \<in> set (signal_iter L) - {s, SIG_STOP L, SIG_CONT L}" for u
  proof -
    have "signal_flag L s AND signal_flag L u = 0" using flags_apart [OF assms(1,3), of u] that by blast
    moreover have "sg_setted b' AND signal_flag L u = sg_setted b AND signal_flag L u"
      using that same by (simp add: same_requests_def)
    ultimately show ?thesis using apart_toggle(3) set1 by metis
  qed
  then have keep: "\<forall>u \<in> set (signal_iter L) - {s, SIG_STOP L, SIG_CONT L}.
      sf_contains L (sg_setted (backup L s c b')) (signal_flag L u) = sf_contains L (sg_setted b) (signal_flag L u)"
    by (simp add: ok)
  define b2 where "b2 = (backup L s c b')\<lparr>sg_handling := None, sg_trap_ctx_backup := None,
    sg_setted := sf_remove L (sg_setted (backup L s c b')) (signal_flag L s)\<rparr>"
  have "signal_resume L (\<lambda>f. f) (backup L s c b', c1) = (get_arg 0 c, (b2, c))"
    by (simp add: signal_resume_def rollback_def backup_def b2_def)
  moreover have "sg_setted b2 = sg_setted (backup L s c b')"
    using set1 by (simp add: b2_def ok and.assoc)
  moreover have "get_arg 0 c1 = Ok s"
    using assms(2) by (simp add: get_arg_def c1_def trap_ctx_wf_def)
  moreover have "\<not> sf_contains L (sg_setted (backup L s c b')) (signal_flag L s)"
    using gone set1 flag_nonzero [OF assms(1,3)] by (simp add: ok)
  moreover have "sg_handling (backup L s c b') = Some s" "sg_handling b2 = None"
    by (simp_all add: backup_def b2_def)
  moreover have "tc_sepc c1 = action_handler L (get_action L s b)" "\<forall>i. i \<noteq> 10 \<longrightarrow> tc_x c1 ! i = tc_x c ! i"
    by (simp_all add: c1_def)
  ultimately show ?thesis using run keep unfolding c1_def [symmetric] by blast
qed

text \<open>A concrete crate: signals by number, one bit each, actions as pairs, tables as functions.\<close>

definition sample_signals :: "(u32 \<times> usize, usize \<Rightarrow> u32 \<times> usize) signal_crate" where
  "sample_signals = \<lparr>signal_iter = [2, 4, 6, 8, 9, 10, 11, 18, 19], signal_flag = (\<lambda>s. push_bit (unat s) 1),
     signal_try_from = Inr, SIG_DEF = 0, SIG_INT = 2, SIG_ILL = 4, SIG_ABRT = 6, SIG_FPE = 8, SIG_KILL = 9,
     SIG_SEGV = 11, SIG_CONT = 18, SIG_STOP = 19, FLAG_INT = 2 ^ 2, FLAG_ILL = 2 ^ 4, FLAG_ABRT = 2 ^ 6,
     FLAG_FPE = 2 ^ 8, FLAG_KILL = 2 ^ 9, FLAG_SEGV = 2 ^ 11, FLAG_CONT = 2 ^ 18, FLAG_STOP = 2 ^ 19,
     sf_contains = (\<lambda>a b. a AND b = b), sf_insert = (\<lambda>a b. a OR b), sf_remove = (\<lambda>a b. a AND NOT b),
     sf_toggle = (\<lambda>a b. a XOR b), sf_from_bits = Some, action_mask = fst, action_handler = snd,
     table_new = (\<lambda>_. (0, 0)), table_action = (\<lambda>t s. t s), table_set = (\<lambda>t s a. t(s := a))\<rparr>"

lemma sample_signals_ok: "signal_crate_ok sample_signals"
  by (simp add: signal_crate_ok_def sample_signals_def)

text \<open>A block in which signal 10 has the handler at address 4096 and was requested.\<close>

definition sample_request :: "(usize \<Rightarrow> u32 \<times> usize) signal_block" where
  "sample_request = snd (try_kill sample_signals 10
     (set_action sample_signals 10 (0, 4096) (signal_block_new sample_signals)))"

theorem signal_delivery_roundtrip_witness:
  "\<exists>r b1 c1 b2. signal_loop sample_signals (\<lambda>f. f) (signal_iter sample_signals) (sample_request, trap_ctx_default) =
       (Ok r, (b1, c1)) \<and> tc_sepc c1 = 4096 \<and> get_arg 0 c1 = Ok 10 \<and>
     signal_resume sample_signals (\<lambda>f. f) (b1, c1) = (get_arg 0 trap_ctx_default, (b2, trap_ctx_default))"
proof -
  have wf: "trap_ctx_wf trap_ctx_default" by (simp add: trap_ctx_wf_def trap_ctx_default_def)
  have mem: "(10 :: usize) \<in> set (signal_iter sample_signals)" by (simp add: sample_signals_def)
  have del: "deliverable sample_signals sample_request 10" by code_simp
  have pre: "\<forall>u \<in> set (takeWhile (\<lambda>u. u \<noteq> 10) (signal_iter sample_signals)).
      \<not> deliverable sample_signals sample_request u" by code_simp
  have "action_handler sample_signals (get_action sample_signals 10 sample_request) = 4096" by code_simp
  then show ?thesis
    using signal_delivery_roundtrip [OF sample_signals_ok wf mem del pre] by fastforce
qed

text \<open>
  C33. There is one place for an interrupted context. When a second signal is delivered while the
  handler of a first one runs, the context saved for the first is overwritten: returning from the
  second handler resumes the first, and returning from the first then restores nothing and reports
  \<open>-1\<close>, whatever the context is.
\<close>

theorem nested_signal_loses_context:
  assumes "signal_crate_ok L" and "trap_ctx_wf d" and "u \<in> set (signal_iter L)"
    and "sg_handling b1 = Some s" and "sg_trap_ctx_backup b1 = Some c" and "deliverable L b1 u"
    and "\<forall>v \<in> set (takeWhile (\<lambda>v. v \<noteq> u) (signal_iter L)). \<not> deliverable L b1 v"
  shows "\<exists>r b2 d' b3. signal_loop L (\<lambda>f. f) (signal_iter L) (b1, d) = (Ok r, (b2, d')) \<and>
           sg_trap_ctx_backup b2 = Some d \<and>
           signal_resume L (\<lambda>f. f) (b2, d') = (get_arg 0 d, (b3, d)) \<and>
           (\<forall>e. signal_resume L (\<lambda>f. f) (b3, e) = (Ok (-1), (b3, e)))"
proof -
  obtain b' where run: "signal_loop L (\<lambda>f. f) (signal_iter L) (b1, d) =
           (Ok (sg_killed b', sg_frozen b'), (backup L u d b',
             d\<lparr>tc_sepc := action_handler L (get_action L u b1), tc_x := (tc_x d)[10 := u]\<rparr>))"
    by (rule loop_delivers [OF assms(1,2,3,6,7)])
  define b3 where "b3 = snd (rollback L (backup L u d b'))"
  have "signal_resume L (\<lambda>f. f) (backup L u d b', x) = (get_arg 0 d, (b3, d))" for x
    by (simp add: signal_resume_def rollback_def backup_def b3_def)
  moreover have "signal_resume L (\<lambda>f. f) (b3, e) = (Ok (-1), (b3, e))" for e
    by (simp add: signal_resume_def rollback_def backup_def b3_def)
  moreover have "sg_trap_ctx_backup (backup L u d b') = Some d" by (simp add: backup_def)
  ultimately show ?thesis using run by blast
qed

definition sample_nested :: "(usize \<Rightarrow> u32 \<times> usize) signal_block" where
  "sample_nested = snd (try_kill sample_signals 4
     (set_action sample_signals 4 (0, 8192) (backup sample_signals 10 trap_ctx_default sample_request)))"

theorem nested_signal_loses_context_witness:
  "\<exists>r b2 d' b3. signal_loop sample_signals (\<lambda>f. f) (signal_iter sample_signals) (sample_nested, set_sp 8 trap_ctx_default) =
       (Ok r, (b2, d')) \<and>
     signal_resume sample_signals (\<lambda>f. f) (b2, d') = (get_arg 0 (set_sp 8 trap_ctx_default), (b3, set_sp 8 trap_ctx_default)) \<and>
     (\<forall>e. signal_resume sample_signals (\<lambda>f. f) (b3, e) = (Ok (-1), (b3, e)))"
proof -
  have wf: "trap_ctx_wf (set_sp 8 trap_ctx_default)"
    by (simp add: trap_ctx_wf_def trap_ctx_default_def set_sp_def)
  have mem: "(4 :: usize) \<in> set (signal_iter sample_signals)" by (simp add: sample_signals_def)
  have h: "sg_handling sample_nested = Some 10" "sg_trap_ctx_backup sample_nested = Some trap_ctx_default"
    by (simp_all add: sample_nested_def try_kill_def set_action_def backup_def)
  have del: "deliverable sample_signals sample_nested 4" by code_simp
  have pre: "\<forall>v \<in> set (takeWhile (\<lambda>v. v \<noteq> 4) (signal_iter sample_signals)).
      \<not> deliverable sample_signals sample_nested v" by code_simp
  show ?thesis
    using nested_signal_loses_context [OF sample_signals_ok wf mem h del pre] by blast
qed

end
