(* ===== verification/Resource_Tables.thy ===== *)
theory Resource_Tables
  imports Configs
begin

text \<open>
  The tables of a process (\<open>fd_table\<close>, \<open>mutex_table\<close>, \<open>semaphore_table\<close> and
  \<open>condvar_table\<close> of \<open>ProcessControlBlockInner\<close> in src/task/model.rs).

  The four tables are vectors of optional references and are handled by the same code: an entry
  goes to the first free slot or to the end, below a limit; removing an entry clears its slot and,
  for the last slot, runs a loop that is meant to shorten the vector. The bodies are written once,
  over the limit and the errors of the table.

  The locale \<open>handle_table\<close> is the contract of such a table over a map from handles to entries
  and the number of slots; each of the four tables is an interpretation of it.
\<close>

type_synonym 'a table = "'a option list"

section \<open>Operations\<close>

definition vec_get :: "'a list \<Rightarrow> usize \<Rightarrow> 'a option" where
  "vec_get xs i = (if unat i < length xs then Some (xs ! unat i) else None)"

text \<open>The loop over \<open>iter_mut().enumerate()\<close>: the first free slot receives the entry.\<close>

fun fill_slot :: "'a \<Rightarrow> usize \<Rightarrow> 'a table \<Rightarrow> (usize \<times> 'a table) option" where
  "fill_slot v i [] = None"
| "fill_slot v i (w # ws) =
     (case w of
        None \<Rightarrow> Some (i, Some v # ws)
      | Some _ \<Rightarrow> map_option (\<lambda>(j, ws'). (j, w # ws')) (fill_slot v (i + 1) ws))"

definition table_alloc :: "nat \<Rightarrow> kernel_error \<Rightarrow> 'a \<Rightarrow> ('a table, usize) kop" where
  "table_alloc limit exhausted v tab =
     (case fill_slot v 0 tab of
        Some (i, tab') \<Rightarrow> (Ok i, tab')
      | None \<Rightarrow>
          if limit \<le> length tab then (Err exhausted, tab)
          else (Ok (of_nat (length tab)), tab @ [Some v]))"

text \<open>
  \<open>loop { if table.get(table.len() - 1).is_none() { table.pop(); } else { break; } }\<close>: the test is
  on the result of \<open>Vec::get\<close>, not on the slot. \<open>None\<close> is a loop that does not end.
\<close>

partial_function (option) trim_loop :: "'a table \<Rightarrow> 'a table option" where
  "trim_loop tab =
     (if vec_get tab (of_nat (length tab) - 1) = None then trim_loop (butlast tab) else Some tab)"

definition table_dealloc :: "(usize \<Rightarrow> kernel_error) \<Rightarrow> usize \<Rightarrow> ('a table, unit) kop" where
  "table_dealloc missing i tab =
     (case vec_get tab i of
        None \<Rightarrow> (Err (missing i), tab)
      | Some _ \<Rightarrow>
          let tab' = tab[unat i := None] in
          if i = of_nat (length tab') - 1 then
            (case trim_loop tab' of Some tab'' \<Rightarrow> (Ok (), tab'') | None \<Rightarrow> (Hang, tab'))
          else (Ok (), tab'))"

definition table_get :: "'a table \<Rightarrow> usize \<Rightarrow> 'a option" where
  "table_get tab i = (case vec_get tab i of Some w \<Rightarrow> w | None \<Rightarrow> None)"

section \<open>The four tables\<close>

definition alloc_fd :: "'f \<Rightarrow> ('f table, usize) kop" where
  "alloc_fd = table_alloc MAX_FD_COUNT FileDescriptorExhausted"

definition dealloc_fd :: "usize \<Rightarrow> ('f table, unit) kop" where
  "dealloc_fd = table_dealloc FileDescriptorDoesNotExist"

definition get_file :: "'f table \<Rightarrow> usize \<Rightarrow> 'f option" where
  "get_file = table_get"

text \<open>
  The objects that the other three allocations create are values of the parameter type: their
  kinds are chosen by the caller (see \<open>new_mutex\<close> and \<open>new_semaphore\<close>).
\<close>

definition alloc_mutex :: "'m \<Rightarrow> ('m table, usize) kop" where
  "alloc_mutex = table_alloc MAX_MUTEX_COUNT MutexExhausted"

definition dealloc_mutex :: "usize \<Rightarrow> ('m table, unit) kop" where
  "dealloc_mutex = table_dealloc MutexDoesNotExist"

definition get_mutex :: "'m table \<Rightarrow> usize \<Rightarrow> 'm option" where
  "get_mutex = table_get"

definition alloc_semaphore :: "'s \<Rightarrow> ('s table, usize) kop" where
  "alloc_semaphore = table_alloc MAX_SEMAPHORE_COUNT SemaphoreExhausted"

definition dealloc_semaphore :: "usize \<Rightarrow> ('s table, unit) kop" where
  "dealloc_semaphore = table_dealloc SemaphoreDoesNotExist"

definition get_semaphore :: "'s table \<Rightarrow> usize \<Rightarrow> 's option" where
  "get_semaphore = table_get"

definition alloc_condvar :: "'c \<Rightarrow> ('c table, usize) kop" where
  "alloc_condvar = table_alloc MAX_CONDVAR_COUNT CondvarExhausted"

definition dealloc_condvar :: "usize \<Rightarrow> ('c table, unit) kop" where
  "dealloc_condvar = table_dealloc CondvarDoesNotExist"

definition get_condvar :: "'c table \<Rightarrow> usize \<Rightarrow> 'c option" where
  "get_condvar = table_get"

section \<open>The contract\<close>

text \<open>
  \<open>entry s k\<close> is the entry under handle \<open>k\<close>, \<open>slots s\<close> the number of slots. A
  history of calls is run against the table (\<open>table_run\<close>) and against a plain map with the
  number of slots ever used (\<open>map_run\<close>).
\<close>

datatype 'v table_call = Alloc 'v | Dealloc usize | Get usize

datatype 'v table_answer = Handle usize | Done | Entry "'v option" | Refused kernel_error | Stuck

fun answer_of :: "('a \<Rightarrow> 'v table_answer) \<Rightarrow> 'a outcome \<Rightarrow> 'v table_answer" where
  "answer_of f (Ok x) = f x"
| "answer_of f (Err e) = Refused e"
| "answer_of f Panic = Stuck"
| "answer_of f Hang = Stuck"

fun table_run :: "('v \<Rightarrow> ('s, usize) kop) \<Rightarrow> (usize \<Rightarrow> ('s, unit) kop) \<Rightarrow> ('s \<Rightarrow> usize \<Rightarrow> 'v option) \<Rightarrow>
    'v table_call list \<Rightarrow> 's \<Rightarrow> 'v table_answer list" where
  "table_run al de ge [] s = []"
| "table_run al de ge (Alloc v # cs) s =
     (case al v s of (r, s') \<Rightarrow> answer_of Handle r # table_run al de ge cs s')"
| "table_run al de ge (Dealloc i # cs) s =
     (case de i s of (r, s') \<Rightarrow> answer_of (\<lambda>_. Done) r # table_run al de ge cs s')"
| "table_run al de ge (Get i # cs) s = Entry (ge s i) # table_run al de ge cs s"

fun first_free :: "(nat \<rightharpoonup> 'v) \<Rightarrow> nat \<Rightarrow> nat \<Rightarrow> nat option" where
  "first_free m k 0 = None"
| "first_free m k (Suc n) = (case m k of None \<Rightarrow> Some k | Some _ \<Rightarrow> first_free m (Suc k) n)"

fun map_run :: "nat \<Rightarrow> kernel_error \<Rightarrow> (usize \<Rightarrow> kernel_error) \<Rightarrow>
    'v table_call list \<Rightarrow> (nat \<rightharpoonup> 'v) \<Rightarrow> nat \<Rightarrow> 'v table_answer list" where
  "map_run lim ex mi [] m n = []"
| "map_run lim ex mi (Alloc v # cs) m n =
     (case first_free m 0 lim of
        Some k \<Rightarrow> Handle (of_nat k) # map_run lim ex mi cs (m(k \<mapsto> v)) (max n (Suc k))
      | None \<Rightarrow> Refused ex # map_run lim ex mi cs m n)"
| "map_run lim ex mi (Dealloc i # cs) m n =
     (if unat i < n then Done # map_run lim ex mi cs (m(unat i := None)) n
      else Refused (mi i) # map_run lim ex mi cs m n)"
| "map_run lim ex mi (Get i # cs) m n = Entry (m (unat i)) # map_run lim ex mi cs m n"

lemma first_free_Some:
  "first_free m k n = Some i \<Longrightarrow> k \<le> i \<and> i < k + n \<and> m i = None \<and> (\<forall>j. k \<le> j \<and> j < i \<longrightarrow> m j \<noteq> None)"
proof (induction m k n rule: first_free.induct)
  case (2 m k n)
  show ?case
  proof (cases "m k")
    case (Some x)
    then have "Suc k \<le> i \<and> i < Suc k + n \<and> m i = None \<and> (\<forall>j. Suc k \<le> j \<and> j < i \<longrightarrow> m j \<noteq> None)"
      using 2 by simp
    then show ?thesis using Some by (metis add_Suc_right add_Suc_shift le_antisym not_less_eq_eq option.distinct(1) Suc_leD)
  qed (use 2 in auto)
qed simp

lemma first_free_None: "first_free m k n = None \<longleftrightarrow> (\<forall>j. k \<le> j \<and> j < k + n \<longrightarrow> m j \<noteq> None)"
proof (induction m k n rule: first_free.induct)
  case (2 m k n)
  show ?case
  proof (cases "m k")
    case None
    then show ?thesis by auto
  next
    case (Some x)
    have "(\<forall>j. k \<le> j \<and> j < k + Suc n \<longrightarrow> m j \<noteq> None) \<longleftrightarrow> (\<forall>j. Suc k \<le> j \<and> j < Suc k + n \<longrightarrow> m j \<noteq> None)"
      using Some by (metis Suc_leD Suc_leI add_Suc_right add_Suc_shift le_neq_implies_less option.distinct(1))
    then show ?thesis using 2 Some by simp
  qed
qed auto

lemma first_free_step:
  "0 < n \<Longrightarrow> first_free m k n = (case m k of None \<Rightarrow> Some k | Some _ \<Rightarrow> first_free m (Suc k) (n - 1))"
  by (cases n) (simp_all split: option.split)

locale handle_table =
  fixes talloc :: "'v \<Rightarrow> ('s, usize) kop"
    and tdealloc :: "usize \<Rightarrow> ('s, unit) kop"
    and tget :: "'s \<Rightarrow> usize \<Rightarrow> 'v option"
    and entry :: "'s \<Rightarrow> nat \<Rightarrow> 'v option"
    and slots :: "'s \<Rightarrow> nat"
    and tinv :: "'s \<Rightarrow> bool"
    and limit :: nat
    and exhausted :: kernel_error
    and missing :: "usize \<Rightarrow> kernel_error"
  assumes alloc_free: "tinv s \<Longrightarrow> \<forall>j < k. entry s j \<noteq> None \<Longrightarrow> entry s k = None \<Longrightarrow> k < limit \<Longrightarrow>
      \<exists>s'. talloc v s = (Ok (of_nat k), s') \<and> tinv s' \<and> entry s' = (entry s)(k \<mapsto> v) \<and>
           slots s' = max (slots s) (Suc k)"
    and alloc_full: "tinv s \<Longrightarrow> \<forall>j < limit. entry s j \<noteq> None \<Longrightarrow> talloc v s = (Err exhausted, s)"
    and dealloc_slot: "tinv s \<Longrightarrow> unat i < slots s \<Longrightarrow>
      \<exists>s'. tdealloc i s = (Ok (), s') \<and> tinv s' \<and> entry s' = (entry s)(unat i := None) \<and>
           slots s' = slots s"
    and dealloc_none: "tinv s \<Longrightarrow> slots s \<le> unat i \<Longrightarrow> tdealloc i s = (Err (missing i), s)"
    and get_entry: "tinv s \<Longrightarrow> tget s i = entry s (unat i)"
begin

lemma history:
  assumes "tinv s"
  shows "table_run talloc tdealloc tget cs s = map_run limit exhausted missing cs (entry s) (slots s)"
  using assms
proof (induction cs arbitrary: s)
  case (Cons c cs)
  show ?case
  proof (cases c)
    case (Alloc v)
    show ?thesis
    proof (cases "first_free (entry s) 0 limit")
      case None
      then have "talloc v s = (Err exhausted, s)"
        using alloc_full [OF Cons.prems, of v] by (simp add: first_free_None)
      then show ?thesis using None Alloc Cons.IH [OF Cons.prems] by simp
    next
      case (Some k)
      then have "\<forall>j < k. entry s j \<noteq> None" "entry s k = None" "k < limit"
        using first_free_Some [OF Some] by auto
      then obtain s' where s': "talloc v s = (Ok (of_nat k), s')" "tinv s'"
        "entry s' = (entry s)(k \<mapsto> v)" "slots s' = max (slots s) (Suc k)"
        using alloc_free [OF Cons.prems, of k v] by blast
      then show ?thesis using Some Alloc Cons.IH [OF s'(2)] by (simp add: fun_upd_def)
    qed
  next
    case (Dealloc i)
    show ?thesis
    proof (cases "unat i < slots s")
      case True
      then obtain s' where s': "tdealloc i s = (Ok (), s')" "tinv s'"
        "entry s' = (entry s)(unat i := None)" "slots s' = slots s"
        using dealloc_slot [OF Cons.prems] by blast
      then show ?thesis using True Dealloc Cons.IH [OF s'(2)] by (simp add: fun_upd_def)
    next
      case False
      then show ?thesis using dealloc_none [OF Cons.prems] Dealloc Cons.IH [OF Cons.prems] by simp
    qed
  next
    case (Get i)
    then show ?thesis using get_entry [OF Cons.prems] Cons.IH [OF Cons.prems] by simp
  qed
qed simp

end

section \<open>The tables honour it\<close>

definition table_inv :: "nat \<Rightarrow> 'a table \<Rightarrow> bool" where
  "table_inv limit tab \<longleftrightarrow> length tab \<le> limit"

definition table_entry :: "'a table \<Rightarrow> nat \<Rightarrow> 'a option" where
  "table_entry tab k = (if k < length tab then tab ! k else None)"

lemma fill_slot_Some:
  assumes "\<forall>j < k. tab ! j \<noteq> None" and "k < length tab" and "tab ! k = None"
  shows "fill_slot v i tab = Some (i + of_nat k, tab[k := Some v])"
  using assms
proof (induction v i tab arbitrary: k rule: fill_slot.induct)
  case (2 v i w ws)
  show ?case
  proof (cases k)
    case 0
    then show ?thesis using 2 by simp
  next
    case (Suc k')
    obtain x where x: "w = Some x" using 2(2) Suc by (cases w) (auto dest: spec [of _ 0])
    have "\<forall>j < k'. ws ! j \<noteq> None" using 2(2) Suc by fastforce
    then have "fill_slot v (i + 1) ws = Some (i + 1 + of_nat k', ws[k' := Some v])"
      using 2 Suc x by simp
    then show ?thesis using x Suc by (simp add: add.assoc)
  qed
qed simp

lemma fill_slot_None: "\<forall>j < length tab. tab ! j \<noteq> None \<Longrightarrow> fill_slot v i tab = None"
proof (induction v i tab rule: fill_slot.induct)
  case (2 v i w ws)
  obtain x where x: "w = Some x" using 2(2) by (cases w) auto
  have "\<forall>j < length ws. ws ! j \<noteq> None" using 2(2) by fastforce
  then show ?case using 2(1) [OF x] x by simp
qed simp

text \<open>The trimming loop stops at once and removes nothing.\<close>

lemma trim_loop_id:
  assumes "tab \<noteq> []" and "length tab < 2 ^ 64"
  shows "trim_loop tab = Some tab"
proof -
  have "unat (of_nat (length tab) - 1 :: usize) = length tab - 1"
  proof -
    have "(of_nat (length tab) - 1 :: usize) = of_nat (length tab - 1)"
      using assms(1) by (simp add: of_nat_diff Suc_leI)
    then show ?thesis using assms(2) by (simp add: unat_of_nat take_bit_nat_eq_self)
  qed
  then have "vec_get tab (of_nat (length tab) - 1) \<noteq> None"
    using assms(1) by (simp add: vec_get_def)
  then show ?thesis by (subst trim_loop.simps) (simp only: if_False)
qed

lemma table_dealloc_slot:
  assumes "length tab < 2 ^ 64" and "unat i < length tab"
  shows "table_dealloc missing i tab = (Ok (), tab[unat i := None])"
proof -
  have "tab[unat i := None] \<noteq> []" using assms(2) by auto
  then have "trim_loop (tab[unat i := None]) = Some (tab[unat i := None])"
    using assms(1) by (intro trim_loop_id) simp_all
  moreover have "vec_get tab i = Some (tab ! unat i)" using assms(2) by (simp add: vec_get_def)
  ultimately show ?thesis unfolding table_dealloc_def Let_def by (simp only: option.case if_cancel)
qed

lemma table_laws:
  assumes "limit < 2 ^ 64"
  shows "handle_table (table_alloc limit exhausted) (table_dealloc missing) table_get table_entry
           length (table_inv limit) limit exhausted missing"
proof
  fix s :: "'a table" and k v
  assume inv: "table_inv limit s" and low: "\<forall>j < k. table_entry s j \<noteq> None"
    and free: "table_entry s k = None" and lim: "k < limit"
  have le: "k \<le> length s"
    using low by (metis table_entry_def less_irrefl not_le_imp_less)
  show "\<exists>s'. table_alloc limit exhausted v s = (Ok (of_nat k), s') \<and> table_inv limit s' \<and>
      table_entry s' = (table_entry s)(k \<mapsto> v) \<and> length s' = max (length s) (Suc k)"
  proof (cases "k < length s")
    case True
    then have "fill_slot v 0 s = Some (0 + of_nat k, s[k := Some v])"
      using low free by (intro fill_slot_Some) (auto simp: table_entry_def)
    then show ?thesis
      using True inv by (auto simp: table_alloc_def table_inv_def table_entry_def fun_eq_iff nth_list_update)
  next
    case False
    then have k: "k = length s" using le by simp
    then have "fill_slot v 0 s = None" using low by (intro fill_slot_None) (auto simp: table_entry_def)
    then show ?thesis
      using k lim by (auto simp: table_alloc_def table_inv_def table_entry_def fun_eq_iff nth_append)
  qed
next
  fix s :: "'a table" and v
  assume inv: "table_inv limit s" and full: "\<forall>j < limit. table_entry s j \<noteq> None"
  have "length s = limit"
    using inv full by (metis table_entry_def table_inv_def le_neq_implies_less less_irrefl)
  moreover have "fill_slot v 0 s = None"
    using full calculation by (intro fill_slot_None) (auto simp: table_entry_def)
  ultimately show "table_alloc limit exhausted v s = (Err exhausted, s)" by (simp add: table_alloc_def)
next
  fix s :: "'a table" and i :: usize
  assume inv: "table_inv limit s"
  show "\<exists>s'. table_dealloc missing i s = (Ok (), s') \<and> table_inv limit s' \<and>
      table_entry s' = (table_entry s)(unat i := None) \<and> length s' = length s" if "unat i < length s"
    using table_dealloc_slot [of s i missing] that inv assms
    by (auto simp: table_inv_def table_entry_def fun_eq_iff)
  show "table_dealloc missing i s = (Err (missing i), s)" if "length s \<le> unat i"
    using that by (simp add: table_dealloc_def vec_get_def)
  show "table_get s i = table_entry s (unat i)"
    by (simp add: table_get_def vec_get_def table_entry_def)
qed

interpretation fds: handle_table alloc_fd dealloc_fd get_file table_entry length
    "table_inv MAX_FD_COUNT" MAX_FD_COUNT FileDescriptorExhausted FileDescriptorDoesNotExist
  unfolding alloc_fd_def dealloc_fd_def get_file_def by (rule table_laws) (simp add: MAX_FD_COUNT_def)

interpretation mutexes: handle_table alloc_mutex dealloc_mutex get_mutex table_entry length
    "table_inv MAX_MUTEX_COUNT" MAX_MUTEX_COUNT MutexExhausted MutexDoesNotExist
  unfolding alloc_mutex_def dealloc_mutex_def get_mutex_def
  by (rule table_laws) (simp add: MAX_MUTEX_COUNT_def)

interpretation semaphores: handle_table alloc_semaphore dealloc_semaphore get_semaphore table_entry
    length "table_inv MAX_SEMAPHORE_COUNT" MAX_SEMAPHORE_COUNT SemaphoreExhausted SemaphoreDoesNotExist
  unfolding alloc_semaphore_def dealloc_semaphore_def get_semaphore_def
  by (rule table_laws) (simp add: MAX_SEMAPHORE_COUNT_def MAX_MUTEX_COUNT_def)

interpretation condvars: handle_table alloc_condvar dealloc_condvar get_condvar table_entry
    length "table_inv MAX_CONDVAR_COUNT" MAX_CONDVAR_COUNT CondvarExhausted CondvarDoesNotExist
  unfolding alloc_condvar_def dealloc_condvar_def get_condvar_def
  by (rule table_laws) (simp add: MAX_CONDVAR_COUNT_def MAX_MUTEX_COUNT_def)

section \<open>Properties\<close>

text \<open>
  C12. Any history of allocations, deallocations and look-ups on the four tables of a process (file
  descriptors, mutexes, semaphores, condition variables) answers exactly as a map from handles to
  entries does that gives out the least free handle below the limit of the table and refuses when
  all handles below the limit are taken; a deallocation is refused exactly for handles beyond
  every slot that was ever used. No call hangs or panics.
\<close>

theorem tables_history:
  fixes fdt :: "'f table" and mt :: "'m table" and st :: "'s table" and ct :: "'c table"
  assumes "length fdt \<le> MAX_FD_COUNT" and "length mt \<le> MAX_MUTEX_COUNT"
    and "length st \<le> MAX_SEMAPHORE_COUNT" and "length ct \<le> MAX_CONDVAR_COUNT"
  shows "table_run alloc_fd dealloc_fd get_file fcs fdt =
           map_run MAX_FD_COUNT FileDescriptorExhausted FileDescriptorDoesNotExist fcs
             (table_entry fdt) (length fdt) \<and>
         table_run alloc_mutex dealloc_mutex get_mutex mcs mt =
           map_run MAX_MUTEX_COUNT MutexExhausted MutexDoesNotExist mcs (table_entry mt) (length mt) \<and>
         table_run alloc_semaphore dealloc_semaphore get_semaphore scs st =
           map_run MAX_SEMAPHORE_COUNT SemaphoreExhausted SemaphoreDoesNotExist scs
             (table_entry st) (length st) \<and>
         table_run alloc_condvar dealloc_condvar get_condvar ccs ct =
           map_run MAX_CONDVAR_COUNT CondvarExhausted CondvarDoesNotExist ccs
             (table_entry ct) (length ct)"
  using fds.history [of fdt] mutexes.history [of mt] semaphores.history [of st]
    condvars.history [of ct] assms
  by (simp add: table_inv_def)

theorem tables_history_witness:
  "table_run alloc_fd dealloc_fd get_file
     [Alloc ''f'', Dealloc 1, Alloc ''g'', Get 1, Get 3, Dealloc 9]
     [Some ''in'', Some ''out'', Some ''out''] =
   [Handle 3, Done, Handle 1, Entry (Some ''g''), Entry (Some ''f''), Refused (FileDescriptorDoesNotExist 9)] \<and>
   table_run alloc_mutex dealloc_mutex get_mutex [Alloc True, Get 0] [] = [Handle 0, Entry (Some True)]"
  using tables_history [of "[Some ''in'', Some ''out'', Some ''out'']" "[]" "[]" "[]"
      "[Alloc ''f'', Dealloc 1, Alloc ''g'', Get 1, Get 3, Dealloc 9]" "[Alloc True, Get 0]" "[]" "[]"]
  by (simp add: MAX_FD_COUNT_def MAX_MUTEX_COUNT_def MAX_SEMAPHORE_COUNT_def MAX_CONDVAR_COUNT_def
      table_entry_def first_free_step)

text \<open>
  Removing an entry from one of the four tables always returns, the loop that is meant to
  shorten the vector included; but the vector keeps its length, so its slots are never given back.
\<close>

theorem table_dealloc_keeps_length:
  fixes tab :: "'a table"
  assumes "length tab < 2 ^ 64"
  shows "(\<exists>r tab'. table_dealloc missing i tab = (r, tab') \<and> length tab' = length tab \<and>
            r = (if unat i < length tab then Ok () else Err (missing i))) \<and>
         (tab \<noteq> [] \<longrightarrow> trim_loop tab = Some tab)"
  using assms table_dealloc_slot [of tab i missing] trim_loop_id [of tab]
  by (simp add: table_dealloc_def vec_get_def)

end
