(* ===== verification/Kernel_State.thy ===== *)
theory Kernel_State
  imports Signals Resource_Tables
begin

text \<open>
  The state of the running kernel: the control blocks of tasks and processes (the structures of
  src/task/model.rs), the processor (src/task/process.rs), the scheduler (src/task/scheduler.rs),
  the kernel space and the machine.

  A task or process that the code reaches through an \<open>Arc\<close> is named by the address of its
  control block (\<open>task_ref\<close>, \<open>proc_ref\<close>); addresses are given out in increasing order
  and not reused. The strong count of a block is computed from the places that hold an
  \<open>Arc\<close>: the processor, the ready queue, the timer heap and the task table of the process for
  a task; the table of children of the parent and the static of the first process for a process.
  \<open>k_held\<close> and \<open>k_proc_held\<close> count the references in local variables of tasks
  that are suspended inside a system call. A \<open>Weak\<close> reference can be upgraded while the block is
  in its map; when the last strong reference goes away the block is removed and its fields are
  dropped in order.
\<close>

type_synonym task_ref = nat
type_synonym proc_ref = nat
type_synonym file_ref = nat
type_synonym sync_ref = nat

section \<open>Control blocks\<close>

datatype task_status = Ready | Running | Blocked | Zombie

record task_block =
  tb_kernel_stack :: id_tracker
  tb_process :: proc_ref
  tb_status :: task_status
  tb_task_ctx :: task_context
  tb_exit_code :: "usize option"
  tb_user_resource :: "id_tracker option"

record 'tab process_block =
  pb_tracker :: id_tracker
  pb_tid_allocator :: btree_id_allocator
  pb_path :: string
  pb_entry_point :: usize
  pb_base_size :: usize
  pb_space :: space
  pb_parent :: "proc_ref option"
  pb_childrens :: "(usize, proc_ref) btree"
  pb_exit_code :: "usize option"
  pb_fd_table :: "file_ref table"
  pb_mutex_table :: "sync_ref table"
  pb_semaphore_table :: "sync_ref table"
  pb_condvar_table :: "sync_ref table"
  pb_signal :: "'tab signal_block"
  pb_tasks :: "(usize, task_ref) btree"

record timer_cond_var =
  tm_expire_us :: usize
  tm_task :: task_ref

record processor =
  pr_current :: "task_ref option"
  pr_empty_task_ctx :: task_context
  pr_idle_task_ctx :: task_context

record task_scheduler =
  ts_ready :: "task_ref list"
  ts_timer :: "timer_cond_var list"

record 'tab kernel =
  k_machine :: machine
  k_kernel_space :: space
  k_pids :: btree_id_allocator
  k_kernel_stacks :: btree_id_allocator
  k_tasks :: "task_ref \<rightharpoonup> task_block"
  k_procs :: "proc_ref \<rightharpoonup> 'tab process_block"
  k_next_task :: task_ref
  k_next_proc :: proc_ref
  k_init :: "proc_ref option"
  k_processor :: processor
  k_scheduler :: task_scheduler
  k_held :: "task_ref \<Rightarrow> nat"
  k_proc_held :: "proc_ref \<Rightarrow> nat"

text \<open>
  What stays fixed while the kernel runs: the crates, the image of the kernel, the addresses of
  the two functions of src/trap/handler_riscv.rs that are stored in contexts, the value that
  reading \<open>sstatus\<close> yields.
\<close>

record ('act, 'tab) platform =
  pf_crates :: crates
  pf_elf :: elf_crate
  pf_image :: kernel_image
  pf_signals :: "('act, 'tab) signal_crate"
  pf_trap_handler :: usize
  pf_trap_return :: usize
  pf_sstatus :: sstatus_value

definition ROOT_TID :: usize where "ROOT_TID = 0"
definition ROOT_PID :: usize where "ROOT_PID = 0"

abbreviation k_current :: "('tab, 'z) kernel_scheme \<Rightarrow> task_ref option" where
  "k_current s \<equiv> pr_current (k_processor s)"

abbreviation k_ready :: "('tab, 'z) kernel_scheme \<Rightarrow> task_ref list" where
  "k_ready s \<equiv> ts_ready (k_scheduler s)"

abbreviation k_timer :: "('tab, 'z) kernel_scheme \<Rightarrow> timer_cond_var list" where
  "k_timer s \<equiv> ts_timer (k_scheduler s)"

section \<open>Parts of the state\<close>

definition on_task :: "task_ref \<Rightarrow> (task_block, 'a) kop \<Rightarrow> (('tab, 'z) kernel_scheme, 'a) kop" where
  "on_task t f s =
     (case k_tasks s t of
        Some tb \<Rightarrow> (case f tb of (r, tb') \<Rightarrow> (r, s\<lparr>k_tasks := (k_tasks s)(t \<mapsto> tb')\<rparr>))
      | None \<Rightarrow> (Panic, s))"

definition on_process :: "proc_ref \<Rightarrow> ('tab process_block, 'a) kop \<Rightarrow> (('tab, 'z) kernel_scheme, 'a) kop" where
  "on_process p f s =
     (case k_procs s p of
        Some pb \<Rightarrow> (case f pb of (r, pb') \<Rightarrow> (r, s\<lparr>k_procs := (k_procs s)(p \<mapsto> pb')\<rparr>))
      | None \<Rightarrow> (Panic, s))"

definition on_space :: "proc_ref \<Rightarrow> (space_state, 'a) kop \<Rightarrow> (('tab, 'z) kernel_scheme, 'a) kop" where
  "on_space p f s =
     (case k_procs s p of
        Some pb \<Rightarrow>
          (case f (pb_space pb, k_machine s) of
             (r, (sp, m)) \<Rightarrow>
               (r, s\<lparr>k_procs := (k_procs s)(p \<mapsto> pb\<lparr>pb_space := sp\<rparr>), k_machine := m\<rparr>))
      | None \<Rightarrow> (Panic, s))"

definition on_kernel_space :: "(space_state, 'a) kop \<Rightarrow> (('tab, 'z) kernel_scheme, 'a) kop" where
  "on_kernel_space f s =
     (case f (k_kernel_space s, k_machine s) of
        (r, (sp, m)) \<Rightarrow> (r, s\<lparr>k_kernel_space := sp, k_machine := m\<rparr>))"

definition on_kernel_stacks :: "(btree_id_allocator, 'a) kop \<Rightarrow> (('tab, 'z) kernel_scheme, 'a) kop" where
  "on_kernel_stacks f s = (case f (k_kernel_stacks s) of (r, a) \<Rightarrow> (r, s\<lparr>k_kernel_stacks := a\<rparr>))"

definition on_pids :: "(btree_id_allocator, 'a) kop \<Rightarrow> (('tab, 'z) kernel_scheme, 'a) kop" where
  "on_pids f s = (case f (k_pids s) of (r, a) \<Rightarrow> (r, s\<lparr>k_pids := a\<rparr>))"

definition on_tids :: "proc_ref \<Rightarrow> (btree_id_allocator, 'a) kop \<Rightarrow> (('tab, 'z) kernel_scheme, 'a) kop" where
  "on_tids p f = on_process p (\<lambda>pb. case f (pb_tid_allocator pb) of (r, a) \<Rightarrow> (r, pb\<lparr>pb_tid_allocator := a\<rparr>))"

definition set_current :: "task_ref option \<Rightarrow> ('tab, 'z) kernel_scheme \<Rightarrow> ('tab, 'z) kernel_scheme" where
  "set_current c s = s\<lparr>k_processor := (k_processor s)\<lparr>pr_current := c\<rparr>\<rparr>"

section \<open>Strong counts\<close>

definition task_strong_count :: "('tab, 'z) kernel_scheme \<Rightarrow> task_ref \<Rightarrow> nat" where
  "task_strong_count s t =
     (if k_current s = Some t then 1 else 0) + count_list (k_ready s) t +
     count_list (map tm_task (k_timer s)) t +
     (case k_tasks s t of
        Some tb \<Rightarrow> (case k_procs s (tb_process tb) of
                      Some pb \<Rightarrow> count_list (map snd (pb_tasks pb)) t | None \<Rightarrow> 0)
      | None \<Rightarrow> 0) +
     k_held s t"

definition proc_strong_count :: "('tab, 'z) kernel_scheme \<Rightarrow> proc_ref \<Rightarrow> nat" where
  "proc_strong_count s p =
     (if k_init s = Some p then 1 else 0) +
     (case k_procs s p of
        Some pb \<Rightarrow> (case pb_parent pb of
                      Some q \<Rightarrow> (case k_procs s q of
                                   Some qb \<Rightarrow> count_list (map snd (pb_childrens qb)) p | None \<Rightarrow> 0)
                    | None \<Rightarrow> 0)
      | None \<Rightarrow> 0) +
     k_proc_held s p"

section \<open>Tasks\<close>

definition task_is_zombie :: "task_block \<Rightarrow> bool" where
  "task_is_zombie tb \<longleftrightarrow> tb_user_resource tb = None \<and> tb_status tb = Zombie"

definition task_tid :: "task_block \<Rightarrow> usize outcome" where
  "task_tid tb = (case tb_user_resource tb of Some tr \<Rightarrow> Ok (tracker_id tr) | None \<Rightarrow> Panic)"

definition forkable :: "task_block \<Rightarrow> unit outcome" where
  "forkable tb =
     (case task_tid tb of
        Ok tid \<Rightarrow> if tid \<noteq> ROOT_TID then Err (ForkWithNoRootTask tid) else Ok ()
      | Err e \<Rightarrow> Err e | Panic \<Rightarrow> Panic | Hang \<Rightarrow> Hang)"

definition mark_suspended :: "(task_block, unit) kop" where
  "mark_suspended tb = (Ok (), tb\<lparr>tb_status := Ready\<rparr>)"

definition mark_running :: "(task_block, unit) kop" where
  "mark_running tb = (Ok (), tb\<lparr>tb_status := Running\<rparr>)"

definition mark_blocked :: "(task_block, unit) kop" where
  "mark_blocked tb = (Ok (), tb\<lparr>tb_status := Blocked\<rparr>)"

section \<open>Dropping a task\<close>

definition kernel_stack_drop :: "crates \<Rightarrow> id_tracker \<Rightarrow> (('tab, 'z) kernel_scheme, unit) kop" where
  "kernel_stack_drop K tr =
     kbind (kunwrap (on_kernel_space (unmap_kernel_task_stack K (tracker_id tr)))) (\<lambda>_.
     on_kernel_stacks (id_tracker_drop True tr))"

definition resource_alloc :: "crates \<Rightarrow> usize \<Rightarrow> usize \<Rightarrow> (space_state, unit) kop" where
  "resource_alloc K tid base_size =
     kbind (alloc_user_task_stack K base_size tid) (\<lambda>_. alloc_task_trap_ctx K tid)"

definition resource_dealloc :: "crates \<Rightarrow> usize \<Rightarrow> usize \<Rightarrow> (space_state, unit) kop" where
  "resource_dealloc K tid base_size =
     kbind (dealloc_task_trap_ctx K tid) (\<lambda>_. dealloc_user_task_stack K base_size tid)"

text \<open>\<open>Drop\<close> of \<open>TaskUserResource\<close>, then of its tracker.\<close>

definition user_resource_drop :: "crates \<Rightarrow> proc_ref \<Rightarrow> id_tracker \<Rightarrow> (('tab, 'z) kernel_scheme, unit) kop" where
  "user_resource_drop K p tr s =
     (case k_procs s p of
        Some pb \<Rightarrow>
          kbind (kunwrap (on_space p (resource_dealloc K (tracker_id tr) (pb_base_size pb)))) (\<lambda>_.
          on_tids p (id_tracker_drop True tr)) s
      | None \<Rightarrow> (Ok (), s))"

definition task_block_drop :: "crates \<Rightarrow> task_ref \<Rightarrow> (('tab, 'z) kernel_scheme, unit) kop" where
  "task_block_drop K t s =
     (case k_tasks s t of
        Some tb \<Rightarrow>
          kbind (kernel_stack_drop K (tb_kernel_stack tb)) (\<lambda>_.
          (case tb_user_resource tb of Some tr \<Rightarrow> user_resource_drop K (tb_process tb) tr | None \<Rightarrow> kret ()))
          (s\<lparr>k_tasks := (k_tasks s)(t := None)\<rparr>)
      | None \<Rightarrow> (Ok (), s))"

text \<open>What happens when an \<open>Arc\<close> to a task was just given up.\<close>

definition task_release :: "crates \<Rightarrow> task_ref \<Rightarrow> (('tab, 'z) kernel_scheme, unit) kop" where
  "task_release K t s = (if task_strong_count s t = 0 then task_block_drop K t s else (Ok (), s))"

end
