(* ===== verification/Scheduler.thy ===== *)
theory Scheduler
  imports Kernel_State "HOL-Library.Multiset"
begin

text \<open>
  The ready queue and the timers (src/task/scheduler.rs), and the operations of the processor that
  give up and resume tasks (src/task/process.rs).

  \<open>BinaryHeap\<close> of the standard library is a list: \<open>peek\<close> and \<open>pop\<close> take a greatest
  element in the order of the elements, here the first one in the list; the library leaves open
  which of several equal elements is taken. The clock is an argument.

  A context switch stores the registers of the kernel thread and loads those of another one; what
  matters here is which task is current. Giving up the processor ends with no current task, and
  \<open>schedule\<close>, which runs on the idle context, then picks the next one.
\<close>

section \<open>Timers\<close>

text \<open>
  \<open>partial_cmp\<close>: \<open>-(expire_us as isize)\<close>, so that a greater element expires earlier.
\<close>

definition timer_key :: "timer_cond_var \<Rightarrow> int" where
  "timer_key c = sint (- tm_expire_us c)"

definition timer_cmp_less :: "timer_cond_var \<Rightarrow> timer_cond_var \<Rightarrow> bool" where
  "timer_cmp_less a b \<longleftrightarrow> timer_key a < timer_key b"

fun heap_peek :: "timer_cond_var list \<Rightarrow> timer_cond_var option" where
  "heap_peek [] = None"
| "heap_peek (c # cs) =
     (case heap_peek cs of
        None \<Rightarrow> Some c
      | Some d \<Rightarrow> if timer_cmp_less c d then Some d else Some c)"

definition heap_pop :: "timer_cond_var list \<Rightarrow> timer_cond_var list" where
  "heap_pop cs = (case heap_peek cs of None \<Rightarrow> cs | Some c \<Rightarrow> remove1 c cs)"

definition task_scheduler_new :: task_scheduler where
  "task_scheduler_new = \<lparr>ts_ready = [], ts_timer = []\<rparr>"

definition put_as_ready :: "task_ref \<Rightarrow> task_scheduler \<Rightarrow> task_scheduler" where
  "put_as_ready t q = q\<lparr>ts_ready := ts_ready q @ [t]\<rparr>"

definition pop_ready :: "task_scheduler \<Rightarrow> task_ref option \<times> task_scheduler" where
  "pop_ready q = (case ts_ready q of [] \<Rightarrow> (None, q) | t # ts \<Rightarrow> (Some t, q\<lparr>ts_ready := ts\<rparr>))"

definition put_as_timer :: "usize \<Rightarrow> task_ref \<Rightarrow> task_scheduler \<Rightarrow> task_scheduler" where
  "put_as_timer expire t q = q\<lparr>ts_timer := ts_timer q @ [\<lparr>tm_expire_us = expire, tm_task = t\<rparr>]\<rparr>"

definition pop_timer :: "task_scheduler \<Rightarrow> task_ref option \<times> task_scheduler" where
  "pop_timer q = (map_option tm_task (heap_peek (ts_timer q)), q\<lparr>ts_timer := heap_pop (ts_timer q)\<rparr>)"

section \<open>The global scheduler\<close>

definition put_read_task :: "task_ref \<Rightarrow> ('tab, 'z) kernel_scheme \<Rightarrow> ('tab, 'z) kernel_scheme" where
  "put_read_task t s = s\<lparr>k_scheduler := put_as_ready t (k_scheduler s)\<rparr>"

definition pop_ready_task :: "('tab, 'z) kernel_scheme \<Rightarrow> task_ref option \<times> ('tab, 'z) kernel_scheme" where
  "pop_ready_task s = (case pop_ready (k_scheduler s) of (t, q) \<Rightarrow> (t, s\<lparr>k_scheduler := q\<rparr>))"

definition put_sleep_task :: "usize \<Rightarrow> usize \<Rightarrow> task_ref \<Rightarrow> ('tab, 'z) kernel_scheme \<Rightarrow> ('tab, 'z) kernel_scheme" where
  "put_sleep_task now us t s = s\<lparr>k_scheduler := put_as_timer (get_timer_us now + us) t (k_scheduler s)\<rparr>"

text \<open>
  Each round of \<open>check_timers\<close> pops one timer, so there are at most as many rounds as timers.
  A task in the heap is held by it, so its block exists.
\<close>

fun timers_loop :: "nat \<Rightarrow> crates \<Rightarrow> usize \<Rightarrow> (('tab, 'z) kernel_scheme, unit) kop" where
  "timers_loop 0 K current_us s = (Ok (), s)"
| "timers_loop (Suc n) K current_us s =
     (case heap_peek (k_timer s) of
        None \<Rightarrow> (Ok (), s)
      | Some cv \<Rightarrow>
          (case k_tasks s (tm_task cv) of
             None \<Rightarrow> (Panic, s)
           | Some tb \<Rightarrow>
               if task_is_zombie tb then
                 kbind (task_release K (tm_task cv)) (\<lambda>_. timers_loop n K current_us)
                   (s\<lparr>k_scheduler := snd (pop_timer (k_scheduler s))\<rparr>)
               else if tm_expire_us cv \<le> current_us then
                 kbind (on_task (tm_task cv) mark_suspended) (\<lambda>_ s.
                   timers_loop n K current_us
                     (s\<lparr>k_scheduler := snd (pop_timer (put_as_ready (tm_task cv) (k_scheduler s)))\<rparr>)) s
               else (Ok (), s)))"

definition check_timers :: "crates \<Rightarrow> usize \<Rightarrow> (('tab, 'z) kernel_scheme, unit) kop" where
  "check_timers K now s = timers_loop (length (k_timer s)) K (get_timer_us now) s"

text \<open>The caller holds the task, so giving up the references in the heap drops nothing.\<close>

definition remove_timer :: "task_ref \<Rightarrow> ('tab, 'z) kernel_scheme \<Rightarrow> ('tab, 'z) kernel_scheme" where
  "remove_timer t s =
     s\<lparr>k_scheduler := (k_scheduler s)\<lparr>ts_timer := filter (\<lambda>cv. tm_task cv \<noteq> t) (k_timer s)\<rparr>\<rparr>"

section \<open>The processor\<close>

definition processor_new :: processor where
  "processor_new = \<lparr>pr_current = None, pr_empty_task_ctx = task_ctx_empty, pr_idle_task_ctx = task_ctx_empty\<rparr>"

definition current_task :: "(('tab, 'z) kernel_scheme, task_ref) kop" where
  "current_task s = (case k_current s of Some t \<Rightarrow> (Ok t, s) | None \<Rightarrow> (Err ProcessHaveNotTask, s))"

definition suspend_current_and_run_other_task :: "(('tab, 'z) kernel_scheme, unit) kop" where
  "suspend_current_and_run_other_task s =
     (case k_current s of
        Some t \<Rightarrow>
          kbind (on_task t mark_suspended) (\<lambda>_ s. (Ok (), put_read_task t s)) (set_current None s)
      | None \<Rightarrow> (Err ProcessHaveNotTask, s))"

definition block_current_and_run_other_task ::
    "(task_ref \<Rightarrow> (('tab, 'z) kernel_scheme, unit) kop) \<Rightarrow> (('tab, 'z) kernel_scheme, unit) kop" where
  "block_current_and_run_other_task f s =
     (case k_current s of
        Some t \<Rightarrow> kbind (on_task t mark_blocked) (\<lambda>_. f t) (set_current None s)
      | None \<Rightarrow> (Err ProcessHaveNotTask, s))"

text \<open>\<open>task::block_current_and_run_other_task\<close> and \<open>task::sleep_current_and_run_other_task\<close>.\<close>

definition block_current :: "(('tab, 'z) kernel_scheme, unit) kop" where
  "block_current = block_current_and_run_other_task (\<lambda>_. kret ())"

definition sleep_current_and_run_other_task :: "usize \<Rightarrow> usize \<Rightarrow> (('tab, 'z) kernel_scheme, unit) kop" where
  "sleep_current_and_run_other_task now us =
     block_current_and_run_other_task (\<lambda>t s. (Ok (), put_sleep_task now us t s))"

text \<open>
  \<open>schedule\<close> up to the switch to the task it picked. Every round but the last drops a zombie
  from the ready queue, into which the timers can only move tasks, so the number of queued tasks
  and timers bounds the rounds; \<open>clock i\<close> is the clock in round \<open>i\<close>.
\<close>

fun schedule_loop :: "nat \<Rightarrow> crates \<Rightarrow> (nat \<Rightarrow> usize) \<Rightarrow> (('tab, 'z) kernel_scheme, task_ref) kop" where
  "schedule_loop 0 K clock s = (Hang, s)"
| "schedule_loop (Suc n) K clock s =
     kbind (check_timers K (clock 0)) (\<lambda>_ s.
       case pop_ready_task s of
         (None, s) \<Rightarrow> (Panic, s)
       | (Some t, s) \<Rightarrow>
           (case k_tasks s t of
              None \<Rightarrow> (Panic, s)
            | Some tb \<Rightarrow>
                if task_is_zombie tb then
                  kbind (task_release K t) (\<lambda>_. schedule_loop n K (\<lambda>i. clock (Suc i))) s
                else kbind (on_task t mark_running) (\<lambda>_ s. (Ok t, set_current (Some t) s)) s)) s"

definition schedule :: "crates \<Rightarrow> (nat \<Rightarrow> usize) \<Rightarrow> (('tab, 'z) kernel_scheme, task_ref) kop" where
  "schedule K clock s = schedule_loop (Suc (length (k_ready s) + length (k_timer s))) K clock s"

section \<open>Lemmas on the heap\<close>

lemma heap_peek_None [simp]: "heap_peek cs = None \<longleftrightarrow> cs = []"
  by (cases cs) (auto split: option.splits)

lemma heap_peek_greatest:
  "heap_peek cs = Some c \<Longrightarrow> c \<in> set cs \<and> (\<forall>d \<in> set cs. timer_key d \<le> timer_key c)"
proof (induction cs arbitrary: c)
  case (Cons d cs)
  show ?case
  proof (cases "heap_peek cs")
    case None
    then show ?thesis using Cons.prems by simp
  next
    case (Some e)
    then show ?thesis
      using Cons.prems Cons.IH [OF Some] by (fastforce simp: timer_cmp_less_def split: if_splits)
  qed
qed simp

lemma sint_word_of_int:
  assumes "- (2 ^ 63) \<le> k" and "k < 2 ^ 63"
  shows "sint (word_of_int k :: usize) = k"
proof -
  have "sint (word_of_int k :: usize) = signed_take_bit 63 k" by (simp add: signed_of_int)
  then show ?thesis using assms by (simp add: signed_take_bit_int_eq_self)
qed

lemma sint_neg_small:
  fixes x :: usize
  assumes "x < 2 ^ 63"
  shows "sint (- x) = - uint x"
proof -
  have "uint x < 2 ^ 63" "0 \<le> uint x" using assms by (simp_all add: word_less_def)
  then have "- (2 ^ 63) \<le> - uint x" "- uint x < 2 ^ 63" by linarith+
  from sint_word_of_int [OF this] show ?thesis by simp
qed

lemma sint_neg_large:
  fixes x :: usize
  assumes "2 ^ 63 < x"
  shows "sint (- x) = 2 ^ 64 - uint x"
proof -
  have "2 ^ 63 < uint x" "uint x < 2 ^ 64" using assms unsigned_less [of x] by (simp_all add: word_less_def)
  then have "- (2 ^ 63) \<le> 2 ^ 64 - uint x" "2 ^ 64 - uint x < 2 ^ 63" by simp_all
  moreover have "(2 ^ 64 :: usize) = 0" by simp
  then have "word_of_int (2 ^ 64 - uint x) = - x" by simp
  ultimately show ?thesis by (metis sint_word_of_int)
qed

lemma timer_key_order:
  assumes "tm_expire_us a < 2 ^ 63" and "tm_expire_us b < 2 ^ 63"
  shows "timer_key a \<le> timer_key b \<longleftrightarrow> tm_expire_us b \<le> tm_expire_us a"
  unfolding timer_key_def sint_neg_small [OF assms(1)] sint_neg_small [OF assms(2)]
  by (simp add: word_le_def)

lemma filter_remove1_other: "\<not> P c \<Longrightarrow> filter P (remove1 c cs) = filter P cs"
  by (induction cs) auto

lemma heap_pop_peek: "heap_peek cs = Some c \<Longrightarrow> heap_pop cs = remove1 c cs"
  by (simp add: heap_pop_def)

section \<open>Waking the sleepers\<close>

definition wake_all :: "task_ref set \<Rightarrow> (task_ref \<rightharpoonup> task_block) \<Rightarrow> (task_ref \<rightharpoonup> task_block)" where
  "wake_all T tasks t = (if t \<in> T then map_option (\<lambda>tb. tb\<lparr>tb_status := Ready\<rparr>) (tasks t) else tasks t)"

lemma wake_all_empty [simp]: "wake_all {} tasks = tasks"
  by (simp add: wake_all_def fun_eq_iff)

lemma wake_all_insert:
  assumes "tasks t = Some tb"
  shows "wake_all T (tasks(t \<mapsto> tb\<lparr>tb_status := Ready\<rparr>)) = wake_all (insert t T) tasks"
  using assms by (auto simp: wake_all_def fun_eq_iff)

text \<open>The timers name live tasks that have not ended.\<close>

definition timers_live :: "('tab, 'z) kernel_scheme \<Rightarrow> bool" where
  "timers_live s \<longleftrightarrow> (\<forall>cv \<in> set (k_timer s). \<exists>tb. k_tasks s (tm_task cv) = Some tb \<and> \<not> task_is_zombie tb)"

lemma timers_loop_wake:
  assumes live: "timers_live s" and top: "heap_peek (k_timer s) = Some cv" and due: "tm_expire_us cv \<le> now"
  obtains s' tb where "timers_loop (Suc n) K now s = timers_loop n K now s'" and "timers_live s'"
    and "k_tasks s (tm_task cv) = Some tb"
    and "s' = s\<lparr>k_tasks := (k_tasks s)(tm_task cv \<mapsto> tb\<lparr>tb_status := Ready\<rparr>),
                k_scheduler := (k_scheduler s)\<lparr>ts_ready := k_ready s @ [tm_task cv],
                ts_timer := remove1 cv (k_timer s)\<rparr>\<rparr>"
proof -
  have "cv \<in> set (k_timer s)" using heap_peek_greatest [OF top] by simp
  then obtain tb where tb: "k_tasks s (tm_task cv) = Some tb" "\<not> task_is_zombie tb"
    using live by (auto simp: timers_live_def)
  define s' where "s' = s\<lparr>k_tasks := (k_tasks s)(tm_task cv \<mapsto> tb\<lparr>tb_status := Ready\<rparr>),
      k_scheduler := (k_scheduler s)\<lparr>ts_ready := k_ready s @ [tm_task cv],
                ts_timer := remove1 cv (k_timer s)\<rparr>\<rparr>"
  have "timers_loop (Suc n) K now s = timers_loop n K now s'"
    using top tb due
    by (simp add: kbind_def on_task_def mark_suspended_def pop_timer_def put_as_ready_def heap_pop_peek s'_def)
  moreover have "timers_live s'"
    using live tb set_remove1_subset [of cv "k_timer s"]
    by (auto simp: timers_live_def s'_def task_is_zombie_def)
  ultimately show ?thesis using tb that s'_def by blast
qed

lemma timers_loop_due:
  assumes "timers_live s" and "\<forall>cv \<in> set (k_timer s). tm_expire_us cv < 2 ^ 63" and "length (k_timer s) \<le> n"
  shows "\<exists>ws. timers_loop n K now s =
            (Ok (), s\<lparr>k_tasks := wake_all (tm_task ` set ws) (k_tasks s),
              k_scheduler := (k_scheduler s)\<lparr>ts_ready := k_ready s @ map tm_task ws,
                ts_timer := filter (\<lambda>cv. \<not> tm_expire_us cv \<le> now) (k_timer s)\<rparr>\<rparr>) \<and>
          mset ws = filter_mset (\<lambda>cv. tm_expire_us cv \<le> now) (mset (k_timer s)) \<and>
          sorted (map tm_expire_us ws)"
  using assms
proof (induction n arbitrary: s)
  case 0
  then show ?case by (intro exI [of _ "[]"]) simp
next
  case (Suc n)
  show ?case
  proof (cases "heap_peek (k_timer s)")
    case None
    then show ?thesis by (intro exI [of _ "[]"]) simp
  next
    case (Some cv)
    have cv: "cv \<in> set (k_timer s)" and least: "\<forall>d \<in> set (k_timer s). tm_expire_us cv \<le> tm_expire_us d"
      using heap_peek_greatest [OF Some] timer_key_order Suc.prems(2) by blast+
    show ?thesis
    proof (cases "tm_expire_us cv \<le> now")
      case False
      then have none: "\<forall>d \<in> set (k_timer s). \<not> tm_expire_us d \<le> now" using least by force
      obtain tb where "k_tasks s (tm_task cv) = Some tb" "\<not> task_is_zombie tb"
        using Suc.prems(1) cv by (auto simp: timers_live_def)
      then show ?thesis
        using False Some none by (intro exI [of _ "[]"]) (simp add: filter_mset_eq_conv)
    next
      case True
      obtain s' tb where s': "timers_loop (Suc n) K now s = timers_loop n K now s'" "timers_live s'"
        "k_tasks s (tm_task cv) = Some tb"
        "s' = s\<lparr>k_tasks := (k_tasks s)(tm_task cv \<mapsto> tb\<lparr>tb_status := Ready\<rparr>),
                k_scheduler := (k_scheduler s)\<lparr>ts_ready := k_ready s @ [tm_task cv],
                ts_timer := remove1 cv (k_timer s)\<rparr>\<rparr>"
        by (rule timers_loop_wake [OF Suc.prems(1) Some True])
      have sub: "set (k_timer s') \<subseteq> set (k_timer s)" using s'(4) set_remove1_subset by fastforce
      have len: "length (k_timer s') \<le> n" using s'(4) cv Suc.prems(3) by (simp add: length_remove1)
      obtain ws where ws: "timers_loop n K now s' =
            (Ok (), s'\<lparr>k_tasks := wake_all (tm_task ` set ws) (k_tasks s'),
              k_scheduler := (k_scheduler s')\<lparr>ts_ready := k_ready s' @ map tm_task ws,
                ts_timer := filter (\<lambda>cv. \<not> tm_expire_us cv \<le> now) (k_timer s')\<rparr>\<rparr>)"
          "mset ws = filter_mset (\<lambda>cv. tm_expire_us cv \<le> now) (mset (k_timer s'))"
          "sorted (map tm_expire_us ws)"
        using Suc.IH [OF s'(2) _ len] sub Suc.prems(2) by blast
      have "set ws \<subseteq> set (k_timer s)" using ws(2) sub by (metis filter_mset_eq_conv mset_subset_eq_add_left mset_subset_eqD set_mset_mset subset_iff multiset_filter_subset)
      then have "sorted (map tm_expire_us (cv # ws))" using ws(3) least by auto
      moreover have "mset (cv # ws) = filter_mset (\<lambda>cv. tm_expire_us cv \<le> now) (mset (k_timer s))"
      proof -
        have "mset (k_timer s) = add_mset cv (mset (k_timer s'))" using cv s'(4) by simp
        then show ?thesis using ws(2) True by simp
      qed
      moreover have "timers_loop (Suc n) K now s =
            (Ok (), s\<lparr>k_tasks := wake_all (tm_task ` set (cv # ws)) (k_tasks s),
              k_scheduler := (k_scheduler s)\<lparr>ts_ready := k_ready s @ map tm_task (cv # ws),
                ts_timer := filter (\<lambda>cv. \<not> tm_expire_us cv \<le> now) (k_timer s)\<rparr>\<rparr>)"
        using s'(1) ws(1) s'(4) True
        by (simp add: wake_all_insert [of "k_tasks s" "tm_task cv" tb, OF s'(3)] filter_remove1_other)
      ultimately show ?thesis by blast
    qed
  qed
qed

section \<open>Picking the next task\<close>

text \<open>Every queued task exists and has not ended.\<close>

definition queues_live :: "('tab, 'z) kernel_scheme \<Rightarrow> bool" where
  "queues_live s \<longleftrightarrow> timers_live s \<and>
     (\<forall>t \<in> set (k_ready s). \<exists>tb. k_tasks s t = Some tb \<and> \<not> task_is_zombie tb)"

definition task_alive :: "('tab, 'z) kernel_scheme \<Rightarrow> task_ref \<Rightarrow> bool" where
  "task_alive s t \<longleftrightarrow> (\<exists>tb. k_tasks s t = Some tb \<and> \<not> task_is_zombie tb)"

lemma queues_live_alive:
  "queues_live s \<longleftrightarrow> (\<forall>t \<in> tm_task ` set (k_timer s) \<union> set (k_ready s). task_alive s t)"
  by (auto simp: queues_live_def timers_live_def task_alive_def)

text \<open>The timers that are due move to the ready queue; nothing else changes but their status.\<close>

lemma timers_loop_moves:
  assumes "queues_live s"
  shows "\<exists>T ws rest. timers_loop n K now s =
           (Ok (), s\<lparr>k_tasks := T,
              k_scheduler := (k_scheduler s)\<lparr>ts_ready := k_ready s @ ws, ts_timer := rest\<rparr>\<rparr>) \<and>
           mset ws + mset (map tm_task rest) = mset (map tm_task (k_timer s)) \<and>
           (\<forall>t. task_alive (s\<lparr>k_tasks := T\<rparr>) t = task_alive s t)"
  using assms
proof (induction n arbitrary: s)
  case 0
  show ?case by (intro exI [of _ "k_tasks s"] exI [of _ "[]"] exI [of _ "k_timer s"]) simp
next
  case (Suc n)
  have stay: ?case if "timers_loop (Suc n) K now s = (Ok (), s)"
    using that by (intro exI [of _ "k_tasks s"] exI [of _ "[]"] exI [of _ "k_timer s"]) simp
  show ?case
  proof (cases "heap_peek (k_timer s)")
    case None
    then show ?thesis by (intro stay) simp
  next
    case (Some cv)
    have live: "timers_live s" using Suc.prems by (simp add: queues_live_def)
    have cv: "cv \<in> set (k_timer s)" using heap_peek_greatest [OF Some] by simp
    then obtain tb where tb: "k_tasks s (tm_task cv) = Some tb" "\<not> task_is_zombie tb"
      using live by (auto simp: timers_live_def)
    show ?thesis
    proof (cases "tm_expire_us cv \<le> now")
      case False
      then show ?thesis using Some tb by (intro stay) simp
    next
      case True
      obtain s' tb' where s': "timers_loop (Suc n) K now s = timers_loop n K now s'" "timers_live s'"
        "k_tasks s (tm_task cv) = Some tb'"
        "s' = s\<lparr>k_tasks := (k_tasks s)(tm_task cv \<mapsto> tb'\<lparr>tb_status := Ready\<rparr>),
                k_scheduler := (k_scheduler s)\<lparr>ts_ready := k_ready s @ [tm_task cv],
                ts_timer := remove1 cv (k_timer s)\<rparr>\<rparr>"
        by (rule timers_loop_wake [OF live Some True])
      have al: "task_alive s' t = task_alive s t" for t
        using s'(3,4) tb by (auto simp: task_alive_def task_is_zombie_def)
      have q: "queues_live s'"
        using s' Suc.prems by (auto simp: queues_live_def task_is_zombie_def)
      obtain T ws rest where ih: "timers_loop n K now s' =
           (Ok (), s'\<lparr>k_tasks := T,
              k_scheduler := (k_scheduler s')\<lparr>ts_ready := k_ready s' @ ws, ts_timer := rest\<rparr>\<rparr>)"
           "mset ws + mset (map tm_task rest) = mset (map tm_task (k_timer s'))"
           "\<forall>t. task_alive (s'\<lparr>k_tasks := T\<rparr>) t = task_alive s' t"
        using Suc.IH [OF q] by blast
      have "add_mset (tm_task cv) (mset (map tm_task (k_timer s'))) = mset (map tm_task (k_timer s))"
      proof -
        have "mset (k_timer s) = add_mset cv (mset (k_timer s'))" using cv s'(4) by simp
        then show ?thesis by (metis image_mset_add_mset mset_map)
      qed
      then have "mset (tm_task cv # ws) + mset (map tm_task rest) = mset (map tm_task (k_timer s))"
        using ih(2) by simp
      moreover have "\<forall>t. task_alive (s\<lparr>k_tasks := T\<rparr>) t = task_alive s t"
        using ih(3) al by (simp add: task_alive_def)
      moreover have "timers_loop (Suc n) K now s =
           (Ok (), s\<lparr>k_tasks := T, k_scheduler := (k_scheduler s)
              \<lparr>ts_ready := k_ready s @ (tm_task cv # ws), ts_timer := rest\<rparr>\<rparr>)"
        using s'(1,4) ih(1) by simp
      ultimately show ?thesis by blast
    qed
  qed
qed

lemma timers_loop_appends:
  assumes "queues_live s"
  shows "\<exists>s' ws. timers_loop n K now s = (Ok (), s') \<and> queues_live s' \<and> k_ready s' = k_ready s @ ws \<and>
           k_current s' = k_current s"
proof -
  obtain T ws rest where m: "timers_loop n K now s =
           (Ok (), s\<lparr>k_tasks := T,
              k_scheduler := (k_scheduler s)\<lparr>ts_ready := k_ready s @ ws, ts_timer := rest\<rparr>\<rparr>)"
           "mset ws + mset (map tm_task rest) = mset (map tm_task (k_timer s))"
           "\<forall>t. task_alive (s\<lparr>k_tasks := T\<rparr>) t = task_alive s t"
    using timers_loop_moves [OF assms] by blast
  let ?s' = "s\<lparr>k_tasks := T, k_scheduler := (k_scheduler s)\<lparr>ts_ready := k_ready s @ ws, ts_timer := rest\<rparr>\<rparr>"
  have "set ws \<union> tm_task ` set rest = tm_task ` set (k_timer s)"
    using arg_cong [OF m(2), of set_mset] by simp
  then have "queues_live ?s'"
    using assms m(3) unfolding queues_live_alive by (simp add: task_alive_def) blast
  then show ?thesis using m(1) by auto
qed

lemma schedule_moves:
  assumes live: "queues_live s" and run: "schedule K clock s = (Ok t, s')"
  shows "\<exists>T ts rest. s' = s\<lparr>k_tasks := T,
             k_scheduler := (k_scheduler s)\<lparr>ts_ready := ts, ts_timer := rest\<rparr>,
             k_processor := (k_processor s)\<lparr>pr_current := Some t\<rparr>\<rparr> \<and>
           add_mset t (mset ts) + mset (map tm_task rest) = mset (k_ready s) + mset (map tm_task (k_timer s)) \<and>
           set (k_ready s) \<subseteq> insert t (set ts) \<and> (\<forall>u. task_alive (s\<lparr>k_tasks := T\<rparr>) u = task_alive s u)"
proof -
  obtain T ws rest where m: "check_timers K (clock 0) s =
           (Ok (), s\<lparr>k_tasks := T,
              k_scheduler := (k_scheduler s)\<lparr>ts_ready := k_ready s @ ws, ts_timer := rest\<rparr>\<rparr>)"
           "mset ws + mset (map tm_task rest) = mset (map tm_task (k_timer s))"
           "\<forall>u. task_alive (s\<lparr>k_tasks := T\<rparr>) u = task_alive s u"
    using timers_loop_moves [OF live] unfolding check_timers_def by blast
  obtain u us where q: "k_ready s @ ws = u # us"
    using run m(1) by (cases "k_ready s @ ws") (simp_all add: schedule_def kbind_def pop_ready_task_def pop_ready_def)
  have "u \<in> set (k_ready s) \<union> tm_task ` set (k_timer s)"
    using q arg_cong [OF m(2), of set_mset] by (metis Un_iff list.set_intros(1) list.set_map set_append set_mset_mset set_mset_union)
  then have "task_alive s u" using live by (auto simp: queues_live_alive)
  then obtain tb where tb: "T u = Some tb" "\<not> task_is_zombie tb"
    using m(3) by (auto simp: task_alive_def)
  let ?T = "T(u \<mapsto> tb\<lparr>tb_status := Running\<rparr>)"
  have st: "t = u \<and> s' = s\<lparr>k_tasks := ?T,
             k_scheduler := (k_scheduler s)\<lparr>ts_ready := us, ts_timer := rest\<rparr>,
             k_processor := (k_processor s)\<lparr>pr_current := Some u\<rparr>\<rparr>"
    using run m(1) q tb
    by (auto simp: schedule_def kbind_def pop_ready_task_def pop_ready_def on_task_def mark_running_def set_current_def)
  moreover have "add_mset u (mset us) + mset (map tm_task rest) = mset (k_ready s) + mset (map tm_task (k_timer s))"
    using arg_cong [OF q, of mset] m(2) by (metis add.assoc mset.simps(2) mset_append)
  moreover have "set (k_ready s) \<subseteq> insert u (set us)" using q by (metis list.simps(15) set_append sup_ge1)
  moreover have "\<forall>v. task_alive (s\<lparr>k_tasks := ?T\<rparr>) v = task_alive s v"
    using m(3) tb by (auto simp: task_alive_def task_is_zombie_def)
  ultimately show ?thesis by blast
qed

lemma schedule_picks:
  assumes "queues_live s" and "k_ready s = t # ts"
  shows "\<exists>s' ws tb. schedule K clock s = (Ok t, s') \<and> queues_live s' \<and> k_ready s' = ts @ ws \<and>
           k_current s' = Some t \<and> k_tasks s' t = Some tb \<and> tb_status tb = Running \<and> \<not> task_is_zombie tb"
proof -
  obtain s1 ws where s1: "check_timers K (clock 0) s = (Ok (), s1)" "queues_live s1" "k_ready s1 = (t # ts) @ ws"
    using timers_loop_appends [OF assms(1)] assms(2) unfolding check_timers_def by metis
  obtain tb where tb: "k_tasks s1 t = Some tb" "\<not> task_is_zombie tb"
    using s1(2,3) by (auto simp: queues_live_def)
  define s' where "s' = s1\<lparr>k_scheduler := (k_scheduler s1)\<lparr>ts_ready := ts @ ws\<rparr>,
      k_tasks := (k_tasks s1)(t \<mapsto> tb\<lparr>tb_status := Running\<rparr>),
      k_processor := (k_processor s1)\<lparr>pr_current := Some t\<rparr>\<rparr>"
  have "schedule K clock s = (Ok t, s')"
    using s1 tb by (simp add: schedule_def kbind_def pop_ready_task_def pop_ready_def on_task_def
        mark_running_def set_current_def s'_def)
  moreover have "queues_live s'"
    using s1(2,3) tb by (auto simp: queues_live_def timers_live_def s'_def task_is_zombie_def)
  ultimately show ?thesis using tb by (auto simp: s'_def task_is_zombie_def)
qed

text \<open>A number of time slices: the next task is picked, runs, and is suspended again.\<close>

fun time_slices :: "nat \<Rightarrow> crates \<Rightarrow> (nat \<Rightarrow> nat \<Rightarrow> usize) \<Rightarrow> (('tab, 'z) kernel_scheme, task_ref list) kop" where
  "time_slices 0 K clock s = (Ok [], s)"
| "time_slices (Suc n) K clock s =
     kbind (schedule K (clock n)) (\<lambda>t.
     kbind suspend_current_and_run_other_task (\<lambda>_.
     kbind (time_slices n K clock) (\<lambda>ts. kret (t # ts)))) s"

lemma suspend_ok:
  assumes "queues_live s" and "k_current s = Some t" and "k_tasks s t = Some tb" and "\<not> task_is_zombie tb"
  shows "\<exists>s'. suspend_current_and_run_other_task s = (Ok (), s') \<and> queues_live s' \<and>
           k_ready s' = k_ready s @ [t] \<and> k_current s' = None"
proof -
  define s' where "s' = s\<lparr>k_processor := (k_processor s)\<lparr>pr_current := None\<rparr>,
      k_tasks := (k_tasks s)(t \<mapsto> tb\<lparr>tb_status := Ready\<rparr>),
      k_scheduler := (k_scheduler s)\<lparr>ts_ready := k_ready s @ [t]\<rparr>\<rparr>"
  have "suspend_current_and_run_other_task s = (Ok (), s')"
    using assms by (simp add: suspend_current_and_run_other_task_def kbind_def on_task_def mark_suspended_def
        put_read_task_def put_as_ready_def set_current_def s'_def)
  moreover have "queues_live s'"
    using assms by (auto simp: queues_live_def timers_live_def s'_def task_is_zombie_def)
  ultimately show ?thesis by (simp add: s'_def)
qed

lemma time_slices_fifo:
  assumes "queues_live s" and "n \<le> length (k_ready s)"
  shows "\<exists>s'. time_slices n K clock s = (Ok (take n (k_ready s)), s')"
  using assms
proof (induction n arbitrary: s)
  case (Suc n)
  obtain t ts where q: "k_ready s = t # ts" using Suc.prems(2) by (cases "k_ready s") auto
  obtain s1 ws tb where s1: "schedule K (clock n) s = (Ok t, s1)" "queues_live s1" "k_ready s1 = ts @ ws"
    "k_current s1 = Some t" "k_tasks s1 t = Some tb" "\<not> task_is_zombie tb"
    using schedule_picks [OF Suc.prems(1) q] by blast
  obtain s2 where s2: "suspend_current_and_run_other_task s1 = (Ok (), s2)" "queues_live s2"
    "k_ready s2 = (ts @ ws) @ [t]"
    using suspend_ok [OF s1(2,4,5,6)] s1(3) by auto
  obtain s3 where s3: "time_slices n K clock s2 = (Ok (take n (k_ready s2)), s3)"
    using Suc.IH [OF s2(2)] s2(3) Suc.prems(2) q by auto
  have "take n (k_ready s2) = take n ts" using s2(3) Suc.prems(2) q by simp
  then show ?case using s1(1) s2(1) s3 q by (simp add: kbind_def)
qed simp

section \<open>Properties\<close>

text \<open>
  Checking the timers wakes exactly the tasks whose deadline has passed: they become ready and
  enter the ready queue in the order of their deadlines, behind the tasks already there, and the
  timers that are left are those whose deadline has not passed. This holds when no deadline
  exceeds \<open>isize::MAX\<close> and the sleeping tasks are alive.
\<close>

theorem check_timers_wakes_due:
  assumes "timers_live s" and "\<forall>cv \<in> set (k_timer s). tm_expire_us cv < 2 ^ 63"
  shows "\<exists>ws. check_timers K now s =
            (Ok (), s\<lparr>k_tasks := wake_all (tm_task ` set ws) (k_tasks s),
              k_scheduler := (k_scheduler s)\<lparr>ts_ready := k_ready s @ map tm_task ws,
                ts_timer := filter (\<lambda>cv. get_timer_us now < tm_expire_us cv) (k_timer s)\<rparr>\<rparr>) \<and>
          mset ws = filter_mset (\<lambda>cv. tm_expire_us cv \<le> get_timer_us now) (mset (k_timer s)) \<and>
          sorted (map tm_expire_us ws)"
  using timers_loop_due [OF assms order_refl, of K "get_timer_us now"]
  by (simp add: check_timers_def not_le)

definition sample_task :: task_block where
  "sample_task = \<lparr>tb_kernel_stack = \<lparr>tracker_id = 0\<rparr>, tb_process = 0, tb_status = Blocked,
     tb_task_ctx = task_ctx_empty, tb_exit_code = None, tb_user_resource = Some \<lparr>tracker_id = 0\<rparr>\<rparr>"

text \<open>A space without areas on a table without entries.\<close>

definition sample_kernel_space :: space where
  "sample_kernel_space = \<lparr>area_set = [],
     space_page_table = \<lparr>pt_asid = 0, pt_root = page_mapper_new None 0, pt_mappers = Map.empty, pt_trackers = Map.empty\<rparr>,
     page_range_allocator = (case page_ranges_new 0 (2 ^ 27) of Ok a \<Rightarrow> a)\<rparr>"

text \<open>A kernel in which every task is blocked, with the given current task, queue and timers.\<close>

definition sample_kernel :: "task_ref option \<Rightarrow> task_ref list \<Rightarrow> timer_cond_var list \<Rightarrow> unit kernel" where
  "sample_kernel c ready timers = \<lparr>k_machine = sample_machine 8,
     k_kernel_space = sample_kernel_space,
     k_pids = id_allocator_new 4, k_kernel_stacks = id_allocator_new 4, k_tasks = (\<lambda>_. Some sample_task),
     k_procs = (\<lambda>_. None), k_next_task = 9, k_next_proc = 0, k_init = None,
     k_processor = processor_new\<lparr>pr_current := c\<rparr>,
     k_scheduler = \<lparr>ts_ready = ready, ts_timer = timers\<rparr>, k_held = (\<lambda>_. 0), k_proc_held = (\<lambda>_. 0)\<rparr>"

lemma sample_kernel_live: "queues_live (sample_kernel c ready timers)"
  by (simp add: queues_live_def timers_live_def sample_kernel_def sample_task_def task_is_zombie_def)

text \<open>
  C34. A task that sleeps until a time beyond \<open>isize::MAX\<close> microseconds keeps every other
  sleeping task asleep: the comparison of timers casts the deadline to a signed integer, so the
  far deadline is taken for the nearest one, and checking the timers stops there without waking
  anybody, at any time before \<open>isize::MAX\<close>.
\<close>

theorem far_deadline_stalls_timers:
  assumes "timers_live s" and "k_current s = Some t" and "k_tasks s t = Some tb" and "\<not> task_is_zombie tb"
    and "2 ^ 63 < get_timer_us now + us" and "get_timer_us later < 2 ^ 63"
  shows "\<exists>s'. sleep_current_and_run_other_task now us s = (Ok (), s') \<and>
           k_timer s' = k_timer s @ [\<lparr>tm_expire_us = get_timer_us now + us, tm_task = t\<rparr>] \<and>
           check_timers K later s' = (Ok (), s')"
proof -
  let ?far = "\<lparr>tm_expire_us = get_timer_us now + us, tm_task = t\<rparr>"
  define s' where "s' = s\<lparr>k_processor := (k_processor s)\<lparr>pr_current := None\<rparr>,
      k_tasks := (k_tasks s)(t \<mapsto> tb\<lparr>tb_status := Blocked\<rparr>),
      k_scheduler := (k_scheduler s)\<lparr>ts_timer := k_timer s @ [?far]\<rparr>\<rparr>"
  have run: "sleep_current_and_run_other_task now us s = (Ok (), s')"
    using assms(2,3) by (simp add: sleep_current_and_run_other_task_def block_current_and_run_other_task_def
        kbind_def on_task_def mark_blocked_def put_sleep_task_def put_as_timer_def set_current_def s'_def)
  have live: "timers_live s'"
    using assms(1,4) by (auto simp: timers_live_def s'_def task_is_zombie_def)
  obtain cv where cv: "heap_peek (k_timer s') = Some cv"
    by (cases "heap_peek (k_timer s')") (auto simp: s'_def)
  have top: "cv \<in> set (k_timer s')" "timer_key ?far \<le> timer_key cv"
    using heap_peek_greatest [OF cv] by (auto simp: s'_def)
  have "0 < timer_key ?far"
    using sint_neg_large [OF assms(5)] unsigned_less [of "get_timer_us now + us"]
    by (simp add: timer_key_def)
  then have pos: "0 < timer_key cv" using top(2) by simp
  have "\<not> tm_expire_us cv < 2 ^ 63" using pos sint_neg_small [of "tm_expire_us cv"] by (auto simp: timer_key_def)
  then have late: "\<not> tm_expire_us cv \<le> get_timer_us later" using assms(6) by simp
  obtain tb' where "k_tasks s' (tm_task cv) = Some tb'" "\<not> task_is_zombie tb'"
    using live top(1) by (auto simp: timers_live_def)
  then have "timers_loop (Suc n) K (get_timer_us later) s' = (Ok (), s')" for n
    using cv late by simp
  then have "check_timers K later s' = (Ok (), s')"
    unfolding check_timers_def by (simp add: s'_def)
  then show ?thesis using run by (auto simp: s'_def)
qed

theorem far_deadline_stalls_timers_witness:
  "\<exists>s'. sleep_current_and_run_other_task 0 (2 ^ 63 + 1) (sample_kernel (Some 3) [] [\<lparr>tm_expire_us = 1, tm_task = 1\<rparr>]) = (Ok (), s') \<and>
     \<lparr>tm_expire_us = 1, tm_task = 1\<rparr> \<in> set (k_timer s') \<and> check_timers rust_crates 12500000 s' = (Ok (), s')"
proof -
  let ?s = "sample_kernel (Some 3) [] [\<lparr>tm_expire_us = 1, tm_task = 1\<rparr>]"
  have live: "timers_live ?s" using sample_kernel_live by (simp add: queues_live_def)
  have c: "k_current ?s = Some 3" "k_tasks ?s 3 = Some sample_task" by (simp_all add: sample_kernel_def)
  have z: "\<not> task_is_zombie sample_task" by (simp add: task_is_zombie_def sample_task_def)
  have far: "2 ^ 63 < get_timer_us 0 + (2 ^ 63 + 1)" by code_simp
  have later: "get_timer_us 12500000 < 2 ^ 63" by code_simp
  show ?thesis
    using far_deadline_stalls_timers [OF live c z far later, of rust_crates] by (auto simp: sample_kernel_def)
qed

text \<open>
  C19. Scheduling is fair: over any number of time slices in which the running task is suspended at
  the end, the tasks of the ready queue run in the order of the queue, whatever the timers add to
  it meanwhile, so the task at position \<open>i\<close> runs in slice \<open>i\<close>; no slice panics or hangs.
\<close>

theorem ready_tasks_run_in_order:
  assumes "queues_live s" and "i < length (k_ready s)"
  shows "\<exists>ts s'. time_slices (Suc i) K clock s = (Ok ts, s') \<and> ts = take (Suc i) (k_ready s) \<and>
           last ts = k_ready s ! i"
  using time_slices_fifo [OF assms(1), of "Suc i" K clock] assms(2)
  by (auto simp: take_Suc_conv_app_nth)

theorem ready_tasks_run_in_order_witness:
  "\<exists>ts s'. time_slices 3 rust_crates (\<lambda>_ _. 1250) (sample_kernel None [5, 6, 7] [\<lparr>tm_expire_us = 100, tm_task = 1\<rparr>]) = (Ok ts, s') \<and>
     last ts = 7"
proof -
  let ?s = "sample_kernel None [5, 6, 7] [\<lparr>tm_expire_us = 100, tm_task = 1\<rparr>]"
  have "2 < length (k_ready ?s)" by (simp add: sample_kernel_def)
  then show ?thesis
    using ready_tasks_run_in_order [OF sample_kernel_live, of 2 None "[5, 6, 7]"
        "[\<lparr>tm_expire_us = 100, tm_task = 1\<rparr>]" rust_crates "\<lambda>_ _. 1250"]
    by (auto simp: sample_kernel_def numeral_3_eq_3)
qed

end
