(* ===== verification/Sync.thy ===== *)
theory Sync
  imports Scheduler
begin

text \<open>
  Mutexes, semaphores and condition variables (src/sync/), and the system calls on them
  (src/syscall/sync.rs).

  The objects live in three stores that extend the state of the kernel; the tables of a process
  hold their addresses. A \<open>Weak\<close> reference to a task is its address and can be upgraded while the
  block of the task exists.

  A call that may give up the processor is cut at the points where it does: a round ends with
  \<open>Ok True\<close> when the call returns, and with \<open>Ok False\<close> when the task was suspended or blocked
  and the loop of the call goes on once the task runs again. Between these points nothing else
  runs, because the kernel is not preempted.
\<close>

section \<open>The objects\<close>

record mutex_spin =
  ms_locked :: "task_ref option"

record mutex_blocking =
  mb_locked :: "task_ref option"
  mb_next :: "task_ref option"
  mb_waiting :: "task_ref list"

datatype mutex = MutexSpin mutex_spin | MutexBlocking mutex_blocking

record semaphore_spin =
  ss_count :: usize

record semaphore_blocking =
  sb_count :: usize
  sb_waiting :: "task_ref list"

datatype semaphore = SemaphoreSpin semaphore_spin | SemaphoreBlocking semaphore_blocking

record condvar =
  cv_waiting :: "task_ref list"

record 'tab sync_kernel = "'tab kernel" +
  k_mutexes :: "mutex list"
  k_semaphores :: "semaphore list"
  k_condvars :: "condvar list"

definition new_mutex :: "bool \<Rightarrow> mutex" where
  "new_mutex blocking =
     (if blocking then MutexBlocking \<lparr>mb_locked = None, mb_next = None, mb_waiting = []\<rparr>
      else MutexSpin \<lparr>ms_locked = None\<rparr>)"

definition new_semaphore :: "bool \<Rightarrow> usize \<Rightarrow> semaphore" where
  "new_semaphore blocking cnt =
     (if blocking then SemaphoreBlocking \<lparr>sb_count = cnt, sb_waiting = []\<rparr>
      else SemaphoreSpin \<lparr>ss_count = cnt\<rparr>)"

definition new_condvar :: condvar where
  "new_condvar = \<lparr>cv_waiting = []\<rparr>"

section \<open>References to tasks\<close>

definition upgrade :: "('tab, 'z) kernel_scheme \<Rightarrow> task_ref option \<Rightarrow> task_ref option" where
  "upgrade s w = (case w of Some t \<Rightarrow> if k_tasks s t = None then None else Some t | None \<Rightarrow> None)"

text \<open>\<open>while let Some(other) = waiting.pop_front() { if let Some(other) = other.upgrade() { ..; break } }\<close>\<close>

fun pop_waiting :: "('tab, 'z) kernel_scheme \<Rightarrow> task_ref list \<Rightarrow> task_ref option \<times> task_ref list" where
  "pop_waiting s [] = (None, [])"
| "pop_waiting s (t # ts) = (if k_tasks s t = None then pop_waiting s ts else (Some t, ts))"

text \<open>\<open>other.mark_suspended(); TASK_SCHEDULER.put_read_task(other)\<close>\<close>

definition make_ready :: "task_ref \<Rightarrow> (('tab, 'z) kernel_scheme, unit) kop" where
  "make_ready t = kbind (on_task t mark_suspended) (\<lambda>_ s. (Ok (), put_read_task t s))"

section \<open>Mutexes\<close>

definition set_mutex :: "sync_ref \<Rightarrow> mutex \<Rightarrow> ('tab, 'z) sync_kernel_scheme \<Rightarrow> ('tab, 'z) sync_kernel_scheme" where
  "set_mutex r m s = s\<lparr>k_mutexes := (k_mutexes s)[r := m]\<rparr>"

definition spin_lock_round :: "sync_ref \<Rightarrow> mutex_spin \<Rightarrow> (('tab, 'z) sync_kernel_scheme, bool) kop" where
  "spin_lock_round r m =
     kbind current_task (\<lambda>cur s.
       case upgrade s (ms_locked m) of
         Some prev \<Rightarrow>
           if prev = cur then (Err DoubleLockMutex, s)
           else kbind suspend_current_and_run_other_task (\<lambda>_. kret False) s
       | None \<Rightarrow> (Ok True, set_mutex r (MutexSpin (m\<lparr>ms_locked := Some cur\<rparr>)) s))"

definition spin_unlock :: "sync_ref \<Rightarrow> mutex_spin \<Rightarrow> (('tab, 'z) sync_kernel_scheme, unit) kop" where
  "spin_unlock r m =
     kbind current_task (\<lambda>cur s.
       case upgrade s (ms_locked m) of
         Some prev \<Rightarrow>
           if prev \<noteq> cur then (Err DoubleUnlockMutex, s)
           else (Ok (), set_mutex r (MutexSpin (m\<lparr>ms_locked := None\<rparr>)) s)
       | None \<Rightarrow> (Ok (), set_mutex r (MutexSpin (m\<lparr>ms_locked := None\<rparr>)) s))"

definition blocking_lock_round :: "sync_ref \<Rightarrow> mutex_blocking \<Rightarrow> (('tab, 'z) sync_kernel_scheme, bool) kop" where
  "blocking_lock_round r m =
     kbind current_task (\<lambda>cur s.
       case upgrade s (mb_locked m) of
         Some prev \<Rightarrow>
           if prev = cur then (Err DoubleLockMutex, s)
           else if upgrade s (mb_next m) = Some cur
             then kbind suspend_current_and_run_other_task (\<lambda>_. kret False) s
           else
             kbind block_current (\<lambda>_. kret False)
               (set_mutex r (MutexBlocking (m\<lparr>mb_waiting := mb_waiting m @ [cur]\<rparr>)) s)
       | None \<Rightarrow>
           (Ok True, set_mutex r (MutexBlocking (m\<lparr>mb_next := None, mb_locked := Some cur\<rparr>)) s))"

definition blocking_unlock :: "sync_ref \<Rightarrow> mutex_blocking \<Rightarrow> (('tab, 'z) sync_kernel_scheme, unit) kop" where
  "blocking_unlock r m =
     kbind current_task (\<lambda>cur s.
       if (case upgrade s (mb_locked m) of Some prev \<Rightarrow> prev \<noteq> cur | None \<Rightarrow> False)
       then (Err DoubleUnlockMutex, s)
       else if upgrade s (mb_next m) = None then
         (case pop_waiting s (mb_waiting m) of
            (Some other, ws) \<Rightarrow>
              kbind (make_ready other) (\<lambda>_ s.
                (Ok (), set_mutex r (MutexBlocking \<lparr>mb_locked = None, mb_next = Some other, mb_waiting = ws\<rparr>) s)) s
          | (None, ws) \<Rightarrow>
              (Ok (), set_mutex r (MutexBlocking (m\<lparr>mb_locked := None, mb_waiting := ws\<rparr>)) s))
       else (Ok (), set_mutex r (MutexBlocking (m\<lparr>mb_locked := None\<rparr>)) s))"

text \<open>The two methods of the trait \<open>Mutex\<close>; an \<open>Arc\<close> to a mutex always has its object.\<close>

definition mutex_lock_round :: "sync_ref \<Rightarrow> (('tab, 'z) sync_kernel_scheme, bool) kop" where
  "mutex_lock_round r s =
     (if r < length (k_mutexes s) then
        (case k_mutexes s ! r of
           MutexSpin m \<Rightarrow> spin_lock_round r m s | MutexBlocking m \<Rightarrow> blocking_lock_round r m s)
      else (Panic, s))"

definition mutex_unlock :: "sync_ref \<Rightarrow> (('tab, 'z) sync_kernel_scheme, unit) kop" where
  "mutex_unlock r s =
     (if r < length (k_mutexes s) then
        (case k_mutexes s ! r of
           MutexSpin m \<Rightarrow> spin_unlock r m s | MutexBlocking m \<Rightarrow> blocking_unlock r m s)
      else (Panic, s))"

section \<open>Semaphores\<close>

definition set_semaphore :: "sync_ref \<Rightarrow> semaphore \<Rightarrow> ('tab, 'z) sync_kernel_scheme \<Rightarrow> ('tab, 'z) sync_kernel_scheme" where
  "set_semaphore q m s = s\<lparr>k_semaphores := (k_semaphores s)[q := m]\<rparr>"

definition semaphore_spin_down_round :: "sync_ref \<Rightarrow> semaphore_spin \<Rightarrow> (('tab, 'z) sync_kernel_scheme, bool) kop" where
  "semaphore_spin_down_round q m s =
     (if sint (ss_count m) \<le> 0 then kbind suspend_current_and_run_other_task (\<lambda>_. kret False) s
      else (Ok True, set_semaphore q (SemaphoreSpin (m\<lparr>ss_count := ss_count m - 1\<rparr>)) s))"

definition semaphore_spin_up :: "sync_ref \<Rightarrow> semaphore_spin \<Rightarrow> (('tab, 'z) sync_kernel_scheme, usize) kop" where
  "semaphore_spin_up q m s =
     (Ok (ss_count m + 1), set_semaphore q (SemaphoreSpin (m\<lparr>ss_count := ss_count m + 1\<rparr>)) s)"

definition semaphore_blocking_up :: "sync_ref \<Rightarrow> semaphore_blocking \<Rightarrow> (('tab, 'z) sync_kernel_scheme, usize) kop" where
  "semaphore_blocking_up q m s =
     (let cnt = sb_count m + 1 in
      if sint cnt \<le> 0 then
        (case pop_waiting s (sb_waiting m) of
           (Some other, ws) \<Rightarrow>
             kbind (make_ready other) (\<lambda>_. kret cnt)
               (set_semaphore q (SemaphoreBlocking \<lparr>sb_count = cnt, sb_waiting = ws\<rparr>) s)
         | (None, ws) \<Rightarrow>
             (Ok cnt, set_semaphore q (SemaphoreBlocking \<lparr>sb_count = cnt, sb_waiting = ws\<rparr>) s))
      else (Ok cnt, set_semaphore q (SemaphoreBlocking (m\<lparr>sb_count := cnt\<rparr>)) s))"

text \<open>A blocked \<open>down\<close> returns when the task runs again.\<close>

definition semaphore_blocking_down :: "sync_ref \<Rightarrow> semaphore_blocking \<Rightarrow> (('tab, 'z) sync_kernel_scheme, bool) kop" where
  "semaphore_blocking_down q m s =
     (let cnt = sb_count m - 1;
          s1 = set_semaphore q (SemaphoreBlocking (m\<lparr>sb_count := cnt\<rparr>)) s in
      if sint cnt < 0 then
        kbind current_task (\<lambda>cur s.
          kbind block_current (\<lambda>_. kret False)
            (set_semaphore q (SemaphoreBlocking \<lparr>sb_count = cnt, sb_waiting = sb_waiting m @ [cur]\<rparr>) s)) s1
      else (Ok True, s1))"

definition semaphore_up :: "sync_ref \<Rightarrow> (('tab, 'z) sync_kernel_scheme, usize) kop" where
  "semaphore_up q s =
     (if q < length (k_semaphores s) then
        (case k_semaphores s ! q of
           SemaphoreSpin m \<Rightarrow> semaphore_spin_up q m s
         | SemaphoreBlocking m \<Rightarrow> semaphore_blocking_up q m s)
      else (Panic, s))"

definition semaphore_down_round :: "sync_ref \<Rightarrow> (('tab, 'z) sync_kernel_scheme, bool) kop" where
  "semaphore_down_round q s =
     (if q < length (k_semaphores s) then
        (case k_semaphores s ! q of
           SemaphoreSpin m \<Rightarrow> semaphore_spin_down_round q m s
         | SemaphoreBlocking m \<Rightarrow> semaphore_blocking_down q m s)
      else (Panic, s))"

section \<open>Condition variables\<close>

definition set_condvar :: "sync_ref \<Rightarrow> condvar \<Rightarrow> ('tab, 'z) sync_kernel_scheme \<Rightarrow> ('tab, 'z) sync_kernel_scheme" where
  "set_condvar c v s = s\<lparr>k_condvars := (k_condvars s)[c := v]\<rparr>"

definition condvar_signal :: "sync_ref \<Rightarrow> (('tab, 'z) sync_kernel_scheme, unit) kop" where
  "condvar_signal c s =
     (if c < length (k_condvars s) then
        (case pop_waiting s (cv_waiting (k_condvars s ! c)) of
           (Some other, ws) \<Rightarrow> make_ready other (set_condvar c \<lparr>cv_waiting = ws\<rparr> s)
         | (None, ws) \<Rightarrow> (Ok (), set_condvar c \<lparr>cv_waiting = ws\<rparr> s))
      else (Panic, s))"

text \<open>\<open>wait\<close> up to the block; when the task runs again it goes on with \<open>mutex.lock()\<close>.\<close>

definition condvar_wait :: "sync_ref \<Rightarrow> sync_ref \<Rightarrow> (('tab, 'z) sync_kernel_scheme, unit) kop" where
  "condvar_wait c r =
     kbind (mutex_unlock r) (\<lambda>_.
     kbind current_task (\<lambda>cur s.
       if c < length (k_condvars s) then
         block_current (set_condvar c \<lparr>cv_waiting = cv_waiting (k_condvars s ! c) @ [cur]\<rparr> s)
       else (Panic, s)))"

section \<open>System calls\<close>

text \<open>\<open>PROCESSOR.current_task()?.process()\<close>, which unwraps the weak reference to the process.\<close>

definition current_process :: "(('tab, 'z) kernel_scheme, proc_ref) kop" where
  "current_process =
     kbind current_task (\<lambda>t s.
       case k_tasks s t of
         Some tb \<Rightarrow>
           (case k_procs s (tb_process tb) of
              Some _ \<Rightarrow> (Ok (tb_process tb), s) | None \<Rightarrow> (Panic, s))
       | None \<Rightarrow> (Panic, s))"

text \<open>The object is created before the table is searched.\<close>

definition sys_create_mutex :: "bool \<Rightarrow> (('tab, 'z) sync_kernel_scheme, usize) kop" where
  "sys_create_mutex blocking =
     kbind current_process (\<lambda>p s.
       on_process p (\<lambda>pb.
           case alloc_mutex (length (k_mutexes s)) (pb_mutex_table pb) of
             (x, tab) \<Rightarrow> (x, pb\<lparr>pb_mutex_table := tab\<rparr>))
         (s\<lparr>k_mutexes := k_mutexes s @ [new_mutex blocking]\<rparr>))"

definition sys_release_mutex :: "usize \<Rightarrow> (('tab, 'z) sync_kernel_scheme, usize) kop" where
  "sys_release_mutex i =
     kbind current_process (\<lambda>p.
     kbind (on_process p (\<lambda>pb.
              case dealloc_mutex i (pb_mutex_table pb) of (x, tab) \<Rightarrow> (x, pb\<lparr>pb_mutex_table := tab\<rparr>))) (\<lambda>_.
     kret 0))"

text \<open>\<open>inner.get_mutex(id).ok_or(..)?\<close> of the current process, and its two companions.\<close>

definition lookup_mutex :: "usize \<Rightarrow> (('tab, 'z) kernel_scheme, sync_ref) kop" where
  "lookup_mutex i =
     kbind current_process (\<lambda>p. on_process p (\<lambda>pb.
       case get_mutex (pb_mutex_table pb) i of
         Some r \<Rightarrow> (Ok r, pb) | None \<Rightarrow> (Err (MutexDoesNotExist i), pb)))"

definition lookup_semaphore :: "usize \<Rightarrow> (('tab, 'z) kernel_scheme, sync_ref) kop" where
  "lookup_semaphore i =
     kbind current_process (\<lambda>p. on_process p (\<lambda>pb.
       case get_semaphore (pb_semaphore_table pb) i of
         Some r \<Rightarrow> (Ok r, pb) | None \<Rightarrow> (Err (SemaphoreDoesNotExist i), pb)))"

definition lookup_condvar :: "usize \<Rightarrow> (('tab, 'z) kernel_scheme, sync_ref) kop" where
  "lookup_condvar i =
     kbind current_process (\<lambda>p. on_process p (\<lambda>pb.
       case get_condvar (pb_condvar_table pb) i of
         Some r \<Rightarrow> (Ok r, pb) | None \<Rightarrow> (Err (CondvarDoesNotExist i), pb)))"

text \<open>
  The calls that can wait are given up to the end of their first round; the rounds that follow
  are \<open>mutex_lock_round\<close> and \<open>semaphore_down_round\<close> on the object that was looked up.
\<close>

definition sys_lock_mutex :: "usize \<Rightarrow> (('tab, 'z) sync_kernel_scheme, bool) kop" where
  "sys_lock_mutex i = kbind (lookup_mutex i) mutex_lock_round"

definition sys_unlock_mutex :: "usize \<Rightarrow> (('tab, 'z) sync_kernel_scheme, usize) kop" where
  "sys_unlock_mutex i = kbind (lookup_mutex i) (\<lambda>r. kbind (mutex_unlock r) (\<lambda>_. kret 0))"

definition sys_create_semaphore :: "bool \<Rightarrow> usize \<Rightarrow> (('tab, 'z) sync_kernel_scheme, usize) kop" where
  "sys_create_semaphore blocking cnt =
     kbind current_process (\<lambda>p s.
       on_process p (\<lambda>pb.
           case alloc_semaphore (length (k_semaphores s)) (pb_semaphore_table pb) of
             (x, tab) \<Rightarrow> (x, pb\<lparr>pb_semaphore_table := tab\<rparr>))
         (s\<lparr>k_semaphores := k_semaphores s @ [new_semaphore blocking cnt]\<rparr>))"

definition sys_release_semaphore :: "usize \<Rightarrow> (('tab, 'z) sync_kernel_scheme, usize) kop" where
  "sys_release_semaphore i =
     kbind current_process (\<lambda>p.
     kbind (on_process p (\<lambda>pb.
              case dealloc_semaphore i (pb_semaphore_table pb) of
                (x, tab) \<Rightarrow> (x, pb\<lparr>pb_semaphore_table := tab\<rparr>))) (\<lambda>_.
     kret 0))"

definition sys_up_semaphore :: "usize \<Rightarrow> (('tab, 'z) sync_kernel_scheme, usize) kop" where
  "sys_up_semaphore i = kbind (lookup_semaphore i) (\<lambda>q. kbind (semaphore_up q) (\<lambda>_. kret 0))"

definition sys_down_semaphore :: "usize \<Rightarrow> (('tab, 'z) sync_kernel_scheme, bool) kop" where
  "sys_down_semaphore i = kbind (lookup_semaphore i) semaphore_down_round"

definition sys_create_condvar :: "(('tab, 'z) sync_kernel_scheme, usize) kop" where
  "sys_create_condvar =
     kbind current_process (\<lambda>p s.
       on_process p (\<lambda>pb.
           case alloc_condvar (length (k_condvars s)) (pb_condvar_table pb) of
             (x, tab) \<Rightarrow> (x, pb\<lparr>pb_condvar_table := tab\<rparr>))
         (s\<lparr>k_condvars := k_condvars s @ [new_condvar]\<rparr>))"

definition sys_release_condvar :: "usize \<Rightarrow> (('tab, 'z) sync_kernel_scheme, usize) kop" where
  "sys_release_condvar i =
     kbind current_process (\<lambda>p.
     kbind (on_process p (\<lambda>pb.
              case dealloc_condvar i (pb_condvar_table pb) of
                (x, tab) \<Rightarrow> (x, pb\<lparr>pb_condvar_table := tab\<rparr>))) (\<lambda>_.
     kret 0))"

definition sys_signal_condvar :: "usize \<Rightarrow> (('tab, 'z) sync_kernel_scheme, usize) kop" where
  "sys_signal_condvar i = kbind (lookup_condvar i) (\<lambda>c. kbind (condvar_signal c) (\<lambda>_. kret 0))"

definition sys_wait_condvar :: "usize \<Rightarrow> usize \<Rightarrow> (('tab, 'z) sync_kernel_scheme, unit) kop" where
  "sys_wait_condvar i mutex_id =
     kbind (lookup_mutex mutex_id) (\<lambda>r. kbind (lookup_condvar i) (\<lambda>c. condvar_wait c r))"

end
