(* ===== verification/Sync_System.thy ===== *)
theory Sync_System
  imports Sync
begin

text \<open>
  Tasks that lock, unlock, wait and signal, in every interleaving the scheduler allows.

  A configuration is a kernel with the position of each task inside a call (\<open>pc\<close>) and, for
  each mutex, the tasks whose \<open>lock\<close> has returned and whose \<open>unlock\<close> has not. A step picks
  the next task when none is current, starts a call of the current task, or goes on with the call
  it is in. Every round runs to the point where it returns or gives up the processor. No task ends
  in this system.

  The invariant has four parts: every task is in exactly one place (current, ready, asleep or
  waiting for one object); a mutex is owned by the task in its field \<open>locked\<close> alone; a task waiting
  for a mutex has not been forgotten (somebody owns the mutex or the task named by \<open>next\<close> can
  run); the count of a blocking semaphore below zero is the number of its waiting tasks.
\<close>

section \<open>Calls and steps\<close>

datatype pc = Idle | Locking sync_ref | Downing sync_ref

datatype sync_call =
    Lock sync_ref | Unlock sync_ref | Down sync_ref | Up sync_ref
  | Signal sync_ref | Wait sync_ref sync_ref | Yield | Sleep usize usize

text \<open>The first round of a call; the result is the position of the task afterwards.\<close>

fun call_run :: "sync_call \<Rightarrow> ('tab sync_kernel, pc) kop" where
  "call_run (Lock r) = kbind (mutex_lock_round r) (\<lambda>done. kret (if done then Idle else Locking r))"
| "call_run (Unlock r) = kbind (mutex_unlock r) (\<lambda>_. kret Idle)"
| "call_run (Down q) = kbind (semaphore_down_round q) (\<lambda>done. kret (if done then Idle else Downing q))"
| "call_run (Up q) = kbind (semaphore_up q) (\<lambda>_. kret Idle)"
| "call_run (Signal c) = kbind (condvar_signal c) (\<lambda>_. kret Idle)"
| "call_run (Wait c r) = kbind (condvar_wait c r) (\<lambda>_. kret (Locking r))"
| "call_run Yield = kbind suspend_current_and_run_other_task (\<lambda>_. kret Idle)"
| "call_run (Sleep now us) = kbind (sleep_current_and_run_other_task now us) (\<lambda>_. kret Idle)"

text \<open>What a task does when it runs again: a blocked \<open>down\<close> returns, the loops go round.\<close>

fun resume_run :: "pc \<Rightarrow> ('tab sync_kernel, pc) kop" where
  "resume_run Idle = kret Idle"
| "resume_run (Locking r) = call_run (Lock r)"
| "resume_run (Downing q) = (\<lambda>s.
     if q < length (k_semaphores s) then
       (case k_semaphores s ! q of
          SemaphoreBlocking _ \<Rightarrow> (Ok Idle, s) | SemaphoreSpin _ \<Rightarrow> call_run (Down q) s)
     else (Panic, s))"

type_synonym owners = "sync_ref \<Rightarrow> task_ref set"

definition acquired :: "sync_ref \<Rightarrow> pc \<Rightarrow> task_ref \<Rightarrow> owners \<Rightarrow> owners" where
  "acquired r d t own = (if d = Idle then own(r := insert t (own r)) else own)"

fun own_after :: "sync_call \<Rightarrow> pc \<Rightarrow> task_ref \<Rightarrow> owners \<Rightarrow> owners" where
  "own_after (Lock r) d t own = acquired r d t own"
| "own_after (Unlock r) d t own = own(r := own r - {t})"
| "own_after (Wait c r) d t own = own(r := own r - {t})"
| "own_after _ d t own = own"

fun own_resumed :: "pc \<Rightarrow> pc \<Rightarrow> task_ref \<Rightarrow> owners \<Rightarrow> owners" where
  "own_resumed (Locking r) d t own = acquired r d t own"
| "own_resumed _ d t own = own"

type_synonym 'tab config = "'tab sync_kernel \<times> (task_ref \<Rightarrow> pc) \<times> owners"

inductive sync_step :: "crates \<Rightarrow> 'tab config \<Rightarrow> 'tab config \<Rightarrow> bool" for K where
  dispatch: "k_current s = None \<Longrightarrow> schedule K clock s = (Ok t, s') \<Longrightarrow>
    sync_step K (s, pc, own) (s', pc, own)"
| call: "k_current s = Some t \<Longrightarrow> pc t = Idle \<Longrightarrow> call_run c s = (Ok d, s') \<Longrightarrow>
    sync_step K (s, pc, own) (s', pc(t := d), own_after c d t own)"
| refused: "k_current s = Some t \<Longrightarrow> pc t = Idle \<Longrightarrow> call_run c s = (Err e, s') \<Longrightarrow>
    sync_step K (s, pc, own) (s', pc, own)"
| resume: "k_current s = Some t \<Longrightarrow> pc t \<noteq> Idle \<Longrightarrow> resume_run (pc t) s = (Ok d, s') \<Longrightarrow>
    sync_step K (s, pc, own) (s', pc(t := d), own_resumed (pc t) d t own)"

section \<open>Places\<close>

fun mutex_waiting :: "mutex \<Rightarrow> task_ref list" where
  "mutex_waiting (MutexSpin m) = []"
| "mutex_waiting (MutexBlocking m) = mb_waiting m"

fun mutex_holder :: "mutex \<Rightarrow> task_ref option" where
  "mutex_holder (MutexSpin m) = ms_locked m"
| "mutex_holder (MutexBlocking m) = mb_locked m"

fun semaphore_waiting :: "semaphore \<Rightarrow> task_ref list" where
  "semaphore_waiting (SemaphoreSpin m) = []"
| "semaphore_waiting (SemaphoreBlocking m) = sb_waiting m"

definition gathered :: "('o \<Rightarrow> task_ref list) \<Rightarrow> 'o list \<Rightarrow> task_ref multiset" where
  "gathered f os = mset (concat (map f os))"

definition places :: "'tab sync_kernel \<Rightarrow> task_ref multiset" where
  "places s =
     mset (case k_current s of Some t \<Rightarrow> [t] | None \<Rightarrow> []) + mset (k_ready s) +
     mset (map tm_task (k_timer s)) + gathered mutex_waiting (k_mutexes s) +
     gathered semaphore_waiting (k_semaphores s) + gathered cv_waiting (k_condvars s)"

lemma gathered_update:
  assumes "i < length os"
  shows "gathered f (os[i := x]) + mset (f (os ! i)) = gathered f os + mset (f x)"
  using assms
proof (induction os arbitrary: i)
  case (Cons y ys)
  show ?case
  proof (cases i)
    case 0
    then show ?thesis by (simp add: gathered_def)
  next
    case (Suc j)
    then have "gathered f (ys[j := x]) + mset (f (ys ! j)) = gathered f ys + mset (f x)"
      using Cons by simp
    then show ?thesis using Suc by (simp add: gathered_def)
  qed
qed simp

lemma gathered_same: "i < length os \<Longrightarrow> f x = f (os ! i) \<Longrightarrow> gathered f (os[i := x]) = gathered f os"
  using gathered_update [of i os f x] by simp

lemma gathered_push:
  "i < length os \<Longrightarrow> f x = f (os ! i) @ [t] \<Longrightarrow> gathered f (os[i := x]) = add_mset t (gathered f os)"
  using gathered_update [of i os f x] by (simp add: union_iff)

lemma gathered_pop:
  "i < length os \<Longrightarrow> f (os ! i) = t # f x \<Longrightarrow> add_mset t (gathered f (os[i := x])) = gathered f os"
  using gathered_update [of i os f x] by simp

lemma gathered_member: "i < length os \<Longrightarrow> t \<in> set (f (os ! i)) \<Longrightarrow> t \<in># gathered f os"
  by (auto simp: gathered_def)

text \<open>A task in one place is in no other.\<close>

definition once :: "'tab sync_kernel \<Rightarrow> bool" where
  "once s \<longleftrightarrow> (\<forall>t. count (places s) t \<le> 1)"

lemma once_current:
  assumes "once s" and "k_current s = Some t"
  shows "t \<notin> set (k_ready s)" and "i < length (k_mutexes s) \<Longrightarrow> t \<notin> set (mutex_waiting (k_mutexes s ! i))"
proof -
  have c: "count (places s) t \<le> 1" using assms(1) by (simp add: once_def)
  show "t \<notin> set (k_ready s)"
    using c assms(2) by (auto simp: places_def dest: count_greater_zero_iff [THEN iffD2] simp flip: count_mset_0_iff)
  show "t \<notin> set (mutex_waiting (k_mutexes s ! i))" if "i < length (k_mutexes s)"
  proof
    assume "t \<in> set (mutex_waiting (k_mutexes s ! i))"
    then have "t \<in># gathered mutex_waiting (k_mutexes s)"
      using gathered_member [OF that, of t mutex_waiting] by simp
    then show False using c assms(2) by (auto simp: places_def count_eq_zero_iff)
  qed
qed

section \<open>What the rounds do to the state\<close>

definition set_status :: "task_ref \<Rightarrow> task_status \<Rightarrow> ('tab, 'z) kernel_scheme \<Rightarrow> ('tab, 'z) kernel_scheme" where
  "set_status t x s = s\<lparr>k_tasks := (k_tasks s)(t := map_option (\<lambda>tb. tb\<lparr>tb_status := x\<rparr>) (k_tasks s t))\<rparr>"

named_theorems fields \<open>the fields of an updated kernel\<close>

lemma fields_set_status [fields]:
  "k_processor (set_status t x s) = k_processor s" "k_scheduler (set_status t x s) = k_scheduler s"
  by (simp_all add: set_status_def)

lemma fields_set_status_sync [fields]:
  fixes s :: "'tab sync_kernel"
  shows "k_mutexes (set_status t x s) = k_mutexes s" "k_semaphores (set_status t x s) = k_semaphores s"
    "k_condvars (set_status t x s) = k_condvars s"
  by (simp_all add: set_status_def)

lemma fields_queue [fields]:
  "k_processor (put_read_task t s) = k_processor s" "k_ready (put_read_task t s) = k_ready s @ [t]"
  "k_timer (put_read_task t s) = k_timer s" "k_tasks (put_read_task t s) = k_tasks s"
  "k_ready (put_sleep_task now us t s) = k_ready s" "k_processor (put_sleep_task now us t s) = k_processor s"
  "k_timer (put_sleep_task now us t s) = k_timer s @ [\<lparr>tm_expire_us = get_timer_us now + us, tm_task = t\<rparr>]"
  "k_tasks (put_sleep_task now us t s) = k_tasks s"
  "k_current (set_current c s) = c" "k_scheduler (set_current c s) = k_scheduler s"
  "k_tasks (set_current c s) = k_tasks s"
  by (simp_all add: put_read_task_def put_as_ready_def put_sleep_task_def put_as_timer_def set_current_def)

lemma fields_queue_sync [fields]:
  fixes s :: "'tab sync_kernel"
  shows "k_mutexes (put_read_task t s) = k_mutexes s" "k_semaphores (put_read_task t s) = k_semaphores s"
    "k_condvars (put_read_task t s) = k_condvars s" "k_mutexes (put_sleep_task now us t s) = k_mutexes s"
    "k_semaphores (put_sleep_task now us t s) = k_semaphores s" "k_condvars (put_sleep_task now us t s) = k_condvars s"
    "k_mutexes (set_current c s) = k_mutexes s" "k_semaphores (set_current c s) = k_semaphores s"
    "k_condvars (set_current c s) = k_condvars s"
  by (simp_all add: put_read_task_def put_sleep_task_def set_current_def)

lemma fields_objects [fields]:
  "k_mutexes (set_mutex r m s) = (k_mutexes s)[r := m]" "k_semaphores (set_mutex r m s) = k_semaphores s"
  "k_condvars (set_mutex r m s) = k_condvars s" "k_processor (set_mutex r m s) = k_processor s"
  "k_scheduler (set_mutex r m s) = k_scheduler s" "k_tasks (set_mutex r m s) = k_tasks s"
  "k_mutexes (set_semaphore q v s) = k_mutexes s" "k_semaphores (set_semaphore q v s) = (k_semaphores s)[q := v]"
  "k_condvars (set_semaphore q v s) = k_condvars s" "k_processor (set_semaphore q v s) = k_processor s"
  "k_scheduler (set_semaphore q v s) = k_scheduler s" "k_tasks (set_semaphore q v s) = k_tasks s"
  "k_mutexes (set_condvar c w s) = k_mutexes s" "k_semaphores (set_condvar c w s) = k_semaphores s"
  "k_condvars (set_condvar c w s) = (k_condvars s)[c := w]" "k_processor (set_condvar c w s) = k_processor s"
  "k_scheduler (set_condvar c w s) = k_scheduler s" "k_tasks (set_condvar c w s) = k_tasks s"
  by (simp_all add: set_mutex_def set_semaphore_def set_condvar_def)

lemma alive_set_status:
  assumes "task_alive s t" and "x \<noteq> Zombie"
  shows "task_alive (set_status t x s) u = task_alive s u"
  using assms by (auto simp: task_alive_def set_status_def task_is_zombie_def)

lemma alive_fields [fields]:
  "task_alive (put_read_task t s) u = task_alive s u" "task_alive (set_current c s) u = task_alive s u"
  "task_alive (put_sleep_task now us t s) u = task_alive s u"
  by (simp_all add: task_alive_def fields)

lemma alive_fields_sync [fields]:
  "task_alive (set_mutex r m k) u = task_alive k u" "task_alive (set_semaphore q v k) u = task_alive k u"
  "task_alive (set_condvar cv w k) u = task_alive k u"
  by (simp_all add: task_alive_def fields)

lemma on_task_status:
  assumes "task_alive s t"
  shows "on_task t mark_suspended s = (Ok (), set_status t Ready s)"
    and "on_task t mark_blocked s = (Ok (), set_status t Blocked s)"
  using assms by (auto simp: task_alive_def on_task_def mark_suspended_def mark_blocked_def set_status_def)

lemma make_ready_form: "task_alive s t \<Longrightarrow> make_ready t s = (Ok (), put_read_task t (set_status t Ready s))"
  by (simp add: make_ready_def kbind_def on_task_status)

lemma suspend_form:
  "k_current s = Some t \<Longrightarrow> task_alive s t \<Longrightarrow>
   suspend_current_and_run_other_task s = (Ok (), put_read_task t (set_status t Ready (set_current None s)))"
  by (simp add: suspend_current_and_run_other_task_def kbind_def on_task_status fields)

lemma block_form:
  "k_current s = Some t \<Longrightarrow> task_alive s t \<Longrightarrow> block_current s = (Ok (), set_status t Blocked (set_current None s))"
  by (simp add: block_current_def block_current_and_run_other_task_def kbind_def on_task_status fields)

lemma sleep_form:
  "k_current s = Some t \<Longrightarrow> task_alive s t \<Longrightarrow> sleep_current_and_run_other_task now us s =
     (Ok (), put_sleep_task now us t (set_status t Blocked (set_current None s)))"
  by (simp add: sleep_current_and_run_other_task_def block_current_and_run_other_task_def kbind_def
      on_task_status fields)

lemma upgrade_alive: "(\<forall>t. w = Some t \<longrightarrow> task_alive s t) \<Longrightarrow> upgrade s w = w"
  by (auto simp: upgrade_def task_alive_def split: option.splits)

lemma pop_waiting_alive:
  "\<forall>t \<in> set ws. task_alive s t \<Longrightarrow> pop_waiting s ws = (case ws of [] \<Rightarrow> (None, []) | u # us \<Rightarrow> (Some u, us))"
  by (cases ws) (auto simp: task_alive_def)

lemma current_task_form: "k_current s = Some t \<Longrightarrow> current_task s = (Ok t, s)"
  by (simp add: current_task_def)

section \<open>The contract of a mutex\<close>

text \<open>
  \<open>holder\<close> is the field \<open>locked\<close>. Both kinds of mutex honour the contract, and from it follows
  that a call of \<open>lock\<close> returns only to a task that finds no living holder, and that only the
  holder can unlock.
\<close>

locale mutex_trait =
  fixes lock_round :: "sync_ref \<Rightarrow> 'm \<Rightarrow> ('tab sync_kernel, bool) kop"
    and unlock :: "sync_ref \<Rightarrow> 'm \<Rightarrow> ('tab sync_kernel, unit) kop"
    and embed :: "'m \<Rightarrow> mutex"
    and holder :: "'m \<Rightarrow> task_ref option"
  assumes lock_free: "k_current s = Some t \<Longrightarrow> upgrade s (holder m) = None \<Longrightarrow>
      \<exists>m'. lock_round r m s = (Ok True, set_mutex r (embed m') s) \<and> holder m' = Some t"
    and lock_own: "k_current s = Some t \<Longrightarrow> upgrade s (holder m) = Some t \<Longrightarrow>
      lock_round r m s = (Err DoubleLockMutex, s)"
    and lock_taken: "k_current s = Some t \<Longrightarrow> upgrade s (holder m) = Some u \<Longrightarrow> u \<noteq> t \<Longrightarrow>
      lock_round r m s = (x, s') \<Longrightarrow>
      x \<noteq> Ok True \<and> (k_mutexes s' = k_mutexes s \<or> (\<exists>m'. k_mutexes s' = (k_mutexes s)[r := embed m'] \<and> holder m' = holder m))"
    and unlock_taken: "k_current s = Some t \<Longrightarrow> upgrade s (holder m) = Some u \<Longrightarrow> u \<noteq> t \<Longrightarrow>
      unlock r m s = (Err DoubleUnlockMutex, s)"
    and unlock_own: "k_current s = Some t \<Longrightarrow> upgrade s (holder m) \<in> {None, Some t} \<Longrightarrow>
      unlock r m s = (Ok (), s') \<Longrightarrow>
      \<exists>m'. k_mutexes s' = (k_mutexes s)[r := embed m'] \<and> holder m' = None"
    and no_task: "k_current s = None \<Longrightarrow> lock_round r m s = (Err ProcessHaveNotTask, s) \<and>
      unlock r m s = (Err ProcessHaveNotTask, s)"
begin

lemma lock_returns:
  assumes "lock_round r m s = (Ok True, s')"
  shows "\<exists>t m'. k_current s = Some t \<and> upgrade s (holder m) = None \<and>
           k_mutexes s' = (k_mutexes s)[r := embed m'] \<and> holder m' = Some t"
proof -
  obtain t where t: "k_current s = Some t"
    using assms no_task [of s r m] by (cases "k_current s") auto
  show ?thesis
  proof (cases "upgrade s (holder m)")
    case None
    then show ?thesis using lock_free [OF t None, of r] assms t by (auto simp: fields)
  next
    case (Some u)
    then show ?thesis using lock_own [OF t, of m r] lock_taken [OF t Some _ assms] assms by (cases "u = t") auto
  qed
qed

lemma unlock_returns:
  assumes "unlock r m s = (Ok (), s')"
  shows "\<exists>t m'. k_current s = Some t \<and> upgrade s (holder m) \<in> {None, Some t} \<and>
           k_mutexes s' = (k_mutexes s)[r := embed m'] \<and> holder m' = None"
proof -
  obtain t where t: "k_current s = Some t"
    using assms no_task [of s r m] by (cases "k_current s") auto
  have "upgrade s (holder m) \<in> {None, Some t}"
    using unlock_taken [OF t, of m _ r] assms by (cases "upgrade s (holder m)") auto
  with unlock_own [OF t this assms] t show ?thesis by blast
qed

end

lemma suspend_mutexes:
  fixes s :: "'tab sync_kernel"
  assumes "suspend_current_and_run_other_task s = (x, s')"
  shows "k_mutexes s' = k_mutexes s"
  using assms
  by (auto simp: suspend_current_and_run_other_task_def kbind_def on_task_def mark_suspended_def
      put_read_task_def set_current_def split: option.splits)

lemma block_mutexes:
  fixes s :: "'tab sync_kernel"
  assumes "block_current s = (x, s')"
  shows "k_mutexes s' = k_mutexes s"
  using assms
  by (auto simp: block_current_def block_current_and_run_other_task_def kbind_def on_task_def mark_blocked_def
      set_current_def split: option.splits)

lemma make_ready_mutexes:
  fixes s :: "'tab sync_kernel"
  assumes "make_ready t s = (x, s')"
  shows "k_mutexes s' = k_mutexes s"
  using assms
  by (auto simp: make_ready_def kbind_def on_task_def mark_suspended_def put_read_task_def split: option.splits)

interpretation spin: mutex_trait spin_lock_round spin_unlock MutexSpin ms_locked
proof
  fix s :: "'tab sync_kernel" and s' t u m r x
  show "\<exists>m'. spin_lock_round r m s = (Ok True, set_mutex r (MutexSpin m') s) \<and> ms_locked m' = Some t"
    if "k_current s = Some t" "upgrade s (ms_locked m) = None"
    using that by (intro exI [of _ "m\<lparr>ms_locked := Some t\<rparr>"])
      (simp add: spin_lock_round_def kbind_def current_task_form)
  show "spin_lock_round r m s = (Err DoubleLockMutex, s)"
    if "k_current s = Some t" "upgrade s (ms_locked m) = Some t"
    using that by (simp add: spin_lock_round_def kbind_def current_task_form)
  show "x \<noteq> Ok True \<and> (k_mutexes s' = k_mutexes s \<or>
      (\<exists>m'. k_mutexes s' = (k_mutexes s)[r := MutexSpin m'] \<and> ms_locked m' = ms_locked m))"
    if "k_current s = Some t" "upgrade s (ms_locked m) = Some u" "u \<noteq> t" "spin_lock_round r m s = (x, s')"
  proof -
    obtain y s1 where "suspend_current_and_run_other_task s = (y, s1)" by fastforce
    then show ?thesis
      using that suspend_mutexes [of s y s1]
      by (cases y) (auto simp: spin_lock_round_def kbind_def current_task_form)
  qed
  show "spin_unlock r m s = (Err DoubleUnlockMutex, s)"
    if "k_current s = Some t" "upgrade s (ms_locked m) = Some u" "u \<noteq> t"
    using that by (simp add: spin_unlock_def kbind_def current_task_form)
  show "\<exists>m'. k_mutexes s' = (k_mutexes s)[r := MutexSpin m'] \<and> ms_locked m' = None"
    if "k_current s = Some t" "upgrade s (ms_locked m) \<in> {None, Some t}" "spin_unlock r m s = (Ok (), s')"
    using that by (intro exI [of _ "m\<lparr>ms_locked := None\<rparr>"])
      (auto simp: spin_unlock_def kbind_def current_task_form fields)
  show "spin_lock_round r m s = (Err ProcessHaveNotTask, s) \<and> spin_unlock r m s = (Err ProcessHaveNotTask, s)"
    if "k_current s = None"
    using that by (simp add: spin_lock_round_def spin_unlock_def kbind_def current_task_def)
qed

interpretation blocking: mutex_trait blocking_lock_round blocking_unlock MutexBlocking mb_locked
proof
  fix s :: "'tab sync_kernel" and s' t u m r x
  show "\<exists>m'. blocking_lock_round r m s = (Ok True, set_mutex r (MutexBlocking m') s) \<and> mb_locked m' = Some t"
    if "k_current s = Some t" "upgrade s (mb_locked m) = None"
    using that by (intro exI [of _ "m\<lparr>mb_next := None, mb_locked := Some t\<rparr>"])
      (simp add: blocking_lock_round_def kbind_def current_task_form)
  show "blocking_lock_round r m s = (Err DoubleLockMutex, s)"
    if "k_current s = Some t" "upgrade s (mb_locked m) = Some t"
    using that by (simp add: blocking_lock_round_def kbind_def current_task_form)
  show "x \<noteq> Ok True \<and> (k_mutexes s' = k_mutexes s \<or>
      (\<exists>m'. k_mutexes s' = (k_mutexes s)[r := MutexBlocking m'] \<and> mb_locked m' = mb_locked m))"
    if c: "k_current s = Some t" "upgrade s (mb_locked m) = Some u" "u \<noteq> t" "blocking_lock_round r m s = (x, s')"
  proof (cases "upgrade s (mb_next m) = Some t")
    case True
    obtain y s1 where "suspend_current_and_run_other_task s = (y, s1)" by fastforce
    then show ?thesis
      using c True suspend_mutexes [of s y s1]
      by (cases y) (auto simp: blocking_lock_round_def kbind_def current_task_form)
  next
    case False
    let ?m = "m\<lparr>mb_waiting := mb_waiting m @ [t]\<rparr>"
    obtain y s1 where b: "block_current (set_mutex r (MutexBlocking ?m) s) = (y, s1)" by fastforce
    then have "x \<noteq> Ok True" "k_mutexes s' = (k_mutexes s)[r := MutexBlocking ?m]"
      using c False block_mutexes [OF b]
      by (cases y; auto simp: blocking_lock_round_def kbind_def current_task_form fields)+
    then show ?thesis by (intro conjI disjI2 exI [of _ ?m]) simp_all
  qed
  show "blocking_unlock r m s = (Err DoubleUnlockMutex, s)"
    if "k_current s = Some t" "upgrade s (mb_locked m) = Some u" "u \<noteq> t"
    using that by (simp add: blocking_unlock_def kbind_def current_task_form)
  show "\<exists>m'. k_mutexes s' = (k_mutexes s)[r := MutexBlocking m'] \<and> mb_locked m' = None"
    if c: "k_current s = Some t" "upgrade s (mb_locked m) \<in> {None, Some t}" "blocking_unlock r m s = (Ok (), s')"
  proof -
    have open': "\<not> (case upgrade s (mb_locked m) of Some prev \<Rightarrow> prev \<noteq> t | None \<Rightarrow> False)"
      using c(2) by auto
    show ?thesis
    proof (cases "upgrade s (mb_next m) = None")
      case False
      then show ?thesis
        using c(1,3) open' by (intro exI [of _ "m\<lparr>mb_locked := None\<rparr>"])
          (auto simp: blocking_unlock_def kbind_def current_task_form fields)
    next
      case True
      obtain o' ws where p: "pop_waiting s (mb_waiting m) = (o', ws)" by fastforce
      show ?thesis
      proof (cases o')
        case None
        then show ?thesis
          using c(1,3) open' True p by (intro exI [of _ "m\<lparr>mb_locked := None, mb_waiting := ws\<rparr>"])
            (auto simp: blocking_unlock_def kbind_def current_task_form fields)
      next
        case (Some other)
        obtain y s1 where b: "make_ready other s = (y, s1)" by fastforce
        then show ?thesis
          using c(1,3) open' True p Some make_ready_mutexes [OF b]
          by (intro exI [of _ "\<lparr>mb_locked = None, mb_next = Some other, mb_waiting = ws\<rparr>"])
            (cases y; auto simp: blocking_unlock_def kbind_def current_task_form fields)
      qed
    qed
  qed
  show "blocking_lock_round r m s = (Err ProcessHaveNotTask, s) \<and> blocking_unlock r m s = (Err ProcessHaveNotTask, s)"
    if "k_current s = None"
    using that by (simp add: blocking_lock_round_def blocking_unlock_def kbind_def current_task_def)
qed

end
