(* ===== verification/Sync_Properties.thy ===== *)
theory Sync_Properties
  imports Sync_System
begin

text \<open>
  The invariant of the system of \<open>Sync_System\<close>, its preservation by every step, and what it
  gives: mutual exclusion, no lost wake-up, conservation of tasks, and the meaning of the count of
  a blocking semaphore.
\<close>

section \<open>The invariant\<close>

fun mutex_next :: "mutex \<Rightarrow> task_ref option" where
  "mutex_next (MutexSpin m) = None"
| "mutex_next (MutexBlocking m) = mb_next m"

definition runnable :: "('tab, 'z) kernel_scheme \<Rightarrow> task_ref set" where
  "runnable s = set (k_ready s) \<union> set_option (k_current s)"

definition wait_ok :: "'tab sync_kernel \<Rightarrow> (task_ref \<Rightarrow> pc) \<Rightarrow> sync_ref \<Rightarrow> mutex \<Rightarrow> bool" where
  "wait_ok s pc r m \<longleftrightarrow>
     (\<forall>t \<in> set (mutex_waiting m). pc t = Locking r) \<and>
     (\<forall>t. mutex_next m = Some t \<longrightarrow> mutex_holder m = None \<and> pc t = Locking r \<and> t \<in> runnable s) \<and>
     (mutex_waiting m \<noteq> [] \<longrightarrow> mutex_holder m \<noteq> None \<or> mutex_next m \<noteq> None) \<and>
     (\<forall>t. mutex_holder m = Some t \<longrightarrow> pc t \<noteq> Locking r)"

fun sem_ok :: "nat \<Rightarrow> semaphore \<Rightarrow> bool" where
  "sem_ok n (SemaphoreSpin m) = True"
| "sem_ok n (SemaphoreBlocking m) =
     (\<bar>sint (sb_count m)\<bar> \<le> 2 ^ 62 + int n \<and> length (sb_waiting m) = nat (- sint (sb_count m)))"

definition mutex_ok :: "'tab sync_kernel \<Rightarrow> (task_ref \<Rightarrow> pc) \<Rightarrow> owners \<Rightarrow> sync_ref \<Rightarrow> mutex \<Rightarrow> bool" where
  "mutex_ok s pc own r m \<longleftrightarrow>
     own r = set_option (mutex_holder m) \<and> (\<forall>t. mutex_holder m = Some t \<longrightarrow> t \<in># places s) \<and> wait_ok s pc r m"

definition sync_inv :: "task_ref multiset \<Rightarrow> nat \<Rightarrow> 'tab config \<Rightarrow> bool" where
  "sync_inv P n = (\<lambda>(s, pc, own).
     places s = P \<and> once s \<and> (\<forall>t \<in># places s. task_alive s t) \<and>
     (\<forall>r < length (k_mutexes s). mutex_ok s pc own r (k_mutexes s ! r)) \<and>
     (Suc n < 2 ^ 62 \<longrightarrow> (\<forall>q < length (k_semaphores s). sem_ok n (k_semaphores s ! q))))"

lemma sem_ok_mono: "sem_ok n v \<Longrightarrow> sem_ok (Suc n) v"
  by (cases v) auto

lemma inv_facts:
  assumes "sync_inv P n (s, pc, own)"
  shows "once s" and "t \<in># places s \<Longrightarrow> task_alive s t"
    and "r < length (k_mutexes s) \<Longrightarrow> mutex_ok s pc own r (k_mutexes s ! r)"
    and "Suc n < 2 ^ 62 \<Longrightarrow> q < length (k_semaphores s) \<Longrightarrow> sem_ok n (k_semaphores s ! q)"
  using assms by (simp_all add: sync_inv_def)

lemma current_placed: "k_current s = Some t \<Longrightarrow> t \<in># places s"
  by (simp add: places_def)

lemma waiting_placed: "r < length (k_mutexes s) \<Longrightarrow> t \<in> set (mutex_waiting (k_mutexes s ! r)) \<Longrightarrow> t \<in># places s"
  using gathered_member [of r "k_mutexes s" t mutex_waiting] by (auto simp: places_def)

lemma sem_waiting_placed:
  "q < length (k_semaphores s) \<Longrightarrow> t \<in> set (semaphore_waiting (k_semaphores s ! q)) \<Longrightarrow> t \<in># places s"
  using gathered_member [of q "k_semaphores s" t semaphore_waiting] by (auto simp: places_def)

lemma cv_waiting_placed: "c < length (k_condvars s) \<Longrightarrow> t \<in> set (cv_waiting (k_condvars s ! c)) \<Longrightarrow> t \<in># places s"
  using gathered_member [of c "k_condvars s" t cv_waiting] by (auto simp: places_def)

lemma runnable_placed: "t \<in> runnable s \<Longrightarrow> t \<in># places s"
  by (auto simp: runnable_def places_def split: option.splits)

text \<open>What a round of the current task \<open>t\<close> may do to the other tasks.\<close>

definition effect :: "'tab sync_kernel \<Rightarrow> task_ref \<Rightarrow> 'tab sync_kernel \<Rightarrow> bool" where
  "effect s t s' \<longleftrightarrow>
     places s' = places s \<and> (\<forall>u. task_alive s' u = task_alive s u) \<and> runnable s - {t} \<subseteq> runnable s' \<and>
     length (k_semaphores s') = length (k_semaphores s)"

lemma wait_ok_frame:
  assumes "wait_ok s pc r m" and "runnable s - {t} \<subseteq> runnable s'" and "t \<notin> set (mutex_waiting m)"
    and "mutex_next m \<noteq> Some t" and "mutex_holder m = Some t \<Longrightarrow> d \<noteq> Locking r"
  shows "wait_ok s' (pc(t := d)) r m"
  using assms by (auto simp: wait_ok_def)

lemma inv_step:
  assumes inv: "sync_inv P n (s, pc, own)" and cur: "k_current s = Some t" and eff: "effect s t s'"
    and mut: "k_mutexes s' = (k_mutexes s)[r := m']"
    and new: "r < length (k_mutexes s) \<Longrightarrow> mutex_ok s' (pc(t := d)) own' r m'"
    and own: "\<And>r'. r' \<noteq> r \<Longrightarrow> own' r' = own r'"
    and next': "\<And>r'. r' < length (k_mutexes s) \<Longrightarrow> r' \<noteq> r \<Longrightarrow> mutex_next (k_mutexes s ! r') \<noteq> Some t"
    and hold: "\<And>r'. r' < length (k_mutexes s) \<Longrightarrow> r' \<noteq> r \<Longrightarrow> mutex_holder (k_mutexes s ! r') = Some t \<Longrightarrow> d \<noteq> Locking r'"
    and sem: "\<And>q. Suc (Suc n) < 2 ^ 62 \<Longrightarrow> q < length (k_semaphores s) \<Longrightarrow> sem_ok (Suc n) (k_semaphores s' ! q)"
  shows "sync_inv P (Suc n) (s', pc(t := d), own')"
proof -
  note f = inv_facts [OF inv]
  have pl: "places s' = places s" and al: "\<And>u. task_alive s' u = task_alive s u"
    and ru: "runnable s - {t} \<subseteq> runnable s'"
    using eff by (auto simp: effect_def)
  have "mutex_ok s' (pc(t := d)) own' r' (k_mutexes s' ! r')" if r': "r' < length (k_mutexes s)" for r'
  proof (cases "r' = r")
    case True
    then show ?thesis using new r' mut by simp
  next
    case False
    have "wait_ok s' (pc(t := d)) r' (k_mutexes s ! r')"
      using f(3) [OF r'] ru once_current(2) [OF f(1) cur r'] next' [OF r' False] hold [OF r' False]
      by (intro wait_ok_frame [of s pc r' _ t s' d]) (auto simp: mutex_ok_def)
    then show ?thesis using f(3) [OF r'] False own [OF False] mut pl by (simp add: mutex_ok_def)
  qed
  moreover have "once s'" using f(1) pl by (simp add: once_def)
  moreover have "\<forall>u \<in># places s'. task_alive s' u" using f(2) pl al by simp
  moreover have "places s' = P" using inv pl by (simp add: sync_inv_def)
  ultimately show ?thesis using mut sem eff by (simp add: sync_inv_def effect_def)
qed

text \<open>A step that leaves the mutexes alone.\<close>

lemma inv_step_other:
  assumes inv: "sync_inv P n (s, pc, own)" and cur: "k_current s = Some t" and eff: "effect s t s'"
    and mut: "k_mutexes s' = k_mutexes s"
    and next': "\<And>r'. r' < length (k_mutexes s) \<Longrightarrow> mutex_next (k_mutexes s ! r') \<noteq> Some t"
    and hold: "\<And>r'. r' < length (k_mutexes s) \<Longrightarrow> mutex_holder (k_mutexes s ! r') = Some t \<Longrightarrow> d \<noteq> Locking r'"
    and sem: "\<And>q. Suc (Suc n) < 2 ^ 62 \<Longrightarrow> q < length (k_semaphores s) \<Longrightarrow> sem_ok (Suc n) (k_semaphores s' ! q)"
  shows "sync_inv P (Suc n) (s', pc(t := d), own)"
proof (rule inv_step [OF inv cur eff, of "length (k_mutexes s)" "new_mutex False"])
  show "k_mutexes s' = (k_mutexes s)[length (k_mutexes s) := new_mutex False]"
    using mut list_update_beyond [of "k_mutexes s" "length (k_mutexes s)"] by simp
qed (use next' hold sem in simp_all)

section \<open>Rounds on a mutex\<close>

lemma holder_alive:
  assumes "sync_inv P n (s, pc, own)" and "r < length (k_mutexes s)"
  shows "upgrade s (mutex_holder (k_mutexes s ! r)) = mutex_holder (k_mutexes s ! r)"
    and "upgrade s (mutex_next (k_mutexes s ! r)) = mutex_next (k_mutexes s ! r)"
proof -
  note f = inv_facts [OF assms(1)]
  have ok: "mutex_ok s pc own r (k_mutexes s ! r)" using f(3) assms(2) by blast
  have "task_alive s t" if "mutex_holder (k_mutexes s ! r) = Some t" for t
    using ok that f(2) by (simp add: mutex_ok_def)
  then show "upgrade s (mutex_holder (k_mutexes s ! r)) = mutex_holder (k_mutexes s ! r)"
    by (intro upgrade_alive) blast
  have "task_alive s t" if "mutex_next (k_mutexes s ! r) = Some t" for t
    using ok that f(2) [OF runnable_placed] by (simp add: mutex_ok_def wait_ok_def)
  then show "upgrade s (mutex_next (k_mutexes s ! r)) = mutex_next (k_mutexes s ! r)"
    by (intro upgrade_alive) blast
qed

lemma lock_cases:
  assumes inv: "sync_inv P n (s, pc, own)" and cur: "k_current s = Some t" and r: "r < length (k_mutexes s)"
  obtains (acquired) m' where "mutex_lock_round r s = (Ok True, set_mutex r m' s)"
      and "mutex_holder (k_mutexes s ! r) = None" and "mutex_holder m' = Some t"
      and "mutex_waiting m' = mutex_waiting (k_mutexes s ! r)" and "mutex_next m' = None"
    | (refused) "mutex_lock_round r s = (Err DoubleLockMutex, s)" and "mutex_holder (k_mutexes s ! r) = Some t"
    | (spins) u where "mutex_lock_round r s = (Ok False, put_read_task t (set_status t Ready (set_current None s)))"
      and "mutex_holder (k_mutexes s ! r) = Some u" and "u \<noteq> t"
    | (blocks) u m' where "mutex_lock_round r s = (Ok False, set_status t Blocked (set_current None (set_mutex r m' s)))"
      and "mutex_holder (k_mutexes s ! r) = Some u" and "u \<noteq> t" and "mutex_holder m' = Some u"
      and "mutex_waiting m' = mutex_waiting (k_mutexes s ! r) @ [t]" and "mutex_next m' = None"
proof -
  have al: "task_alive s t" using inv_facts(2) [OF inv current_placed [OF cur]] .
  show ?thesis
  proof (cases "k_mutexes s ! r")
    case (MutexSpin m)
    have up: "upgrade s (ms_locked m) = ms_locked m" using holder_alive(1) [OF inv r] MutexSpin by simp
    show ?thesis
    proof (cases "ms_locked m")
      case None
      then show ?thesis
        using acquired [of "MutexSpin (m\<lparr>ms_locked := Some t\<rparr>)"] r MutexSpin up cur
        by (simp add: mutex_lock_round_def spin_lock_round_def kbind_def current_task_form)
    next
      case (Some u)
      then show ?thesis
        using refused spins [of u] r MutexSpin up cur suspend_form [OF cur al]
        by (cases "u = t") (simp_all add: mutex_lock_round_def spin_lock_round_def kbind_def current_task_form)
    qed
  next
    case (MutexBlocking m)
    have up: "upgrade s (mb_locked m) = mb_locked m" "upgrade s (mb_next m) = mb_next m"
      using holder_alive [OF inv r] MutexBlocking by simp_all
    show ?thesis
    proof (cases "mb_locked m")
      case None
      then show ?thesis
        using acquired [of "MutexBlocking (m\<lparr>mb_next := None, mb_locked := Some t\<rparr>)"] r MutexBlocking up cur
        by (simp add: mutex_lock_round_def blocking_lock_round_def kbind_def current_task_form)
    next
      case (Some u)
      have nx: "mb_next m = None"
        using inv_facts(3) [OF inv r] MutexBlocking Some by (auto simp: mutex_ok_def wait_ok_def)
      let ?m = "MutexBlocking (m\<lparr>mb_waiting := mb_waiting m @ [t]\<rparr>)"
      have "block_current (set_mutex r ?m s) = (Ok (), set_status t Blocked (set_current None (set_mutex r ?m s)))"
        using cur al by (intro block_form) (simp_all add: fields)
      then show ?thesis
        using refused blocks [of ?m u] r MutexBlocking up cur nx Some
        by (cases "u = t") (simp_all add: mutex_lock_round_def blocking_lock_round_def kbind_def current_task_form)
    qed
  qed
qed

lemma unlock_cases:
  assumes inv: "sync_inv P n (s, pc, own)" and cur: "k_current s = Some t" and r: "r < length (k_mutexes s)"
  obtains (refused) u where "mutex_unlock r s = (Err DoubleUnlockMutex, s)"
      and "mutex_holder (k_mutexes s ! r) = Some u" and "u \<noteq> t"
    | (quiet) m' where "mutex_unlock r s = (Ok (), set_mutex r m' s)"
      and "mutex_holder (k_mutexes s ! r) \<in> {None, Some t}" and "mutex_holder m' = None"
      and "mutex_waiting m' = mutex_waiting (k_mutexes s ! r)" and "mutex_next m' = mutex_next (k_mutexes s ! r)"
      and "mutex_waiting m' \<noteq> [] \<Longrightarrow> mutex_next m' \<noteq> None"
    | (wakes) u m' where "mutex_unlock r s = (Ok (), set_mutex r m' (put_read_task u (set_status u Ready s)))"
      and "mutex_holder (k_mutexes s ! r) \<in> {None, Some t}" and "mutex_holder m' = None"
      and "mutex_waiting (k_mutexes s ! r) = u # mutex_waiting m'" and "mutex_next m' = Some u"
proof (cases "k_mutexes s ! r")
  case (MutexSpin m)
  have up: "upgrade s (ms_locked m) = ms_locked m" using holder_alive(1) [OF inv r] MutexSpin by simp
  have run: "mutex_unlock r s =
      (if ms_locked m \<in> {None, Some t} then (Ok (), set_mutex r (MutexSpin (m\<lparr>ms_locked := None\<rparr>)) s)
       else (Err DoubleUnlockMutex, s))"
    using up r MutexSpin cur
    by (cases "ms_locked m") (simp_all add: mutex_unlock_def spin_unlock_def kbind_def current_task_form)
  show ?thesis
  proof (cases "ms_locked m \<in> {None, Some t}")
    case True
    then show ?thesis using quiet [of "MutexSpin (m\<lparr>ms_locked := None\<rparr>)"] run MutexSpin by simp
  next
    case False
    then obtain u where "ms_locked m = Some u" "u \<noteq> t" by auto
    then show ?thesis using refused [of u] run MutexSpin by simp
  qed
next
  case (MutexBlocking m)
  have up: "upgrade s (mb_locked m) = mb_locked m" "upgrade s (mb_next m) = mb_next m"
    using holder_alive [OF inv r] MutexBlocking by simp_all
  have wt: "\<forall>u \<in> set (mb_waiting m). task_alive s u"
    using waiting_placed [OF r] inv_facts(2) [OF inv] MutexBlocking by simp
  show ?thesis
  proof (cases "mb_locked m \<noteq> None \<and> mb_locked m \<noteq> Some t")
    case True
    then obtain u where "mb_locked m = Some u" "u \<noteq> t" by auto
    then show ?thesis
      using refused [of u] r MutexBlocking up cur
      by (simp add: mutex_unlock_def blocking_unlock_def kbind_def current_task_form)
  next
    case False
    then have open': "\<not> (case upgrade s (mb_locked m) of Some prev \<Rightarrow> prev \<noteq> t | None \<Rightarrow> False)"
      and h: "mb_locked m \<in> {None, Some t}" using up(1) by (auto split: option.splits)
    show ?thesis
    proof (cases "mb_next m = None \<and> mb_waiting m \<noteq> []")
      case True
      then obtain u us where w: "mb_waiting m = u # us" by (cases "mb_waiting m") auto
      then have "task_alive s u" using wt by simp
      then show ?thesis
        using wakes [of "MutexBlocking \<lparr>mb_locked = None, mb_next = Some u, mb_waiting = us\<rparr>" u]
          r MutexBlocking up cur open' h True w pop_waiting_alive [OF wt] make_ready_form [of s u]
        by (auto simp: mutex_unlock_def blocking_unlock_def kbind_def current_task_form)
    next
      case False
      have "mutex_unlock r s = (Ok (), set_mutex r (MutexBlocking (m\<lparr>mb_locked := None\<rparr>)) s)"
      proof (cases "mb_next m")
        case None
        then have w: "mb_waiting m = []" using False by simp
        then have e: "m\<lparr>mb_locked := None, mb_waiting := []\<rparr> = m\<lparr>mb_locked := None\<rparr>" by (cases m) simp
        show ?thesis
          using None r MutexBlocking up cur open' w
          by (simp add: mutex_unlock_def blocking_unlock_def kbind_def current_task_form e)
      next
        case (Some x)
        then show ?thesis
          using r MutexBlocking up cur open'
          by (simp add: mutex_unlock_def blocking_unlock_def kbind_def current_task_form)
      qed
      then show ?thesis
        using quiet [of "MutexBlocking (m\<lparr>mb_locked := None\<rparr>)"] MutexBlocking h False by auto
    qed
  qed
qed

section \<open>Effects\<close>

lemma effect_trans: "effect s t s1 \<Longrightarrow> effect s1 t s2 \<Longrightarrow> effect s t s2"
  by (auto simp: effect_def)

lemma effect_refl: "effect s t s"
  by (simp add: effect_def)

lemma effect_suspend:
  assumes "k_current s = Some t" and "task_alive s t"
  shows "effect s t (put_read_task t (set_status t Ready (set_current None s)))"
  using assms by (auto simp: effect_def places_def runnable_def fields alive_set_status)

lemma effect_sleep:
  assumes "k_current s = Some t" and "task_alive s t"
  shows "effect s t (put_sleep_task now us t (set_status t Blocked (set_current None s)))"
  using assms by (auto simp: effect_def places_def runnable_def fields alive_set_status)

lemma effect_mutex:
  assumes "r < length (k_mutexes s)" and "mutex_waiting m = mutex_waiting (k_mutexes s ! r)"
  shows "effect s t (set_mutex r m s)"
  using gathered_same [OF assms] by (simp add: effect_def places_def runnable_def fields)

lemma effect_mutex_block:
  assumes "r < length (k_mutexes s)" and "mutex_waiting m = mutex_waiting (k_mutexes s ! r) @ [t]"
    and "k_current s = Some t" and "task_alive s t"
  shows "effect s t (set_status t Blocked (set_current None (set_mutex r m s)))"
  using gathered_push [OF assms(1,2)] assms(3,4)
  by (auto simp: effect_def places_def runnable_def fields alive_set_status)

lemma effect_mutex_wake:
  assumes "r < length (k_mutexes s)" and "mutex_waiting (k_mutexes s ! r) = u # mutex_waiting m" and "task_alive s u"
  shows "effect s t (set_mutex r m (put_read_task u (set_status u Ready s)))"
proof -
  have "add_mset u (gathered mutex_waiting ((k_mutexes s)[r := m])) = gathered mutex_waiting (k_mutexes s)"
    using gathered_pop [OF assms(1,2)] .
  then show ?thesis
    using assms(3) by (auto simp: effect_def places_def runnable_def fields alive_set_status)
qed

lemma effect_semaphore:
  assumes "q < length (k_semaphores s)" and "semaphore_waiting v = semaphore_waiting (k_semaphores s ! q)"
  shows "effect s t (set_semaphore q v s)"
  using gathered_same [OF assms] by (simp add: effect_def places_def runnable_def fields)

lemma effect_semaphore_block:
  assumes "q < length (k_semaphores s)" and "semaphore_waiting v = semaphore_waiting (k_semaphores s ! q) @ [t]"
    and "k_current s = Some t" and "task_alive s t"
  shows "effect s t (set_status t Blocked (set_current None (set_semaphore q v s)))"
  using gathered_push [OF assms(1,2)] assms(3,4)
  by (auto simp: effect_def places_def runnable_def fields alive_set_status)

lemma effect_semaphore_wake:
  assumes "q < length (k_semaphores s)" and "semaphore_waiting (k_semaphores s ! q) = u # semaphore_waiting v"
    and "task_alive s u"
  shows "effect s t (put_read_task u (set_status u Ready (set_semaphore q v s)))"
proof -
  have "add_mset u (gathered semaphore_waiting ((k_semaphores s)[q := v])) = gathered semaphore_waiting (k_semaphores s)"
    using gathered_pop [OF assms(1,2)] .
  then show ?thesis
    using assms(3) by (auto simp: effect_def places_def runnable_def fields alive_set_status)
qed

lemma effect_condvar:
  assumes "c < length (k_condvars s)" and "cv_waiting v = cv_waiting (k_condvars s ! c)"
  shows "effect s t (set_condvar c v s)"
  using gathered_same [OF assms] by (simp add: effect_def places_def runnable_def fields)

lemma effect_condvar_block:
  assumes "c < length (k_condvars s)" and "cv_waiting v = cv_waiting (k_condvars s ! c) @ [t]"
    and "k_current s = Some t" and "task_alive s t"
  shows "effect s t (set_status t Blocked (set_current None (set_condvar c v s)))"
  using gathered_push [OF assms(1,2)] assms(3,4)
  by (auto simp: effect_def places_def runnable_def fields alive_set_status)

lemma effect_condvar_wake:
  assumes "c < length (k_condvars s)" and "cv_waiting (k_condvars s ! c) = u # cv_waiting v" and "task_alive s u"
  shows "effect s t (put_read_task u (set_status u Ready (set_condvar c v s)))"
proof -
  have "add_mset u (gathered cv_waiting ((k_condvars s)[c := v])) = gathered cv_waiting (k_condvars s)"
    using gathered_pop [OF assms(1,2)] .
  then show ?thesis
    using assms(3) by (auto simp: effect_def places_def runnable_def fields alive_set_status)
qed

section \<open>Counts\<close>

lemma sint_step:
  fixes c :: usize
  assumes "\<bar>sint c\<bar> \<le> 2 ^ 62 + int n" and "Suc n < 2 ^ 62"
  shows "sint (c + 1) = sint c + 1" and "sint (c - 1) = sint c - 1"
proof -
  define k where "k = int n"
  have k: "k + 1 < 2 ^ 62" "\<bar>sint c\<bar> \<le> 2 ^ 62 + k" using assms by (auto simp: k_def)
  then have le: "- (2 ^ 63) \<le> sint c - 1" "sint c + 1 < 2 ^ 63" by auto
  have c: "c + 1 = word_of_int (sint c + 1)" "c - 1 = word_of_int (sint c - 1)" by simp_all
  show "sint (c + 1) = sint c + 1"
    unfolding c(1) using le by (intro sint_word_of_int) linarith+
  show "sint (c - 1) = sint c - 1"
    unfolding c(2) using le by (intro sint_word_of_int) linarith+
qed

section \<open>Preservation\<close>

lemma next_not_current:
  assumes "sync_inv P n (s, pc, own)" and "r < length (k_mutexes s)" and "pc t \<noteq> Locking r"
  shows "mutex_next (k_mutexes s ! r) \<noteq> Some t"
  using inv_facts(3) [OF assms(1,2)] assms(3) by (auto simp: mutex_ok_def wait_ok_def)

lemma sem_kept:
  assumes "sync_inv P n (s, pc, own)" and "k_semaphores s' = k_semaphores s" and "Suc (Suc n) < 2 ^ 62"
    and "q < length (k_semaphores s)"
  shows "sem_ok (Suc n) (k_semaphores s' ! q)"
  using inv_facts(4) [OF assms(1) _ assms(4)] assms(2,3) sem_ok_mono by simp

lemma call_not_locking:
  assumes "call_run c s = (Ok d, s')" and "\<And>r. c \<noteq> Lock r" and "\<And>v r. c \<noteq> Wait v r"
  shows "d \<noteq> Locking r'"
  using assms by (cases c) (auto simp: kbind_def split: prod.splits outcome.splits if_splits)

lemma inv_lock:
  assumes inv: "sync_inv P n (s, pc, own)" and cur: "k_current s = Some t" and pc: "pc t = Idle \<or> pc t = Locking r"
    and run: "call_run (Lock r) s = (Ok d, s')"
  shows "sync_inv P (Suc n) (s', pc(t := d), acquired r d t own)"
proof -
  have r: "r < length (k_mutexes s)"
    using run by (cases "r < length (k_mutexes s)") (simp_all add: mutex_lock_round_def kbind_def)
  note f = inv_facts [OF inv]
  have al: "task_alive s t" using f(2) [OF current_placed [OF cur]] .
  have ok: "mutex_ok s pc own r (k_mutexes s ! r)" using f(3) r .
  have nw: "t \<notin> set (mutex_waiting (k_mutexes s ! r))" using once_current(2) [OF f(1) cur r] .
  have nx: "mutex_next (k_mutexes s ! r') \<noteq> Some t" if "r' < length (k_mutexes s)" "r' \<noteq> r" for r'
    using next_not_current [OF inv that(1), of t] pc that(2) by auto
  from inv cur r show ?thesis
  proof (cases rule: lock_cases)
    case (acquired m')
    then have s': "s' = set_mutex r m' s" "d = Idle" using run by (simp_all add: kbind_def)
    have eff: "effect s t s'" unfolding s' using effect_mutex [OF r acquired(4)] .
    show ?thesis
    proof (rule inv_step [OF inv cur eff])
      show "k_mutexes s' = (k_mutexes s)[r := m']" by (simp add: s' fields)
      show "mutex_ok s' (pc(t := d)) (Sync_System.acquired r d t own) r m'"
        using ok acquired nw eff current_placed [OF cur]
        by (auto simp: mutex_ok_def wait_ok_def acquired_def s'(2) effect_def)
    qed (use nx sem_kept [OF inv refl] in \<open>simp_all add: s' fields acquired_def\<close>)
  next
    case refused
    then show ?thesis using run by (simp add: kbind_def)
  next
    case (spins u)
    then have s': "s' = put_read_task t (set_status t Ready (set_current None s))" "d = Locking r"
      using run by (simp_all add: kbind_def)
    have "mutex_next (k_mutexes s ! r) \<noteq> Some t" using ok spins(2) by (auto simp: mutex_ok_def wait_ok_def)
    then have nx': "mutex_next (k_mutexes s ! r') \<noteq> Some t" if "r' < length (k_mutexes s)" for r'
      using nx [OF that] by (cases "r' = r") auto
    have "effect s t s'" unfolding s' using effect_suspend [OF cur al] .
    then show ?thesis
      using inv_step_other [OF inv cur, of s' d] nx' sem_kept [OF inv refl] spins
      by (fastforce simp: s' fields acquired_def)
  next
    case (blocks u m')
    then have s': "s' = set_status t Blocked (set_current None (set_mutex r m' s))" "d = Locking r"
      using run by (simp_all add: kbind_def)
    have eff: "effect s t s'" unfolding s' using effect_mutex_block [OF r blocks(5) cur al] .
    show ?thesis
    proof (rule inv_step [OF inv cur eff])
      show "k_mutexes s' = (k_mutexes s)[r := m']" by (simp add: s' fields)
      show "mutex_ok s' (pc(t := d)) (Sync_System.acquired r d t own) r m'"
        using ok blocks nw eff by (auto simp: mutex_ok_def wait_ok_def acquired_def s'(2) effect_def)
    qed (use nx sem_kept [OF inv refl] in \<open>simp_all add: s' fields acquired_def\<close>)
  qed
qed

text \<open>Unlocking, possibly followed by steps that leave the mutexes and semaphores alone.\<close>

lemma inv_unlocked:
  assumes inv: "sync_inv P n (s, pc, own)" and cur: "k_current s = Some t" and pc: "pc t = Idle"
    and run: "mutex_unlock r s = (Ok (), s1)" and eff2: "effect s1 t s2"
    and same: "k_mutexes s2 = k_mutexes s1" "k_semaphores s2 = k_semaphores s"
    and d: "\<And>r'. r' \<noteq> r \<Longrightarrow> d \<noteq> Locking r'"
  shows "sync_inv P (Suc n) (s2, pc(t := d), own(r := own r - {t}))"
proof -
  have r: "r < length (k_mutexes s)"
    using run by (cases "r < length (k_mutexes s)") (simp_all add: mutex_unlock_def)
  note f = inv_facts [OF inv]
  have ok: "mutex_ok s pc own r (k_mutexes s ! r)" using f(3) r .
  have nw: "t \<notin> set (mutex_waiting (k_mutexes s ! r))" using once_current(2) [OF f(1) cur r] .
  have nx: "mutex_next (k_mutexes s ! r') \<noteq> Some t" if "r' < length (k_mutexes s)" for r'
    using next_not_current [OF inv that, of t] pc by simp
  have ru: "runnable s1 - {t} \<subseteq> runnable s2" using eff2 by (simp add: effect_def)
  have sems: "\<And>q. Suc (Suc n) < 2 ^ 62 \<Longrightarrow> q < length (k_semaphores s) \<Longrightarrow> sem_ok (Suc n) (k_semaphores s2 ! q)"
    using sem_kept [OF inv same(2)] .
  from inv cur r show ?thesis
  proof (cases rule: unlock_cases)
    case (refused u)
    then show ?thesis using run by simp
  next
    case (quiet m')
    then have s1: "s1 = set_mutex r m' s" using run by simp
    have eff: "effect s t s2" using effect_trans [OF effect_mutex [OF r quiet(4)]] eff2 s1 by simp
    show ?thesis
    proof (rule inv_step [OF inv cur eff])
      show "k_mutexes s2 = (k_mutexes s)[r := m']" using same by (simp add: s1 fields)
      have "wait_ok s2 (pc(t := d)) r m'"
        using ok quiet nw nx [OF r] ru unfolding s1 mutex_ok_def wait_ok_def
        by (auto simp: runnable_def fields)
      then show "mutex_ok s2 (pc(t := d)) (own(r := own r - {t})) r m'"
        using ok quiet by (auto simp: mutex_ok_def)
    qed (use nx sems d in simp_all)
  next
    case (wakes u m')
    then have s1: "s1 = set_mutex r m' (put_read_task u (set_status u Ready s))" using run by simp
    have "task_alive s u" using waiting_placed [OF r, of u] wakes(4) f(2) by simp
    from effect_trans [OF effect_mutex_wake [OF r wakes(4) this]] have eff: "effect s t s2"
      using eff2 s1 by blast
    have ut: "u \<noteq> t" and pu: "pc u = Locking r" using nw wakes(4) ok by (auto simp: mutex_ok_def wait_ok_def)
    have "u \<in> runnable s1" by (simp add: s1 runnable_def fields)
    then have "u \<in> runnable s2" using ru ut by blast
    show ?thesis
    proof (rule inv_step [OF inv cur eff])
      show "k_mutexes s2 = (k_mutexes s)[r := m']" using same by (simp add: s1 fields)
      have "wait_ok s2 (pc(t := d)) r m'"
        using ok wakes nw ut pu \<open>u \<in> runnable s2\<close> by (auto simp: mutex_ok_def wait_ok_def)
      then show "mutex_ok s2 (pc(t := d)) (own(r := own r - {t})) r m'"
        using ok wakes by (auto simp: mutex_ok_def)
    qed (use nx sems d in simp_all)
  qed
qed

lemma sem_updated:
  assumes "sync_inv P n (s, pc, own)" and "k_semaphores s' = (k_semaphores s)[q := v]"
    and "Suc (Suc n) < 2 ^ 62 \<Longrightarrow> sem_ok (Suc n) v" and "Suc (Suc n) < 2 ^ 62" and "q' < length (k_semaphores s)"
  shows "sem_ok (Suc n) (k_semaphores s' ! q')"
  using inv_facts(4) [OF assms(1) _ assms(5)] assms(2-5) sem_ok_mono by (cases "q' = q") simp_all

lemma inv_down:
  assumes inv: "sync_inv P n (s, pc, own)" and cur: "k_current s = Some t"
    and pc: "\<And>r. pc t \<noteq> Locking r" and run: "call_run (Down q) s = (Ok d, s')"
  shows "sync_inv P (Suc n) (s', pc(t := d), own)"
proof -
  note dl = call_not_locking [OF run]
  have q: "q < length (k_semaphores s)"
    using run by (cases "q < length (k_semaphores s)") (simp_all add: semaphore_down_round_def kbind_def)
  note f = inv_facts [OF inv]
  have al: "task_alive s t" using f(2) [OF current_placed [OF cur]] .
  have nx: "\<And>r. r < length (k_mutexes s) \<Longrightarrow> mutex_next (k_mutexes s ! r) \<noteq> Some t"
    using next_not_current [OF inv] pc by blast
  show ?thesis
  proof (cases "k_semaphores s ! q")
    case (SemaphoreSpin m)
    show ?thesis
    proof (cases "sint (ss_count m) \<le> 0")
      case True
      then have s': "s' = put_read_task t (set_status t Ready (set_current None s))"
        using run q SemaphoreSpin suspend_form [OF cur al]
        by (simp add: semaphore_down_round_def semaphore_spin_down_round_def kbind_def)
      have "effect s t s'" unfolding s' by (rule effect_suspend [OF cur al])
      then show ?thesis
        using inv_step_other [OF inv cur, of s' d] dl nx sem_kept [OF inv refl] by (simp add: s' fields)
    next
      case False
      then have s': "s' = set_semaphore q (SemaphoreSpin (m\<lparr>ss_count := ss_count m - 1\<rparr>)) s"
        using run q SemaphoreSpin by (simp add: semaphore_down_round_def semaphore_spin_down_round_def kbind_def)
      have "effect s t s'" unfolding s' using effect_semaphore [OF q] SemaphoreSpin by simp
      then show ?thesis
        using inv_step_other [OF inv cur, of s' d] dl nx sem_updated [OF inv, of s' q "SemaphoreSpin (m\<lparr>ss_count := ss_count m - 1\<rparr>)"]
        by (simp add: s' fields)
    qed
  next
    case (SemaphoreBlocking m)
    have m: "\<bar>sint (sb_count m)\<bar> \<le> 2 ^ 62 + int n" "length (sb_waiting m) = nat (- sint (sb_count m))"
      "sint (sb_count m - 1) = sint (sb_count m) - 1" if "Suc (Suc n) < 2 ^ 62"
      using f(4) [OF _ q] SemaphoreBlocking that sint_step(2) [of "sb_count m" n] by simp_all
    show ?thesis
    proof (cases "sint (sb_count m - 1) < 0")
      case True
      let ?v = "SemaphoreBlocking \<lparr>sb_count = sb_count m - 1, sb_waiting = sb_waiting m @ [t]\<rparr>"
      let ?v1 = "SemaphoreBlocking (m\<lparr>sb_count := sb_count m - 1\<rparr>)"
      have e: "set_semaphore q ?v (set_semaphore q ?v1 s) = set_semaphore q ?v s"
        by (simp add: set_semaphore_def)
      have "block_current (set_semaphore q ?v s) = (Ok (), set_status t Blocked (set_current None (set_semaphore q ?v s)))"
        using cur al by (intro block_form) (simp_all add: fields)
      then have s': "s' = set_status t Blocked (set_current None (set_semaphore q ?v s))"
        using run q SemaphoreBlocking True cur
        by (simp add: semaphore_down_round_def semaphore_blocking_down_def kbind_def current_task_def Let_def fields e)
      have "effect s t s'"
        unfolding s' using effect_semaphore_block [OF q _ cur al, of ?v] SemaphoreBlocking by simp
      moreover have "sem_ok (Suc n) ?v" if "Suc (Suc n) < 2 ^ 62" using m [OF that] True by auto
      ultimately show ?thesis
        using inv_step_other [OF inv cur, of s' d] dl nx sem_updated [OF inv, of s' q ?v] by (simp add: s' fields)
    next
      case False
      let ?v = "SemaphoreBlocking (m\<lparr>sb_count := sb_count m - 1\<rparr>)"
      have s': "s' = set_semaphore q ?v s"
        using run q SemaphoreBlocking False
        by (simp add: semaphore_down_round_def semaphore_blocking_down_def kbind_def Let_def)
      have "effect s t s'" unfolding s' using effect_semaphore [OF q] SemaphoreBlocking by simp
      moreover have "sem_ok (Suc n) ?v" if "Suc (Suc n) < 2 ^ 62" using m [OF that] False by auto
      ultimately show ?thesis
        using inv_step_other [OF inv cur, of s' d] dl nx sem_updated [OF inv, of s' q ?v] by (simp add: s' fields)
    qed
  qed
qed

lemma inv_up:
  assumes inv: "sync_inv P n (s, pc, own)" and cur: "k_current s = Some t"
    and pc: "pc t = Idle" and run: "call_run (Up q) s = (Ok d, s')"
  shows "sync_inv P (Suc n) (s', pc(t := d), own)"
proof -
  note dl = call_not_locking [OF run]
  have q: "q < length (k_semaphores s)"
    using run by (cases "q < length (k_semaphores s)") (simp_all add: semaphore_up_def kbind_def)
  note f = inv_facts [OF inv]
  have nx: "\<And>r. r < length (k_mutexes s) \<Longrightarrow> mutex_next (k_mutexes s ! r) \<noteq> Some t"
    using next_not_current [OF inv] pc by simp
  show ?thesis
  proof (cases "k_semaphores s ! q")
    case (SemaphoreSpin m)
    have s': "s' = set_semaphore q (SemaphoreSpin (m\<lparr>ss_count := ss_count m + 1\<rparr>)) s"
      using run q SemaphoreSpin by (simp add: semaphore_up_def semaphore_spin_up_def kbind_def)
    have "effect s t s'" unfolding s' using effect_semaphore [OF q] SemaphoreSpin by simp
    then show ?thesis
      using inv_step_other [OF inv cur, of s' d] dl nx sem_updated [OF inv, of s' q "SemaphoreSpin (m\<lparr>ss_count := ss_count m + 1\<rparr>)"]
      by (simp add: s' fields)
  next
    case (SemaphoreBlocking m)
    have m: "\<bar>sint (sb_count m)\<bar> \<le> 2 ^ 62 + int n" "length (sb_waiting m) = nat (- sint (sb_count m))"
      "sint (sb_count m + 1) = sint (sb_count m) + 1" if "Suc (Suc n) < 2 ^ 62"
      using f(4) [OF _ q] SemaphoreBlocking that sint_step(1) [of "sb_count m" n] by simp_all
    have wt: "\<forall>u \<in> set (sb_waiting m). task_alive s u"
      using sem_waiting_placed [OF q] f(2) SemaphoreBlocking by simp
    show ?thesis
    proof (cases "sint (sb_count m + 1) \<le> 0 \<and> sb_waiting m \<noteq> []")
      case True
      then obtain u us where w: "sb_waiting m = u # us" by (cases "sb_waiting m") auto
      let ?v = "SemaphoreBlocking \<lparr>sb_count = sb_count m + 1, sb_waiting = us\<rparr>"
      have u: "task_alive s u" using wt w by simp
      have "make_ready u (set_semaphore q ?v s) = (Ok (), put_read_task u (set_status u Ready (set_semaphore q ?v s)))"
        using u by (intro make_ready_form) (simp add: fields)
      then have s': "s' = put_read_task u (set_status u Ready (set_semaphore q ?v s))"
        using run q SemaphoreBlocking True pop_waiting_alive [OF wt] w
        by (simp add: semaphore_up_def semaphore_blocking_up_def kbind_def Let_def)
      have "effect s t s'"
        unfolding s' using effect_semaphore_wake [OF q _ u, of ?v] SemaphoreBlocking w by simp
      moreover have "sem_ok (Suc n) ?v" if "Suc (Suc n) < 2 ^ 62" using m [OF that] w True by auto
      ultimately show ?thesis
        using inv_step_other [OF inv cur, of s' d] dl nx sem_updated [OF inv, of s' q ?v] by (simp add: s' fields)
    next
      case False
      let ?v = "SemaphoreBlocking (m\<lparr>sb_count := sb_count m + 1\<rparr>)"
      have s': "s' = set_semaphore q ?v s"
      proof (cases "sb_waiting m = []")
        case True
        then have e: "\<lparr>sb_count = sb_count m + 1, sb_waiting = []\<rparr> = m\<lparr>sb_count := sb_count m + 1\<rparr>" by (cases m) simp
        show ?thesis
          using run q SemaphoreBlocking True
          by (simp add: semaphore_up_def semaphore_blocking_up_def kbind_def Let_def e split: if_splits)
      next
        case nonempty: False
        show ?thesis
          using run q SemaphoreBlocking False nonempty
          by (simp add: semaphore_up_def semaphore_blocking_up_def kbind_def Let_def)
      qed
      have "effect s t s'" unfolding s' using effect_semaphore [OF q] SemaphoreBlocking by simp
      moreover have "sem_ok (Suc n) ?v" if "Suc (Suc n) < 2 ^ 62" using m [OF that] False by auto
      ultimately show ?thesis
        using inv_step_other [OF inv cur, of s' d] dl nx sem_updated [OF inv, of s' q ?v] by (simp add: s' fields)
    qed
  qed
qed

lemma inv_signal:
  assumes inv: "sync_inv P n (s, pc, own)" and cur: "k_current s = Some t" and pc: "pc t = Idle"
    and run: "call_run (Signal c) s = (Ok d, s')"
  shows "sync_inv P (Suc n) (s', pc(t := d), own)"
proof -
  note dl = call_not_locking [OF run]
  have c: "c < length (k_condvars s)"
    using run by (cases "c < length (k_condvars s)") (simp_all add: condvar_signal_def kbind_def)
  have nx: "\<And>r. r < length (k_mutexes s) \<Longrightarrow> mutex_next (k_mutexes s ! r) \<noteq> Some t"
    using next_not_current [OF inv] pc by simp
  have wt: "\<forall>u \<in> set (cv_waiting (k_condvars s ! c)). task_alive s u"
    using cv_waiting_placed [OF c] inv_facts(2) [OF inv] by simp
  show ?thesis
  proof (cases "cv_waiting (k_condvars s ! c)")
    case Nil
    then have s': "s' = set_condvar c \<lparr>cv_waiting = []\<rparr> s"
      using run c by (simp add: condvar_signal_def kbind_def)
    have "effect s t s'" unfolding s' using effect_condvar [OF c, of "\<lparr>cv_waiting = []\<rparr>"] Nil by simp
    then show ?thesis
      using inv_step_other [OF inv cur, of s' d] dl nx sem_kept [OF inv refl] by (simp add: s' fields)
  next
    case (Cons u us)
    then have u: "task_alive s u" using wt by simp
    have "make_ready u (set_condvar c \<lparr>cv_waiting = us\<rparr> s) =
        (Ok (), put_read_task u (set_status u Ready (set_condvar c \<lparr>cv_waiting = us\<rparr> s)))"
      using u by (intro make_ready_form) (simp add: fields)
    then have s': "s' = put_read_task u (set_status u Ready (set_condvar c \<lparr>cv_waiting = us\<rparr> s))"
      using run c Cons pop_waiting_alive [OF wt] by (simp add: condvar_signal_def kbind_def)
    have "effect s t s'"
      unfolding s' using effect_condvar_wake [OF c _ u, of "\<lparr>cv_waiting = us\<rparr>"] Cons by simp
    then show ?thesis
      using inv_step_other [OF inv cur, of s' d] dl nx sem_kept [OF inv refl] by (simp add: s' fields)
  qed
qed

lemma unlock_keeps:
  assumes inv: "sync_inv P n (s, pc, own)" and cur: "k_current s = Some t" and run: "mutex_unlock r s = (x, s1)"
  shows "k_current s1 = Some t \<and> task_alive s1 t \<and> k_condvars s1 = k_condvars s \<and> k_semaphores s1 = k_semaphores s"
    and "x = Err e \<Longrightarrow> s1 = s"
proof -
  note f = inv_facts [OF inv]
  have al: "task_alive s t" using f(2) [OF current_placed [OF cur]] .
  have *: "(k_current s1 = Some t \<and> task_alive s1 t \<and> k_condvars s1 = k_condvars s \<and> k_semaphores s1 = k_semaphores s) \<and>
      (x = Err e \<longrightarrow> s1 = s)"
  proof (cases "r < length (k_mutexes s)")
    case r: True
    from inv cur r show ?thesis
    proof (cases rule: unlock_cases)
      case (wakes v m')
      have "task_alive s v" using waiting_placed [OF r, of v] wakes(4) f(2) by simp
      then show ?thesis using wakes(1) run cur al by (auto simp: fields alive_set_status)
    qed (use run cur al in \<open>auto simp: fields\<close>)
  qed (use run cur al in \<open>auto simp: mutex_unlock_def\<close>)
  then show "k_current s1 = Some t \<and> task_alive s1 t \<and> k_condvars s1 = k_condvars s \<and> k_semaphores s1 = k_semaphores s"
    and "x = Err e \<Longrightarrow> s1 = s" by auto
qed

lemma inv_wait_call:
  assumes inv: "sync_inv P n (s, pc, own)" and cur: "k_current s = Some t" and pc: "pc t = Idle"
    and run: "call_run (Wait c r) s = (Ok d, s')"
  shows "sync_inv P (Suc n) (s', pc(t := d), own(r := own r - {t}))"
proof -
  obtain s1 where u: "mutex_unlock r s = (Ok (), s1)"
    using run by (auto simp: kbind_def condvar_wait_def split: prod.splits outcome.splits)
  note s1 = unlock_keeps(1) [OF inv cur u]
  let ?v = "\<lparr>cv_waiting = cv_waiting (k_condvars s1 ! c) @ [t]\<rparr>"
  have blk: "block_current (set_condvar c ?v s1) = (Ok (), set_status t Blocked (set_current None (set_condvar c ?v s1)))"
    using s1 by (intro block_form) (simp_all add: fields)
  have c: "c < length (k_condvars s1)" and s': "s' = set_status t Blocked (set_current None (set_condvar c ?v s1))"
    using run u s1 blk
    by (auto simp: kbind_def condvar_wait_def current_task_def split: if_splits)
  have "effect s1 t s'" unfolding s' using s1 effect_condvar_block [OF c, of ?v t] by simp
  then show ?thesis
    using inv_unlocked [OF inv cur pc u, of s' d] s1 run u
    by (auto simp: s' fields kbind_def split: prod.splits outcome.splits)
qed

lemma inv_call:
  assumes inv: "sync_inv P n (s, pc, own)" and cur: "k_current s = Some t"
    and pc: "pc t = Idle" and run: "call_run c s = (Ok d, s')"
  shows "sync_inv P (Suc n) (s', pc(t := d), own_after c d t own)"
proof (cases c)
  case (Lock r)
  then show ?thesis using inv_lock [OF inv cur] pc run by simp
next
  case (Unlock r)
  then have "mutex_unlock r s = (Ok (), s')"
    using run by (auto simp: kbind_def split: prod.splits outcome.splits)
  moreover from this have "k_semaphores s' = k_semaphores s" using unlock_keeps(1) [OF inv cur] by blast
  ultimately show ?thesis
    using inv_unlocked [OF inv cur pc _ effect_refl] Unlock call_not_locking [OF run] by simp
next
  case (Down q)
  then show ?thesis using inv_down [OF inv cur] pc run by simp
next
  case (Up q)
  then show ?thesis using inv_up [OF inv cur pc] run by simp
next
  case (Signal v)
  then show ?thesis using inv_signal [OF inv cur pc] run by simp
next
  case (Wait v r)
  then show ?thesis using inv_wait_call [OF inv cur pc] run by simp
next
  case Yield
  have al: "task_alive s t" using inv_facts(2) [OF inv current_placed [OF cur]] .
  have s': "s' = put_read_task t (set_status t Ready (set_current None s))"
    using run Yield suspend_form [OF cur al] by (simp add: kbind_def)
  have "effect s t s'" unfolding s' by (rule effect_suspend [OF cur al])
  then show ?thesis
    using inv_step_other [OF inv cur, of s' d] next_not_current [OF inv] pc sem_kept [OF inv refl] Yield
      call_not_locking [OF run]
    by (simp add: s' fields)
next
  case (Sleep now us)
  have al: "task_alive s t" using inv_facts(2) [OF inv current_placed [OF cur]] .
  have s': "s' = put_sleep_task now us t (set_status t Blocked (set_current None s))"
    using run Sleep sleep_form [OF cur al] by (simp add: kbind_def)
  have "effect s t s'" unfolding s' by (rule effect_sleep [OF cur al])
  then show ?thesis
    using inv_step_other [OF inv cur, of s' d] next_not_current [OF inv] pc sem_kept [OF inv refl] Sleep
      call_not_locking [OF run]
    by (simp add: s' fields)
qed

lemma inv_resume:
  assumes inv: "sync_inv P n (s, pc, own)" and cur: "k_current s = Some t"
    and run: "resume_run (pc t) s = (Ok d, s')"
  shows "sync_inv P (Suc n) (s', pc(t := d), own_resumed (pc t) d t own)"
proof (cases "pc t")
  case Idle
  then have "s' = s" "d = Idle" using run by simp_all
  then show ?thesis
    using inv_step_other [OF inv cur effect_refl refl, of d] next_not_current [OF inv] Idle sem_kept [OF inv refl]
    by simp
next
  case (Locking r)
  then show ?thesis using inv_lock [OF inv cur] run by simp
next
  case (Downing q)
  have q: "q < length (k_semaphores s)" using run Downing by (simp split: if_splits)
  show ?thesis
  proof (cases "k_semaphores s ! q")
    case (SemaphoreBlocking m)
    then have "s' = s" "d = Idle" using run Downing q by simp_all
    then show ?thesis
      using inv_step_other [OF inv cur effect_refl refl, of d] next_not_current [OF inv] Downing
        sem_kept [OF inv refl] by simp
  next
    case (SemaphoreSpin m)
    then have "call_run (Down q) s = (Ok d, s')" using run Downing q by simp
    then show ?thesis using inv_down [OF inv cur] Downing by simp
  qed
qed

lemma semaphores_never_refuse:
  assumes inv: "sync_inv P n (s, pc, own)" and cur: "k_current s = Some t"
  shows "semaphore_down_round q s \<noteq> (Err e, s')" and "semaphore_up q s \<noteq> (Err e, s')"
    and "condvar_signal c s \<noteq> (Err e, s')"
proof -
  note f = inv_facts [OF inv]
  have al: "task_alive s t" using f(2) [OF current_placed [OF cur]] .
  show "semaphore_down_round q s \<noteq> (Err e, s')"
  proof (cases "k_semaphores s ! q")
    case (SemaphoreSpin m)
    then show ?thesis
      using suspend_form [OF cur al] by (simp add: semaphore_down_round_def semaphore_spin_down_round_def kbind_def)
  next
    case (SemaphoreBlocking m)
    have "block_current (set_semaphore q v (set_semaphore q w s)) =
        (Ok (), set_status t Blocked (set_current None (set_semaphore q v (set_semaphore q w s))))" for v w
      using cur al by (intro block_form) (simp_all add: fields)
    then show ?thesis
      using SemaphoreBlocking cur
      by (simp add: semaphore_down_round_def semaphore_blocking_down_def kbind_def current_task_def Let_def fields)
  qed
  show "semaphore_up q s \<noteq> (Err e, s')"
  proof (cases "q < length (k_semaphores s)")
    case q: True
    show ?thesis
    proof (cases "k_semaphores s ! q")
      case (SemaphoreBlocking m)
      have wt: "\<forall>u \<in> set (sb_waiting m). task_alive s u"
        using sem_waiting_placed [OF q] f(2) SemaphoreBlocking by simp
      have "make_ready u (set_semaphore q v s) = (Ok (), put_read_task u (set_status u Ready (set_semaphore q v s)))"
        if "u \<in> set (sb_waiting m)" for u v
        using that wt by (intro make_ready_form) (simp add: fields)
      then show ?thesis
        using SemaphoreBlocking q pop_waiting_alive [OF wt]
        by (auto simp: semaphore_up_def semaphore_blocking_up_def kbind_def Let_def split: list.splits)
    qed (use q in \<open>simp add: semaphore_up_def semaphore_spin_up_def\<close>)
  qed (simp add: semaphore_up_def)
  show "condvar_signal c s \<noteq> (Err e, s')"
  proof (cases "c < length (k_condvars s)")
    case c: True
    have wt: "\<forall>u \<in> set (cv_waiting (k_condvars s ! c)). task_alive s u"
      using cv_waiting_placed [OF c] f(2) by simp
    have "make_ready u (set_condvar c v s) = (Ok (), put_read_task u (set_status u Ready (set_condvar c v s)))"
      if "u \<in> set (cv_waiting (k_condvars s ! c))" for u v
      using that wt by (intro make_ready_form) (simp add: fields)
    then show ?thesis
      using c pop_waiting_alive [OF wt] by (auto simp: condvar_signal_def split: list.splits)
  qed (simp add: condvar_signal_def)
qed

lemma refused_unchanged:
  assumes inv: "sync_inv P n (s, pc, own)" and cur: "k_current s = Some t" and run: "call_run c s = (Err e, s')"
  shows "s' = s"
proof -
  have al: "task_alive s t" using inv_facts(2) [OF inv current_placed [OF cur]] .
  note never = semaphores_never_refuse [OF inv cur]
  show ?thesis
  proof (cases c)
    case (Lock r)
    then have r: "r < length (k_mutexes s)"
      using run by (cases "r < length (k_mutexes s)") (simp_all add: mutex_lock_round_def kbind_def)
    from inv cur r show ?thesis by (cases rule: lock_cases) (use run Lock in \<open>auto simp: kbind_def\<close>)
  next
    case (Unlock r)
    then show ?thesis
      using run unlock_keeps(2) [OF inv cur] by (auto simp: kbind_def split: prod.splits outcome.splits)
  next
    case Yield
    then show ?thesis using run suspend_form [OF cur al] by (simp add: kbind_def)
  next
    case (Sleep now us)
    then show ?thesis using run sleep_form [OF cur al] by (simp add: kbind_def)
  next
    case (Wait v r)
    obtain x s1 where u: "mutex_unlock r s = (x, s1)" by fastforce
    note s1 = unlock_keeps(1) [OF inv cur u]
    have "block_current (set_condvar v w s1) = (Ok (), set_status t Blocked (set_current None (set_condvar v w s1)))" for w
      using s1 by (intro block_form) (simp_all add: fields)
    then show ?thesis
      using run Wait u s1 unlock_keeps(2) [OF inv cur u]
      by (cases x) (auto simp: kbind_def condvar_wait_def current_task_def split: if_splits)
  qed (use run never in \<open>auto simp: kbind_def split: prod.splits outcome.splits\<close>)
qed

lemma inv_dispatch:
  assumes inv: "sync_inv P n (s, pc, own)" and cur: "k_current s = None" and run: "schedule K clock s = (Ok t, s')"
  shows "sync_inv P (Suc n) (s', pc, own)"
proof -
  note f = inv_facts [OF inv]
  have "queues_live s" unfolding queues_live_alive using f(2) by (auto simp: places_def)
  then obtain T ts rest where m: "s' = s\<lparr>k_tasks := T,
             k_scheduler := (k_scheduler s)\<lparr>ts_ready := ts, ts_timer := rest\<rparr>,
             k_processor := (k_processor s)\<lparr>pr_current := Some t\<rparr>\<rparr>"
      "add_mset t (mset ts) + mset (map tm_task rest) = mset (k_ready s) + mset (map tm_task (k_timer s))"
      "set (k_ready s) \<subseteq> insert t (set ts)" "\<forall>u. task_alive (s\<lparr>k_tasks := T\<rparr>) u = task_alive s u"
    using schedule_moves [OF _ run] by blast
  have pl: "places s' = places s"
  proof -
    have "mset (case k_current s' of Some t \<Rightarrow> [t] | None \<Rightarrow> []) + mset (k_ready s') + mset (map tm_task (k_timer s')) =
        mset (case k_current s of Some t \<Rightarrow> [t] | None \<Rightarrow> []) + mset (k_ready s) + mset (map tm_task (k_timer s))"
      using m(2) cur by (simp add: m(1))
    then show ?thesis by (simp add: places_def m(1))
  qed
  have al: "task_alive s' u = task_alive s u" for u using m(4) by (simp add: m(1) task_alive_def)
  have ru: "runnable s \<subseteq> runnable s'" using m(3) cur by (auto simp: runnable_def m(1))
  have "mutex_ok s' pc own r (k_mutexes s ! r)" if "r < length (k_mutexes s)" for r
    using f(3) [OF that] ru pl by (auto simp: mutex_ok_def wait_ok_def)
  moreover have "once s'" using f(1) pl by (simp add: once_def)
  moreover have "\<forall>u \<in># places s'. task_alive s' u" using f(2) pl al by simp
  moreover have "places s' = P" using inv pl by (simp add: sync_inv_def)
  ultimately show ?thesis using sem_kept [OF inv refl] by (simp add: sync_inv_def m(1))
qed

lemma inv_mono: "sync_inv P n c \<Longrightarrow> sync_inv P (Suc n) c"
  by (cases c) (auto simp: sync_inv_def sem_ok_mono)

lemma sync_step_inv: "sync_step K c c' \<Longrightarrow> sync_inv P n c \<Longrightarrow> sync_inv P (Suc n) c'"
proof (induction rule: sync_step.induct)
  case (dispatch s clock t s' pc own)
  then show ?case by (metis inv_dispatch)
next
  case (call s t pc c d s' own)
  then show ?case by (metis inv_call)
next
  case (refused s t pc c e s' own)
  then have "s' = s" by (metis refused_unchanged)
  then show ?case using refused inv_mono by metis
next
  case (resume s t pc d s' own)
  then show ?case by (metis inv_resume)
qed

lemma sync_run_inv: "(sync_step K ^^ n) c c' \<Longrightarrow> sync_inv P 0 c \<Longrightarrow> sync_inv P n c'"
proof (induction n arbitrary: c')
  case (Suc n)
  then show ?case using sync_step_inv by (metis relpowp_Suc_E)
qed simp

section \<open>Properties\<close>

text \<open>
  The start: every task that is anywhere is alive and in one place, and the mutexes, semaphores
  and condition variables have just been created, the semaphores with counts from 0 to \<open>2^62\<close>.
\<close>

definition sync_start :: "'tab sync_kernel \<Rightarrow> bool" where
  "sync_start s \<longleftrightarrow> once s \<and> (\<forall>t \<in># places s. task_alive s t) \<and>
     (\<forall>m \<in> set (k_mutexes s). \<exists>b. m = new_mutex b) \<and>
     (\<forall>v \<in> set (k_semaphores s). \<exists>b c. v = new_semaphore b c \<and> 0 \<le> sint c \<and> sint c \<le> 2 ^ 62)"

abbreviation started :: "'tab sync_kernel \<Rightarrow> 'tab config" where
  "started s \<equiv> (s, \<lambda>_. Idle, \<lambda>_. {})"

lemma sync_start_inv:
  assumes "sync_start s"
  shows "sync_inv (places s) 0 (started s)"
proof -
  have "mutex_ok s (\<lambda>_. Idle) (\<lambda>_. {}) r (k_mutexes s ! r)" if r: "r < length (k_mutexes s)" for r
  proof -
    obtain b where "k_mutexes s ! r = new_mutex b" using assms nth_mem [OF r] by (auto simp: sync_start_def)
    then show ?thesis by (simp add: mutex_ok_def wait_ok_def new_mutex_def)
  qed
  moreover have "sem_ok 0 (k_semaphores s ! q)" if q: "q < length (k_semaphores s)" for q
  proof -
    obtain b c where "k_semaphores s ! q = new_semaphore b c" "0 \<le> sint c" "sint c \<le> 2 ^ 62"
      using assms nth_mem [OF q] by (auto simp: sync_start_def)
    then show ?thesis by (simp add: new_semaphore_def)
  qed
  ultimately show ?thesis using assms by (simp add: sync_inv_def sync_start_def)
qed

lemma reachable_inv:
  assumes "sync_start s" and "(sync_step K)\<^sup>*\<^sup>* (started s) c"
  obtains n where "sync_inv (places s) n c"
  using sync_run_inv [OF _ sync_start_inv [OF assms(1)]] rtranclp_imp_relpowp [OF assms(2)] by blast

text \<open>
  C8. Mutual exclusion: in every interleaving of any tasks that lock, unlock, wait and signal, at
  most one task at a time has returned from \<open>lock\<close> on a mutex and not yet from \<open>unlock\<close> on it,
  for mutexes of both kinds, and it is the task recorded in the mutex.
\<close>

theorem mutex_exclusion:
  assumes "sync_start s" and "(sync_step K)\<^sup>*\<^sup>* (started s) (s', pc, own)" and "r < length (k_mutexes s')"
    and "t \<in> own r" and "u \<in> own r"
  shows "t = u \<and> mutex_holder (k_mutexes s' ! r) = Some t"
proof -
  obtain n where "sync_inv (places s) n (s', pc, own)" by (rule reachable_inv [OF assms(1,2)])
  from inv_facts(3) [OF this assms(3)] assms(4,5) show ?thesis
    by (auto simp: mutex_ok_def)
qed

text \<open>Two tasks and one blocking mutex: task 1 is running, task 2 is ready.\<close>

definition sample_sync :: "unit sync_kernel" where
  "sample_sync = (let k = sample_kernel (Some 1) [2] [] in
     \<lparr>k_machine = k_machine k, k_kernel_space = k_kernel_space k, k_pids = k_pids k,
      k_kernel_stacks = k_kernel_stacks k, k_tasks = k_tasks k, k_procs = k_procs k,
      k_next_task = k_next_task k, k_next_proc = k_next_proc k, k_init = k_init k,
      k_processor = k_processor k, k_scheduler = k_scheduler k, k_held = k_held k,
      k_proc_held = k_proc_held k, k_mutexes = [new_mutex True], k_semaphores = [new_semaphore True 0],
      k_condvars = []\<rparr>)"

lemma sample_sync_start: "sync_start sample_sync"
proof -
  have pl: "places sample_sync = {#1, 2#}"
    by (simp add: places_def sample_sync_def sample_kernel_def gathered_def new_mutex_def new_semaphore_def)
  have "task_alive sample_sync t" for t
    by (simp add: task_alive_def sample_sync_def sample_kernel_def sample_task_def task_is_zombie_def)
  moreover have "once sample_sync" by (simp add: once_def pl)
  moreover have "\<forall>v \<in> set (k_semaphores sample_sync). \<exists>b c. v = new_semaphore b c \<and> 0 \<le> sint c \<and> sint c \<le> 2 ^ 62"
    by (intro ballI exI [of _ True] exI [of _ 0]) (simp add: sample_sync_def Let_def)
  moreover have "\<forall>m \<in> set (k_mutexes sample_sync). \<exists>b. m = new_mutex b"
    by (auto simp: sample_sync_def Let_def)
  ultimately show ?thesis by (simp add: sync_start_def)
qed

text \<open>Task 1 locks the mutex and yields; task 2 runs and waits for the mutex.\<close>

definition sample_locked :: "unit sync_kernel" where
  "sample_locked = snd (call_run (Lock 0) sample_sync)"

definition sample_yielded :: "unit sync_kernel" where
  "sample_yielded = snd (call_run Yield sample_locked)"

definition sample_switched :: "unit sync_kernel" where
  "sample_switched = snd (schedule rust_crates (\<lambda>_. 0) sample_yielded)"

definition sample_waiting :: "unit sync_kernel" where
  "sample_waiting = snd (call_run (Lock 0) sample_switched)"

lemmas sample_defs = sample_sync_def sample_kernel_def processor_new_def new_mutex_def mutex_lock_round_def
  blocking_lock_round_def kbind_def current_task_def upgrade_def set_mutex_def
  suspend_current_and_run_other_task_def on_task_def mark_suspended_def set_current_def put_read_task_def
  put_as_ready_def schedule_def check_timers_def pop_ready_task_def pop_ready_def mark_running_def
  task_is_zombie_def sample_task_def block_current_def block_current_and_run_other_task_def mark_blocked_def

lemma sample_run1: "call_run (Lock 0) sample_sync = (Ok Idle, sample_locked)" "k_current sample_sync = Some 1"
  by (simp_all add: sample_locked_def sample_defs Let_def)

lemma sample_run2: "call_run Yield sample_locked = (Ok Idle, sample_yielded)" "k_current sample_locked = Some 1"
  by (simp_all add: sample_yielded_def sample_locked_def sample_defs Let_def)

lemma sample_run3: "schedule rust_crates (\<lambda>_. 0) sample_yielded = (Ok 2, sample_switched)" "k_current sample_yielded = None"
  by (simp_all add: sample_switched_def sample_yielded_def sample_locked_def sample_defs Let_def)

lemma sample_run4: "call_run (Lock 0) sample_switched = (Ok (Locking 0), sample_waiting)" "k_current sample_switched = Some 2"
  "k_mutexes sample_waiting = [MutexBlocking \<lparr>mb_locked = Some 1, mb_next = None, mb_waiting = [2]\<rparr>]"
  "k_mutexes sample_locked = [MutexBlocking \<lparr>mb_locked = Some 1, mb_next = None, mb_waiting = []\<rparr>]"
  by (simp_all add: sample_waiting_def sample_switched_def sample_yielded_def sample_locked_def sample_defs Let_def)

abbreviation sample_config :: "unit config" where
  "sample_config \<equiv> (sample_waiting, (\<lambda>_. Idle)(1 := Idle, 1 := Idle, 2 := Locking 0),
     (\<lambda>_. {})(0 := {1}))"

lemma sample_steps:
  "sync_step rust_crates (started sample_sync) (sample_locked, (\<lambda>_. Idle)(1 := Idle), (\<lambda>_. {})(0 := {1}))"
  "(sync_step rust_crates ^^ 4) (started sample_sync) sample_config"
proof -
  have a: "sync_step rust_crates (started sample_sync) (sample_locked, (\<lambda>_. Idle)(1 := Idle), (\<lambda>_. {})(0 := {1}))"
    using sync_step.call [where K = rust_crates and own = "\<lambda>_. {}" and pc = "\<lambda>_. Idle", OF sample_run1(2) _ sample_run1(1)]
    by (simp add: acquired_def)
  have b: "sync_step rust_crates (sample_locked, (\<lambda>_. Idle)(1 := Idle), (\<lambda>_. {})(0 := {1}))
      (sample_yielded, (\<lambda>_. Idle)(1 := Idle, 1 := Idle), (\<lambda>_. {})(0 := {1}))"
    using sync_step.call [where K = rust_crates and own = "(\<lambda>_. {})(0 := {1})" and pc = "(\<lambda>_. Idle)(1 := Idle)",
        OF sample_run2(2) _ sample_run2(1)] by simp
  have c: "sync_step rust_crates (sample_yielded, (\<lambda>_. Idle)(1 := Idle, 1 := Idle), (\<lambda>_. {})(0 := {1}))
      (sample_switched, (\<lambda>_. Idle)(1 := Idle, 1 := Idle), (\<lambda>_. {})(0 := {1}))"
    by (rule sync_step.dispatch [OF sample_run3(2,1)])
  have d: "sync_step rust_crates (sample_switched, (\<lambda>_. Idle)(1 := Idle, 1 := Idle), (\<lambda>_. {})(0 := {1})) sample_config"
    using sync_step.call [where K = rust_crates and own = "(\<lambda>_. {})(0 := {1})" and
        pc = "(\<lambda>_. Idle)(1 := Idle, 1 := Idle)", OF sample_run4(2) _ sample_run4(1)]
    by (simp add: acquired_def)
  show "(sync_step rust_crates ^^ 4) (started sample_sync) sample_config"
    using a b c d by (auto simp: numeral_eq_Suc)
  show "sync_step rust_crates (started sample_sync) (sample_locked, (\<lambda>_. Idle)(1 := Idle), (\<lambda>_. {})(0 := {1}))"
    by (rule a)
qed

lemma sample_reached: "(sync_step rust_crates)\<^sup>*\<^sup>* (started sample_sync) sample_config"
  using relpowp_imp_rtranclp [OF sample_steps(2)] .

theorem mutex_exclusion_witness: "mutex_holder (k_mutexes sample_waiting ! 0) = Some 1"
  using mutex_exclusion [OF sample_sync_start sample_reached, of 0 1 1] by (simp add: sample_run4(3))



text \<open>
  C9. No task is lost or doubled: through every interleaving of the scheduler, the mutexes, the
  semaphores and the condition variables, the tasks that are running, ready, sleeping or waiting
  in some queue are the same as at the start, each of them is in exactly one of these places, and
  each of them still exists and is no zombie.
\<close>

theorem tasks_conserved:
  assumes "sync_start s" and "(sync_step K)\<^sup>*\<^sup>* (started s) (s', pc, own)"
  shows "places s' = places s \<and> (\<forall>t. Multiset.count (places s') t \<le> 1) \<and>
    (\<forall>t. t \<in># places s \<longrightarrow> task_alive s' t)"
proof -
  obtain n where inv: "sync_inv (places s) n (s', pc, own)" by (rule reachable_inv [OF assms])
  then have "places s' = places s" by (simp add: sync_inv_def)
  then show ?thesis using inv_facts(1,2) [OF inv] by (auto simp: once_def)
qed

theorem tasks_conserved_witness: "places sample_waiting = {#1, 2#}"
  using tasks_conserved [OF sample_sync_start sample_reached]
  by (simp add: places_def sample_sync_def sample_kernel_def gathered_def new_mutex_def new_semaphore_def)

text \<open>
  C18. The counter of a blocking semaphore is exact: in every interleaving of fewer than \<open>2^62\<close>
  steps no counter wraps around, and a counter below zero is minus the number of tasks waiting,
  none waiting otherwise.
\<close>

theorem semaphore_counts_waiters:
  assumes "sync_start s" and "(sync_step K ^^ n) (started s) (s', pc, own)" and "Suc n < 2 ^ 62"
    and "q < length (k_semaphores s')" and "k_semaphores s' ! q = SemaphoreBlocking m"
  shows "int (length (sb_waiting m)) = max 0 (- sint (sb_count m))"
  using inv_facts(4) [OF sync_run_inv [OF assms(2) sync_start_inv [OF assms(1)]] assms(3,4)] assms(5) by simp

text \<open>Task 1 takes its turn on a semaphore of count 0 and blocks.\<close>

definition sample_downed :: "unit sync_kernel" where
  "sample_downed = snd (call_run (Down 0) sample_sync)"

lemma sample_down: "call_run (Down 0) sample_sync = (Ok (Downing 0), sample_downed)"
  "k_semaphores sample_downed = [SemaphoreBlocking \<lparr>sb_count = - 1, sb_waiting = [1]\<rparr>]"
  by (simp_all add: sample_downed_def sample_defs new_semaphore_def semaphore_down_round_def
      semaphore_blocking_down_def set_semaphore_def Let_def)

theorem semaphore_counts_waiters_witness:
  "\<exists>m. k_semaphores sample_downed ! 0 = SemaphoreBlocking m \<and> sb_waiting m = [1] \<and>
     int (length (sb_waiting m)) = max 0 (- sint (sb_count m))"
proof -
  have "sync_step rust_crates (started sample_sync) (sample_downed, (\<lambda>_. Idle)(1 := Downing 0), \<lambda>_. {})"
    using sync_step.call [where K = rust_crates and own = "\<lambda>_. {}" and pc = "\<lambda>_. Idle", OF sample_run1(2) _ sample_down(1)]
    by simp
  then have "(sync_step rust_crates ^^ 1) (started sample_sync) (sample_downed, (\<lambda>_. Idle)(1 := Downing 0), \<lambda>_. {})"
    by (simp only: relpowp_1)
  from semaphore_counts_waiters [OF sample_sync_start this, of 0] show ?thesis
    by (simp add: sample_down(2) del: One_nat_def)
qed

end
