(* ===== verification/Processes.thy ===== *)
theory Processes
  imports Scheduler
begin

text \<open>
  Tasks and processes (src/task/model.rs) and what the processor does with the current one
  (src/task/process.rs): creation, fork, exec, exit, wait and signals.

  Local variables that hold an \<open>Arc\<close> while another operation looks at the strong count are
  counted by \<open>k_held\<close> and \<open>k_proc_held\<close>; a local clone that only the operation itself
  holds is counted where the count is compared. A block with a strong count of zero is dropped when
  the last reference is given up. Lists of children and tasks are walked in key order.

  The parent of a process in the tree has a smaller address than its children, so the number of
  addresses given out bounds the depth of the tree; it is the fuel of the two functions that
  descend the tree.
\<close>

unbundle bit_operations_syntax

section \<open>References\<close>

definition hold_task :: "task_ref \<Rightarrow> ('tab, 'z) kernel_scheme \<Rightarrow> ('tab, 'z) kernel_scheme" where
  "hold_task t s = s\<lparr>k_held := (k_held s)(t := k_held s t + 1)\<rparr>"

definition unhold_task :: "crates \<Rightarrow> task_ref \<Rightarrow> (('tab, 'z) kernel_scheme, unit) kop" where
  "unhold_task K t s = task_release K t (s\<lparr>k_held := (k_held s)(t := k_held s t - 1)\<rparr>)"

definition in_machine :: "(machine, 'a) kop \<Rightarrow> (('tab, 'z) kernel_scheme, 'a) kop" where
  "in_machine f s = (case f (k_machine s) of (r, m) \<Rightarrow> (r, s\<lparr>k_machine := m\<rparr>))"

definition drop_space :: "crates \<Rightarrow> space \<Rightarrow> (('tab, 'z) kernel_scheme, unit) kop" where
  "drop_space K sp = in_machine (\<lambda>m. case space_drop K (sp, m) of (r, (_, m')) \<Rightarrow> (r, m'))"

text \<open>What happens when an \<open>Arc\<close> to a process was just given up.\<close>

fun process_drop :: "nat \<Rightarrow> crates \<Rightarrow> proc_ref \<Rightarrow> (('tab, 'z) kernel_scheme, unit) kop" where
  "process_drop 0 K p s = (Hang, s)"
| "process_drop (Suc n) K p s =
     (case k_procs s p of
        None \<Rightarrow> (Ok (), s)
      | Some pb \<Rightarrow>
          if proc_strong_count s p \<noteq> 0 then (Ok (), s)
          else
            kbind (on_pids (id_tracker_drop True (pb_tracker pb))) (\<lambda>_.
            kbind (drop_space K (pb_space pb)) (\<lambda>_.
            kbind (kfor (map snd (pb_childrens pb)) (process_drop n K)) (\<lambda>_.
            kfor (map snd (pb_tasks pb)) (task_release K))))
            (s\<lparr>k_procs := (k_procs s)(p := None)\<rparr>))"

definition process_release :: "crates \<Rightarrow> proc_ref \<Rightarrow> (('tab, 'z) kernel_scheme, unit) kop" where
  "process_release K p s = process_drop (Suc (k_next_proc s)) K p s"

section \<open>Creating a task\<close>

definition kernel_stack_new :: "crates \<Rightarrow> (('tab, 'z) kernel_scheme, id_tracker) kop" where
  "kernel_stack_new K =
     kbind (on_kernel_stacks auto_id_alloc) (\<lambda>tr.
     kbind (on_error (on_kernel_space (map_kernel_task_stack K (tracker_id tr)))
              (on_kernel_stacks (id_tracker_drop True tr))) (\<lambda>_.
     kret tr))"

text \<open>The resource owns the tracker from the start, so a failed allocation drops it.\<close>

definition user_resource_new :: "crates \<Rightarrow> id_tracker \<Rightarrow> proc_ref \<Rightarrow> (('tab, 'z) kernel_scheme, unit) kop" where
  "user_resource_new K tr p s =
     (case k_procs s p of
        Some pb \<Rightarrow>
          on_error (on_space p (resource_alloc K (tracker_id tr) (pb_base_size pb)))
            (user_resource_drop K p tr) s
      | None \<Rightarrow> (Panic, s))"

definition task_block_new :: "crates \<Rightarrow> id_tracker \<Rightarrow> proc_ref \<Rightarrow> (('tab, 'z) kernel_scheme, task_ref) kop" where
  "task_block_new K tr p =
     kbind (on_error (kernel_stack_new K) (on_tids p (id_tracker_drop True tr))) (\<lambda>kernel_stack.
     kbind (on_error (user_resource_new K tr p) (kernel_stack_drop K kernel_stack)) (\<lambda>_ s.
       (Ok (k_next_task s), s\<lparr>k_next_task := Suc (k_next_task s), k_tasks := (k_tasks s)(k_next_task s \<mapsto>
          \<lparr>tb_kernel_stack = kernel_stack, tb_process = p, tb_status = Ready, tb_task_ctx = task_ctx_empty,
           tb_exit_code = None, tb_user_resource = Some tr\<rparr>)\<rparr>)))"

section \<open>Contexts\<close>

definition TRAP_CTX_BYTES :: usize where "TRAP_CTX_BYTES = 296"

definition frame_of :: "usize \<Rightarrow> usize" where
  "frame_of pa = pa div MEMORY_PAGE_BYTE_SIZE"

definition get_trap_ctx :: "crates \<Rightarrow> usize \<Rightarrow> space \<Rightarrow> usize outcome" where
  "get_trap_ctx K tid sp =
     (case get_task_trap_ctx_vpn_range K tid of
        (start_vpn, end_vpn) \<Rightarrow>
          (case get_area start_vpn end_vpn sp of
             Ok trap_ctx_area \<Rightarrow> area_as_kernel_mut start_vpn 0 TRAP_CTX_BYTES (space_page_table sp)
           | Err e \<Rightarrow> Err e | Panic \<Rightarrow> Panic | Hang \<Rightarrow> Hang))"

text \<open>The closure runs on the context that lies in the frame of the trap context page.\<close>

definition modify_trap_ctx :: "crates \<Rightarrow> task_ref \<Rightarrow> proc_ref \<Rightarrow> (trap_context, 'a) kop \<Rightarrow> (('tab, 'z) kernel_scheme, 'a) kop" where
  "modify_trap_ctx K t p f s =
     (case (k_tasks s t, k_procs s p) of
        (Some tb, Some pb) \<Rightarrow>
          (case tb_user_resource tb of
             None \<Rightarrow> (Panic, s)
           | Some tr \<Rightarrow>
               (case get_trap_ctx K (tracker_id tr) (pb_space pb) of
                  Ok pa \<Rightarrow>
                    (case f (load_trap_ctx (mem (k_machine s)) (frame_of pa)) of
                       (r, c) \<Rightarrow> (r, s\<lparr>k_machine := (k_machine s)\<lparr>mem :=
                                     store_trap_ctx (frame_of pa) c (mem (k_machine s))\<rparr>\<rparr>))
                | Err e \<Rightarrow> (Err e, s) | Panic \<Rightarrow> (Panic, s) | Hang \<Rightarrow> (Hang, s)))
      | _ \<Rightarrow> (Panic, s))"

definition modify_task_ctx :: "task_ref \<Rightarrow> (task_context \<Rightarrow> task_context) \<Rightarrow> (('tab, 'z) kernel_scheme, unit) kop" where
  "modify_task_ctx t f = on_task t (\<lambda>tb. (Ok (), tb\<lparr>tb_task_ctx := f (tb_task_ctx tb)\<rparr>))"

text \<open>\<open>TrapContext::create_app_init_context\<close> with the token of the kernel space.\<close>

definition app_init_context ::
    "('act, 'tab) platform \<Rightarrow> usize \<Rightarrow> usize \<Rightarrow> usize \<Rightarrow> ('tab, 'z) kernel_scheme \<Rightarrow> trap_context outcome" where
  "app_init_context P entry_point user_stack_top_va kernel_stack_top_va s =
     (case space_mmu_token (pf_crates P) (k_kernel_space s) of
        Ok token \<Rightarrow> create_app_init_context (pf_crates P) (pf_sstatus P) token (pf_trap_handler P)
                     entry_point user_stack_top_va kernel_stack_top_va
      | Err e \<Rightarrow> Err e | Panic \<Rightarrow> Panic | Hang \<Rightarrow> Hang)"

section \<open>Tasks of a process\<close>

definition get_task :: "task_ref \<Rightarrow> (('tab, 'z) kernel_scheme, task_block) kop" where
  "get_task t s = (case k_tasks s t of Some tb \<Rightarrow> (Ok tb, s) | None \<Rightarrow> (Panic, s))"

definition get_proc :: "proc_ref \<Rightarrow> (('tab, 'z) kernel_scheme, 'tab process_block) kop" where
  "get_proc p s = (case k_procs s p of Some pb \<Rightarrow> (Ok pb, s) | None \<Rightarrow> (Panic, s))"

text \<open>Inserting a task drops the one that had the same id.\<close>

definition insert_task :: "crates \<Rightarrow> proc_ref \<Rightarrow> usize \<Rightarrow> task_ref \<Rightarrow> (('tab, 'z) kernel_scheme, unit) kop" where
  "insert_task K p tid t =
     kbind (get_proc p) (\<lambda>pb.
     kbind (on_process p (\<lambda>pb. (Ok (), pb\<lparr>pb_tasks := bt_insert tid t (pb_tasks pb)\<rparr>))) (\<lambda>_.
     case bt_get (pb_tasks pb) tid of Some old \<Rightarrow> task_release K old | None \<Rightarrow> kret ()))"

definition alloc_task ::
    "('act, 'tab) platform \<Rightarrow> proc_ref \<Rightarrow> usize \<Rightarrow> usize option \<Rightarrow> (('tab, 'z) kernel_scheme, task_ref) kop" where
  "alloc_task P p entry_point arg =
     (let K = pf_crates P in
      kbind (on_tids p auto_id_alloc) (\<lambda>tr.
      kbind (task_block_new K tr p) (\<lambda>t.
      kbind (get_proc p) (\<lambda>pb.
      kbind (get_task t) (\<lambda>tb.
      kbind (klift (get_user_task_stack_top_va K (pb_base_size pb) (tracker_id tr))) (\<lambda>user_stack_top_va.
      kbind (klift (get_kernel_task_stack_top_va K (tracker_id (tb_kernel_stack tb)))) (\<lambda>kernel_stack_top_va.
      kbind (on_error
              (\<lambda>s. modify_trap_ctx K t p (\<lambda>_.
                 case app_init_context P entry_point user_stack_top_va kernel_stack_top_va s of
                   Ok c \<Rightarrow> (case arg of Some a \<Rightarrow> set_arg 0 a c | None \<Rightarrow> (Ok (), c))
                 | Err e \<Rightarrow> (Err e, trap_ctx_default) | Panic \<Rightarrow> (Panic, trap_ctx_default)
                 | Hang \<Rightarrow> (Hang, trap_ctx_default)) s)
              (task_release K t)) (\<lambda>_.
      kbind (modify_task_ctx t (goto_trap_return (pf_trap_return P) kernel_stack_top_va)) (\<lambda>_.
      kbind (insert_task K p (tracker_id tr) t) (\<lambda>_.
      kret t))))))))))"

section \<open>Creating a process\<close>

definition STDIN :: file_ref where "STDIN = 0"
definition STDOUT :: file_ref where "STDOUT = 1"

definition process_inner_new ::
    "('act, 'tab) signal_crate \<Rightarrow> id_tracker \<Rightarrow> string \<Rightarrow> space \<Rightarrow> usize \<Rightarrow> usize \<Rightarrow> file_ref table \<Rightarrow> 'tab process_block" where
  "process_inner_new L tr path sp entry_point base_size fd_table =
     \<lparr>pb_tracker = tr, pb_tid_allocator = id_allocator_new MAX_TID_COUNT, pb_path = path,
      pb_entry_point = entry_point, pb_base_size = base_size, pb_space = sp, pb_parent = None,
      pb_childrens = [], pb_exit_code = None, pb_fd_table = fd_table, pb_mutex_table = [],
      pb_semaphore_table = [], pb_condvar_table = [], pb_signal = signal_block_new L, pb_tasks = []\<rparr>"

definition store_process :: "'tab process_block \<Rightarrow> (('tab, 'z) kernel_scheme, proc_ref) kop" where
  "store_process pb s =
     (Ok (k_next_proc s), s\<lparr>k_next_proc := Suc (k_next_proc s), k_procs := (k_procs s)(k_next_proc s \<mapsto> pb)\<rparr>)"

definition add_child :: "proc_ref \<Rightarrow> usize \<Rightarrow> proc_ref \<Rightarrow> (('tab, 'z) kernel_scheme, unit) kop" where
  "add_child q pid p = on_process q (\<lambda>qb. (Ok (), qb\<lparr>pb_childrens := bt_insert pid p (pb_childrens qb)\<rparr>))"

definition set_parent :: "proc_ref \<Rightarrow> proc_ref \<Rightarrow> (('tab, 'z) kernel_scheme, unit) kop" where
  "set_parent p q = on_process p (\<lambda>pb. (Ok (), pb\<lparr>pb_parent := Some q\<rparr>))"

definition process_new ::
    "('act, 'tab) platform \<Rightarrow> string \<Rightarrow> u8 list \<Rightarrow> proc_ref option \<Rightarrow> (('tab, 'z) kernel_scheme, proc_ref) kop" where
  "process_new P path data parent =
     (let K = pf_crates P in
      kbind (on_pids auto_id_alloc) (\<lambda>tr.
      kbind (on_error (in_machine (new_user_from_elf K (pf_elf P) (pf_image P) (tracker_id tr) data))
              (on_pids (id_tracker_drop True tr))) (\<lambda>(sp, base_size, entry_point).
      kbind (store_process (process_inner_new (pf_signals P) tr path sp entry_point base_size
              [Some STDIN, Some STDOUT, Some STDOUT])) (\<lambda>p.
      kbind (case parent of
               Some q \<Rightarrow> kbind (set_parent p q) (\<lambda>_. add_child q (tracker_id tr) p)
             | None \<Rightarrow> kret ()) (\<lambda>_.
      kbind (on_error (alloc_task P p entry_point None) (process_release K p)) (\<lambda>_.
      kret p))))))"

section \<open>Fork\<close>

definition task_ranges :: "crates \<Rightarrow> usize \<Rightarrow> usize list \<Rightarrow> (usize \<times> usize) set" where
  "task_ranges K base_size tids =
     set (map (get_user_task_stack_vpn_range K base_size) tids @ map (get_task_trap_ctx_vpn_range K) tids)"

definition process_fork :: "('act, 'tab) platform \<Rightarrow> proc_ref \<Rightarrow> (('tab, 'z) kernel_scheme, proc_ref) kop" where
  "process_fork P p =
     (let K = pf_crates P in
      kbind (get_proc p) (\<lambda>pb.
      kbind (on_pids auto_id_alloc) (\<lambda>tr.
      kbind (on_error (in_machine (new_user_from_another K (pf_image P) (tracker_id tr) (pb_space pb)
                (Some (task_ranges K (pb_base_size pb) (map fst (pb_tasks pb))))))
              (on_pids (id_tracker_drop True tr))) (\<lambda>sp.
      kbind (store_process (process_inner_new (pf_signals P) tr (pb_path pb) sp (pb_entry_point pb)
              (pb_base_size pb) (pb_fd_table pb))) (\<lambda>c.
      kbind (set_parent c p) (\<lambda>_.
      kbind (add_child p (tracker_id tr) c) (\<lambda>_.
      kret c)))))))"

text \<open>The part of \<open>fork_process\<close> after the new task was created.\<close>

definition fork_task_state ::
    "('act, 'tab) platform \<Rightarrow> task_ref \<Rightarrow> proc_ref \<Rightarrow> proc_ref \<Rightarrow> id_tracker \<Rightarrow> task_ref \<Rightarrow> (('tab, 'z) kernel_scheme, unit) kop" where
  "fork_task_state P t p c tr nt =
     (let K = pf_crates P in
      kbind (get_proc p) (\<lambda>pb.
      kbind (case get_user_task_stack_vpn_range K (pb_base_size pb) ROOT_TID of (start_vpn, end_vpn) \<Rightarrow>
               on_space c (copy_area_from_another K (pb_space pb) start_vpn end_vpn start_vpn end_vpn)) (\<lambda>_.
      kbind (insert_task K c (tracker_id tr) nt) (\<lambda>_.
      kbind (get_task nt) (\<lambda>ntb.
      kbind (klift (get_kernel_task_stack_top_va K (tracker_id (tb_kernel_stack ntb)))) (\<lambda>kernel_task_stack_top_va.
      kbind (modify_trap_ctx K t p (\<lambda>ctx. (Ok ctx, ctx))) (\<lambda>pre_trap_ctx.
      kbind (modify_trap_ctx K nt c (\<lambda>_. (Ok (), pre_trap_ctx\<lparr>tc_kernel_sp_va := kernel_task_stack_top_va\<rparr>))) (\<lambda>_.
      kbind (get_task t) (\<lambda>tb.
      kbind (modify_task_ctx nt (\<lambda>_. goto_trap_return (pf_trap_return P) kernel_task_stack_top_va (tb_task_ctx tb))) (\<lambda>_.
      kbind (get_proc c) (\<lambda>cb.
      add_child p (tracker_id (pb_tracker cb)) c)))))))))))"

definition fork_process :: "('act, 'tab) platform \<Rightarrow> task_ref \<Rightarrow> (('tab, 'z) kernel_scheme, proc_ref) kop" where
  "fork_process P t =
     (let K = pf_crates P in
      kbind (get_task t) (\<lambda>tb. let p = tb_process tb in
      kbind (process_fork P p) (\<lambda>c.
      kbind (on_tids c auto_id_alloc) (\<lambda>tr.
      kbind (kassert (tracker_id tr = ROOT_TID)) (\<lambda>_.
      kbind (task_block_new K tr c) (\<lambda>nt.
      kbind (on_error (fork_task_state P t p c tr nt) (task_release K nt)) (\<lambda>_.
      kret c)))))))"

section \<open>Values in user memory\<close>

text \<open>The bytes of an integer in memory; an access must not leave the page.\<close>

definition le_bytes :: "nat \<Rightarrow> 'a::len word \<Rightarrow> u8 list" where
  "le_bytes n w = map (\<lambda>i. ucast (drop_bit (8 * i) w)) [0..<n]"

definition store_user :: "crates \<Rightarrow> usize \<Rightarrow> u8 list \<Rightarrow> (space_state, unit) kop" where
  "store_user K ptr bytes = (\<lambda>(sp, m).
     case translated_refmut K ptr (of_nat (length bytes)) sp of
       Ok pa \<Rightarrow> (Ok (), (sp, m\<lparr>mem := frame_write (frame_of pa) (unat (pa mod MEMORY_PAGE_BYTE_SIZE)) bytes (mem m)\<rparr>))
     | Err e \<Rightarrow> (Err e, (sp, m)) | Panic \<Rightarrow> (Panic, (sp, m)) | Hang \<Rightarrow> (Hang, (sp, m)))"

text \<open>\<open>String::as_bytes\<close>: the UTF-8 encoding; the code points of these strings are below 256.\<close>

definition char_bytes :: "char \<Rightarrow> u8 list" where
  "char_bytes c = (let n = of_char c :: nat in
     if n < 128 then [of_nat n] else [of_nat (192 + n div 64), of_nat (128 + n mod 64)])"

definition str_bytes :: "string \<Rightarrow> u8 list" where
  "str_bytes str = concat (map char_bytes str)"

section \<open>Exec\<close>

text \<open>The bytes are given from the last to the first.\<close>

fun push_bytes :: "crates \<Rightarrow> u8 list \<Rightarrow> usize \<Rightarrow> (space_state, usize) kop" where
  "push_bytes K [] va = kret va"
| "push_bytes K (b # bs) va = kbind (store_user K (va - 1) [b]) (\<lambda>_. push_bytes K bs (va - 1))"

definition push_str :: "crates \<Rightarrow> u8 list \<Rightarrow> usize \<Rightarrow> (space_state, usize) kop" where
  "push_str K bytes va =
     kbind (push_bytes K (rev bytes) va) (\<lambda>va.
     kbind (store_user K (va - 8) (le_bytes 8 (of_nat (length bytes) :: usize))) (\<lambda>_.
     kret (va - 8)))"

definition replace_space :: "crates \<Rightarrow> proc_ref \<Rightarrow> space \<Rightarrow> (('tab, 'z) kernel_scheme, unit) kop" where
  "replace_space K p sp =
     kbind (get_proc p) (\<lambda>pb.
     kbind (on_process p (\<lambda>pb. (Ok (), pb\<lparr>pb_space := sp\<rparr>))) (\<lambda>_.
     drop_space K (pb_space pb)))"

definition exec ::
    "('act, 'tab) platform \<Rightarrow> task_ref \<Rightarrow> string \<Rightarrow> u8 list \<Rightarrow> string \<Rightarrow> (('tab, 'z) kernel_scheme, usize) kop" where
  "exec P t path data args =
     (let K = pf_crates P in
      kbind (get_task t) (\<lambda>tb. let p = tb_process tb in
      kbind (get_proc p) (\<lambda>pb. let pid = tracker_id (pb_tracker pb) in
      if 1 < length (pb_tasks pb) then kerr (ExecWithMultiTasks pid)
      else if COMMAND_LINE_ARGUMENTS_BYTE_SIZE < of_nat (length (str_bytes path)) + of_nat (length (str_bytes args)) + 2
      then kerr OversizeArgs
      else
      kbind (in_machine (new_user_from_elf K (pf_elf P) (pf_image P) pid data)) (\<lambda>(sp, base_size, entry_point).
      kbind (kopt (tb_user_resource tb)) (\<lambda>tr. let tid = tracker_id tr in
      kbind (on_error (on_space p (resource_dealloc K tid (pb_base_size pb))) (drop_space K sp)) (\<lambda>_.
      kbind (in_machine (build_space K
               (kbind (resource_alloc K tid base_size) (\<lambda>_.
                kbind (klift (get_user_task_stack_top_va K base_size tid)) (\<lambda>user_stack_top_va.
                kbind (push_str K (str_bytes args) user_stack_top_va) (\<lambda>user_stack_top_va.
                push_str K (str_bytes path) user_stack_top_va)))) sp)) (\<lambda>(sp', user_stack_top_va).
      kbind (klift (get_kernel_task_stack_top_va K (tracker_id (tb_kernel_stack tb)))) (\<lambda>kernel_stack_top_va.
      kbind (on_process p (\<lambda>pb. (Ok (), pb\<lparr>pb_path := path\<rparr>))) (\<lambda>_.
      kbind (replace_space K p sp') (\<lambda>_.
      kbind (on_process p (\<lambda>pb. (Ok (), pb\<lparr>pb_entry_point := entry_point, pb_base_size := base_size\<rparr>))) (\<lambda>_.
      kbind (\<lambda>s. modify_trap_ctx K t p (\<lambda>_.
               case app_init_context P entry_point user_stack_top_va kernel_stack_top_va s of
                 Ok c \<Rightarrow> kbind (set_arg 0 2) (\<lambda>_. set_arg 1 user_stack_top_va) c
               | Err e \<Rightarrow> (Err e, trap_ctx_default) | Panic \<Rightarrow> (Panic, trap_ctx_default)
               | Hang \<Rightarrow> (Hang, trap_ctx_default)) s) (\<lambda>_.
      kret 2))))))))))))"

section \<open>Exit\<close>

definition process_is_zombie :: "('tab, 'z) kernel_scheme \<Rightarrow> 'tab process_block \<Rightarrow> bool" where
  "process_is_zombie s pb \<longleftrightarrow>
     pb_tasks pb = [] \<or>
     (\<forall>(tid, t) \<in> set (pb_tasks pb). case k_tasks s t of Some tb \<Rightarrow> task_is_zombie tb | None \<Rightarrow> False)"

definition release_user_resource :: "crates \<Rightarrow> task_ref \<Rightarrow> usize \<Rightarrow> (('tab, 'z) kernel_scheme, unit) kop" where
  "release_user_resource K t exit_code =
     kbind (get_task t) (\<lambda>tb.
     kbind (on_task t (\<lambda>tb. (Ok (), tb\<lparr>tb_status := Zombie, tb_exit_code := Some exit_code, tb_user_resource := None\<rparr>))) (\<lambda>_.
     kbind (kopt (tb_user_resource tb)) (\<lambda>tr.
     user_resource_drop K (tb_process tb) tr)))"

text \<open>One round of the first loop of \<open>mark_zombie\<close>: the list of tasks holds the task once more.\<close>

definition zombie_task :: "crates \<Rightarrow> usize \<Rightarrow> task_ref \<Rightarrow> (('tab, 'z) kernel_scheme, unit) kop" where
  "zombie_task K exit_code t =
     kbind (get_task t) (\<lambda>tb.
     if task_is_zombie tb then kret ()
     else
       kbind (release_user_resource K t exit_code) (\<lambda>_ s.
       kassert (Suc (task_strong_count s t) = 3) s))"

text \<open>
  The first process adopts a child. Its inner block is borrowed for that, which panics when it is
  borrowed already: by the loop that runs in it or, being the child, one step before.
\<close>

definition adopt :: "bool \<Rightarrow> proc_ref \<Rightarrow> (('tab, 'z) kernel_scheme, unit) kop" where
  "adopt busy c s =
     (case k_init s of
        None \<Rightarrow> (Panic, s)
      | Some i \<Rightarrow>
          kbind (set_parent c i) (\<lambda>_.
          kbind (kassert (\<not> busy \<and> i \<noteq> c)) (\<lambda>_.
          kbind (get_proc c) (\<lambda>cb.
          add_child i (tracker_id (pb_tracker cb)) c))) s)"

definition clear_tasks :: "crates \<Rightarrow> proc_ref \<Rightarrow> (('tab, 'z) kernel_scheme, unit) kop" where
  "clear_tasks K p =
     kbind (get_proc p) (\<lambda>pb.
     kbind (on_process p (\<lambda>pb. (Ok (), pb\<lparr>pb_tasks := []\<rparr>))) (\<lambda>_.
     kfor (map snd (pb_tasks pb)) (task_release K)))"

definition clear_childrens :: "crates \<Rightarrow> proc_ref \<Rightarrow> (('tab, 'z) kernel_scheme, unit) kop" where
  "clear_childrens K p =
     kbind (get_proc p) (\<lambda>pb.
     kbind (on_process p (\<lambda>pb. (Ok (), pb\<lparr>pb_childrens := []\<rparr>))) (\<lambda>_.
     kfor (map snd (pb_childrens pb)) (process_release K)))"

text \<open>\<open>busy\<close> says whether the inner block of the first process is borrowed by a caller.\<close>

fun zombie_tree :: "nat \<Rightarrow> crates \<Rightarrow> bool \<Rightarrow> usize \<Rightarrow> proc_ref \<Rightarrow> (('tab, 'z) kernel_scheme, unit) kop" where
  "zombie_tree 0 K busy exit_code p s = (Hang, s)"
| "zombie_tree (Suc n) K busy exit_code p s =
     kbind (get_proc p) (\<lambda>pb.
     kbind (kfor (map snd (pb_tasks pb)) (zombie_task K exit_code)) (\<lambda>_.
     kbind (get_proc p) (\<lambda>pb.
     kbind (kfor (map snd (pb_childrens pb)) (\<lambda>c.
              kbind (zombie_tree n K (busy \<or> k_init s = Some p) exit_code c) (\<lambda>_.
              adopt (busy \<or> k_init s = Some p) c))) (\<lambda>_.
     kbind (clear_tasks K p) (\<lambda>_.
     kbind (clear_childrens K p) (\<lambda>_.
     kbind (on_space p (recycle_data_pages K)) (\<lambda>_.
     on_process p (\<lambda>pb. (Ok (), pb\<lparr>pb_exit_code := Some exit_code\<rparr>))))))))) s"

definition process_mark_zombie :: "crates \<Rightarrow> i32 \<Rightarrow> proc_ref \<Rightarrow> (('tab, 'z) kernel_scheme, unit) kop" where
  "process_mark_zombie K exit_code p s = zombie_tree (Suc (k_next_proc s)) K False (scast exit_code) p s"

definition task_mark_zombie :: "crates \<Rightarrow> i32 \<Rightarrow> task_ref \<Rightarrow> (('tab, 'z) kernel_scheme, unit) kop" where
  "task_mark_zombie K exit_code t =
     kbind (get_task t) (\<lambda>tb.
     kbind (klift (task_tid tb)) (\<lambda>tid.
     if tid \<noteq> ROOT_TID then release_user_resource K t (scast exit_code)
     else
       kbind (process_mark_zombie K exit_code (tb_process tb)) (\<lambda>_.
       kbind (get_proc (tb_process tb)) (\<lambda>pb s.
       kassert (process_is_zombie s pb) s))))"

text \<open>The local variable \<open>task\<close> holds the task that was current.\<close>

definition exit_current_and_run_other_task :: "crates \<Rightarrow> i32 \<Rightarrow> (('tab, 'z) kernel_scheme, unit) kop" where
  "exit_current_and_run_other_task K exit_code s =
     (case k_current s of
        Some t \<Rightarrow>
          kbind (\<lambda>s. kassert (task_strong_count s t = 2) s) (\<lambda>_.
          kbind (task_mark_zombie K exit_code t) (\<lambda>_.
          unhold_task K t)) (remove_timer t (hold_task t (set_current None s)))
      | None \<Rightarrow> (Err ProcessHaveNotTask, s))"

section \<open>Wait\<close>

text \<open>What the parent collects; the task is dropped at the end, also when the pointer is bad.\<close>

definition collect_task :: "crates \<Rightarrow> proc_ref \<Rightarrow> usize \<Rightarrow> usize \<Rightarrow> task_ref \<Rightarrow> (('tab, 'z) kernel_scheme, usize) kop" where
  "collect_task K p exit_code_ptr child_tid t =
     kbind (on_process p (\<lambda>pb. (Ok (), pb\<lparr>pb_tasks := bt_remove child_tid (pb_tasks pb)\<rparr>))) (\<lambda>_.
     kbind (\<lambda>s. kassert (Suc (task_strong_count s t) = 1) s) (\<lambda>_.
     kbind (get_task t) (\<lambda>tb.
     kbind (kopt (tb_exit_code tb)) (\<lambda>exit_code.
     kbind (on_error (on_space p (store_user K exit_code_ptr (le_bytes 4 (ucast exit_code :: i32)))) (task_release K t)) (\<lambda>_.
     kbind (task_release K t) (\<lambda>_.
     kret child_tid))))))"

fun wait_tid_loop :: "crates \<Rightarrow> proc_ref \<Rightarrow> usize \<Rightarrow> usize \<Rightarrow> usize list \<Rightarrow> (('tab, 'z) kernel_scheme, usize) kop" where
  "wait_tid_loop K p tid exit_code_ptr [] =
     kbind (get_proc p) (\<lambda>pb. kret (if tid = -1 \<and> pb_tasks pb \<noteq> [] then -2 else -1))"
| "wait_tid_loop K p tid exit_code_ptr (child_tid # child_tids) =
     kbind (get_proc p) (\<lambda>pb.
     kbind (kopt (bt_get (pb_tasks pb) child_tid)) (\<lambda>t.
     kbind (get_task t) (\<lambda>tb.
     if task_is_zombie tb \<and> (tid = -1 \<or> tid = child_tid) then collect_task K p exit_code_ptr child_tid t
     else if \<not> task_is_zombie tb \<and> tid = child_tid then kret (-2)
     else wait_tid_loop K p tid exit_code_ptr child_tids)))"

definition wait_tid :: "crates \<Rightarrow> task_ref \<Rightarrow> usize \<Rightarrow> usize \<Rightarrow> (('tab, 'z) kernel_scheme, usize) kop" where
  "wait_tid K t tid exit_code_ptr =
     kbind (get_task t) (\<lambda>tb.
     kbind (get_proc (tb_process tb)) (\<lambda>pb.
     wait_tid_loop K (tb_process tb) tid exit_code_ptr (map fst (pb_tasks pb))))"

definition collect_process :: "crates \<Rightarrow> proc_ref \<Rightarrow> usize \<Rightarrow> usize \<Rightarrow> proc_ref \<Rightarrow> (('tab, 'z) kernel_scheme, usize) kop" where
  "collect_process K p exit_code_ptr child_pid c =
     kbind (on_process p (\<lambda>pb. (Ok (), pb\<lparr>pb_childrens := bt_remove child_pid (pb_childrens pb)\<rparr>))) (\<lambda>_.
     kbind (\<lambda>s. kassert (Suc (proc_strong_count s c) = 1) s) (\<lambda>_.
     kbind (get_proc c) (\<lambda>cb.
     kbind (kopt (pb_exit_code cb)) (\<lambda>exit_code.
     kbind (on_error (on_space p (store_user K exit_code_ptr (le_bytes 4 (ucast exit_code :: i32)))) (process_release K c)) (\<lambda>_.
     kbind (process_release K c) (\<lambda>_.
     kret child_pid))))))"

fun wait_pid_loop :: "crates \<Rightarrow> proc_ref \<Rightarrow> usize \<Rightarrow> usize \<Rightarrow> usize list \<Rightarrow> (('tab, 'z) kernel_scheme, usize) kop" where
  "wait_pid_loop K p pid exit_code_ptr [] = kret (if pid = -1 then -2 else -1)"
| "wait_pid_loop K p pid exit_code_ptr (child_pid # child_pids) =
     kbind (get_proc p) (\<lambda>pb.
     kbind (kopt (bt_get (pb_childrens pb) child_pid)) (\<lambda>c.
     kbind (get_proc c) (\<lambda>cb s.
     if process_is_zombie s cb \<and> (pid = -1 \<or> pid = child_pid) then collect_process K p exit_code_ptr child_pid c s
     else if \<not> process_is_zombie s cb \<and> pid = child_pid then (Ok (-2), s)
     else wait_pid_loop K p pid exit_code_ptr child_pids s)))"

definition wait_pid :: "crates \<Rightarrow> proc_ref \<Rightarrow> usize \<Rightarrow> usize \<Rightarrow> (('tab, 'z) kernel_scheme, usize) kop" where
  "wait_pid K p pid exit_code_ptr =
     kbind (get_proc p) (\<lambda>pb.
     if pb_childrens pb = [] then kret (-1)
     else wait_pid_loop K p pid exit_code_ptr (map fst (pb_childrens pb)))"

section \<open>Signals of a process\<close>

definition root_task :: "'tab process_block \<Rightarrow> task_ref option" where
  "root_task pb = bt_get (pb_tasks pb) ROOT_TID"

definition root_trap_ctx :: "crates \<Rightarrow> proc_ref \<Rightarrow> (trap_context, 'a) kop \<Rightarrow> (('tab, 'z) kernel_scheme, 'a) kop" where
  "root_trap_ctx K p f =
     kbind (get_proc p) (\<lambda>pb. kbind (kopt (root_task pb)) (\<lambda>t. modify_trap_ctx K t p f))"

definition on_signals ::
    "proc_ref \<Rightarrow> ('tab signal_block \<times> ('tab, 'z) kernel_scheme, 'a) kop \<Rightarrow> (('tab, 'z) kernel_scheme, 'a) kop" where
  "on_signals p f =
     kbind (get_proc p) (\<lambda>pb s.
       case f (pb_signal pb, s) of
         (r, (b, s')) \<Rightarrow> kbind (on_process p (\<lambda>pb. (Ok (), pb\<lparr>pb_signal := b\<rparr>))) (\<lambda>_. klift r) s')"

definition process_kill :: "('act, 'tab) platform \<Rightarrow> usize \<Rightarrow> proc_ref \<Rightarrow> (('tab, 'z) kernel_scheme, unit) kop" where
  "process_kill P signal p =
     on_process p (\<lambda>pb. case try_kill (pf_signals P) signal (pb_signal pb) of (r, b) \<Rightarrow> (r, pb\<lparr>pb_signal := b\<rparr>))"

definition check_bad_signals :: "('act, 'tab) platform \<Rightarrow> proc_ref \<Rightarrow> (('tab, 'z) kernel_scheme, usize option) kop" where
  "check_bad_signals P p = kbind (get_proc p) (\<lambda>pb. kret (get_bad_signal (pf_signals P) (pb_signal pb)))"

definition handle_all_signals :: "('act, 'tab) platform \<Rightarrow> proc_ref \<Rightarrow> (('tab, 'z) kernel_scheme, bool \<times> bool) kop" where
  "handle_all_signals P p =
     on_signals p (signal_loop (pf_signals P) (root_trap_ctx (pf_crates P) p) (signal_iter (pf_signals P)))"

definition signal_return :: "('act, 'tab) platform \<Rightarrow> proc_ref \<Rightarrow> (('tab, 'z) kernel_scheme, usize) kop" where
  "signal_return P p =
     kbind (get_proc p) (\<lambda>pb.
     kbind (kopt (root_task pb)) (\<lambda>_.
     on_signals p (signal_resume (pf_signals P) (root_trap_ctx (pf_crates P) p))))"

definition send_current_task_signal :: "('act, 'tab) platform \<Rightarrow> usize \<Rightarrow> (('tab, 'z) kernel_scheme, unit) kop" where
  "send_current_task_signal P signal =
     kbind current_task (\<lambda>t. kbind (get_task t) (\<lambda>tb. process_kill P signal (tb_process tb)))"

text \<open>
  One round of \<open>handle_current_task_signals\<close>: \<open>None\<close> when the task is frozen and gave up
  the processor, otherwise the result.
\<close>

definition handle_signals_round :: "('act, 'tab) platform \<Rightarrow> (('tab, 'z) kernel_scheme, usize option option) kop" where
  "handle_signals_round P =
     kbind current_task (\<lambda>t.
     kbind (get_task t) (\<lambda>tb.
     kbind (handle_all_signals P (tb_process tb)) (\<lambda>(killed, frozen).
     if \<not> frozen \<or> killed then
       kbind (check_bad_signals P (tb_process tb)) (\<lambda>bad. kret (Some bad))
     else kbind suspend_current_and_run_other_task (\<lambda>_. kret None))))"

section \<open>Finding a process\<close>

fun get_root_ready :: "usize \<Rightarrow> task_ref list \<Rightarrow> (('tab, 'z) kernel_scheme, task_ref option) kop" where
  "get_root_ready pid [] = kret None"
| "get_root_ready pid (t # ts) =
     kbind (get_task t) (\<lambda>tb.
     kbind (klift (task_tid tb)) (\<lambda>tid.
     if tid = 0 then
       kbind (get_proc (tb_process tb)) (\<lambda>pb.
       if tracker_id (pb_tracker pb) = pid then kret (Some t) else get_root_ready pid ts)
     else get_root_ready pid ts))"

definition get_process :: "usize \<Rightarrow> (('tab, 'z) kernel_scheme, proc_ref option) kop" where
  "get_process pid s =
     (case k_current s of
        Some t \<Rightarrow>
          kbind (get_task t) (\<lambda>tb.
          kbind (get_proc (tb_process tb)) (\<lambda>pb.
          kret (if sint pid < sint ROOT_PID \<or> tracker_id (pb_tracker pb) = pid then Some (tb_process tb) else None))) s
      | None \<Rightarrow>
          kbind (get_root_ready pid (k_ready s)) (\<lambda>found.
          case found of
            Some t \<Rightarrow> kbind (get_task t) (\<lambda>tb. kret (Some (tb_process tb)))
          | None \<Rightarrow> kret None) s)"

end
