(* ===== verification/Files.thy ===== *)
theory Files
  imports Sync Processes
begin

text \<open>
  Files (src/fs): pipes (pipe.rs), the console (stdio.rs, src/lang/console.rs) and inodes
  (inode.rs), all used through the trait \<open>File\<close>.

  The state is extended by the open files, the ring buffers of the pipes, the console and the file
  system. An open file is an \<open>Arc\<close> that file descriptor tables and suspended calls hold; its
  strong count is computed from them, and so are the strong and weak counts of a ring buffer: the
  readable ends that are open hold it, the writable ends only refer to it.

  A call that suspends the task is cut into rounds. A round returns what the call keeps in its local
  variables, and the result if it has returned; otherwise the task has given up the processor.

  The file system of the crate frontier_fs is the record \<open>fs_crate\<close> over the types of inodes
  and of the state of the file system. The characters that the firmware has received from the
  console and those that were sent to it are lists.
\<close>

unbundle bit_operations_syntax

section \<open>State\<close>

type_synonym ring_ref = nat

datatype pipe = Read ring_ref | Write ring_ref

record 'i os_inode =
  oi_flags :: u32
  oi_offset :: usize
  oi_inode :: 'i

datatype 'i open_file = Stdin | Stdout | PipeFile pipe | InodeFile "'i os_inode"

record ring_mutex =
  rm_locked :: bool
  rm_inner :: ring_buffer

record ('tab, 'i, 'fs) os_kernel = "'tab sync_kernel" +
  k_files :: "'i open_file list"
  k_file_held :: "file_ref \<Rightarrow> nat"
  k_rings :: "ring_mutex list"
  k_ring_held :: "ring_ref \<Rightarrow> nat"
  k_stdin_locked :: bool
  k_stdout_locked :: bool
  k_console_in :: "u8 list"
  k_console_out :: "u8 list"
  k_fs :: 'fs

record ('i, 'fs) fs_crate =
  of_from_bits :: "u32 \<Rightarrow> u32 option"
  of_is_create :: "u32 \<Rightarrow> bool"
  OF_READ :: u32
  OF_RDIR :: u32
  OF_RWDIR :: u32
  fs_root_inode :: 'i
  fs_readable :: "'fs \<Rightarrow> 'i \<Rightarrow> bool"
  fs_writable :: "'fs \<Rightarrow> 'i \<Rightarrow> bool"
  fs_executable :: "'fs \<Rightarrow> 'i \<Rightarrow> bool"
  fs_bitmap_index :: "'i \<Rightarrow> u32"
  fs_list_child_names :: "'i \<Rightarrow> 'fs \<Rightarrow> (ffs_error + string list) \<times> 'fs"
  fs_get_child_inode :: "'i \<Rightarrow> string \<Rightarrow> 'fs \<Rightarrow> (ffs_error + 'i option) \<times> 'fs"
  fs_create_child_inode :: "'i \<Rightarrow> string \<Rightarrow> u32 \<Rightarrow> 'fs \<Rightarrow> (ffs_error + 'i) \<times> 'fs"
  fs_remove_child_inode :: "'i \<Rightarrow> string \<Rightarrow> 'fs \<Rightarrow> (ffs_error + unit) \<times> 'fs"
  fs_read_all :: "'i \<Rightarrow> 'fs \<Rightarrow> (ffs_error + u8 list) \<times> 'fs"
  fs_read_buffer :: "'i \<Rightarrow> nat \<Rightarrow> usize \<Rightarrow> 'fs \<Rightarrow> (ffs_error + u8 list) \<times> 'fs"
  fs_write_buffer :: "'i \<Rightarrow> u8 list \<Rightarrow> usize \<Rightarrow> 'fs \<Rightarrow> (ffs_error + nat) \<times> 'fs"

section \<open>Reference counts of files and ring buffers\<close>

definition fd_count :: "('tab, 'z) kernel_scheme \<Rightarrow> file_ref \<Rightarrow> nat" where
  "fd_count s f =
     sum_list (map (\<lambda>p. case k_procs s p of Some pb \<Rightarrow> count_list (pb_fd_table pb) (Some f) | None \<Rightarrow> 0)
       [0..<k_next_proc s])"

definition file_open :: "('tab, 'i, 'fs) os_kernel \<Rightarrow> file_ref \<Rightarrow> bool" where
  "file_open s f \<longleftrightarrow> 0 < fd_count s f + k_file_held s f"

definition open_ends :: "('tab, 'i, 'fs) os_kernel \<Rightarrow> 'i open_file \<Rightarrow> nat" where
  "open_ends s x = length (filter (\<lambda>f. k_files s ! f = x \<and> file_open s f) [0..<length (k_files s)])"

definition ring_strong :: "('tab, 'i, 'fs) os_kernel \<Rightarrow> ring_ref \<Rightarrow> nat" where
  "ring_strong s r = open_ends s (PipeFile (Read r)) + k_ring_held s r"

definition ring_weak :: "('tab, 'i, 'fs) os_kernel \<Rightarrow> ring_ref \<Rightarrow> nat" where
  "ring_weak s r = open_ends s (PipeFile (Write r))"

section \<open>Pipes\<close>

definition pipe_new :: "nat \<Rightarrow> (('tab, 'i, 'fs) os_kernel, pipe) kop" where
  "pipe_new capacity =
     kbind (klift (ring_buffer_new capacity)) (\<lambda>rb s.
       (Ok (Read (length (k_rings s))), s\<lparr>k_rings := k_rings s @ [\<lparr>rm_locked = False, rm_inner = rb\<rparr>]\<rparr>))"

fun writable_fork :: "('tab, 'i, 'fs) os_kernel \<Rightarrow> pipe \<Rightarrow> pipe option" where
  "writable_fork s (Read tap) = Some (Write tap)"
| "writable_fork s (Write tap) = (if 0 < ring_strong s tap then Some (Write tap) else None)"

fun readable_fork :: "('tab, 'i, 'fs) os_kernel \<Rightarrow> pipe \<Rightarrow> pipe option" where
  "readable_fork s (Write tap) = (if 0 < ring_strong s tap then Some (Read tap) else None)"
| "readable_fork s (Read tap) = Some (Read tap)"

fun pipe_clone :: "pipe \<Rightarrow> pipe" where
  "pipe_clone (Read tap) = Read tap"
| "pipe_clone (Write tap) = Write tap"

fun all_write_end_closed :: "('tab, 'i, 'fs) os_kernel \<Rightarrow> pipe \<Rightarrow> bool" where
  "all_write_end_closed s (Write buffer) = False"
| "all_write_end_closed s (Read buffer) = (ring_weak s buffer = 0)"

fun all_read_end_closed :: "('tab, 'i, 'fs) os_kernel \<Rightarrow> pipe \<Rightarrow> bool" where
  "all_read_end_closed s (Read buffer) = False"
| "all_read_end_closed s (Write buffer) = (ring_strong s buffer = 0)"

section \<open>Buffers in user memory\<close>

text \<open>
  The iterator of \<open>ByteBuffers\<close> over slices of frames: its position is that of the iterator over
  the bytes that the slices hold at the moment, and a byte it writes goes into the frame.
\<close>

record user_iter =
  ui_slices :: "byte_slice list"
  ui_index :: nat
  ui_offset :: nat

definition user_into_iter :: "byte_slice list \<Rightarrow> user_iter" where
  "user_into_iter slices = \<lparr>ui_slices = slices, ui_index = 0, ui_offset = 0\<rparr>"

definition iter_view :: "memory \<Rightarrow> user_iter \<Rightarrow> byte_iter" where
  "iter_view M it = \<lparr>it_buffer = map (slice_bytes M) (ui_slices it), it_index = ui_index it, it_offset = ui_offset it\<rparr>"

definition iter_move :: "user_iter \<Rightarrow> byte_iter \<Rightarrow> user_iter" where
  "iter_move it v = it\<lparr>ui_index := it_index v, ui_offset := it_offset v\<rparr>"

definition user_next :: "user_iter \<Rightarrow> ('tab, 'z) kernel_scheme \<Rightarrow> u8 option \<times> user_iter" where
  "user_next it s =
     (case iter_next (iter_view (mem (k_machine s)) it) of (b, v) \<Rightarrow> (b, iter_move it v))"

definition user_next_mut :: "u8 \<Rightarrow> user_iter \<Rightarrow> (('tab, 'z) kernel_scheme, user_iter) kop" where
  "user_next_mut byte it s =
     (case iter_next_mut byte (iter_view (mem (k_machine s)) it) of
        (Ok _, v) \<Rightarrow>
          (case ui_slices it ! it_index v of
             (p, a, b) \<Rightarrow> (Ok (iter_move it v), s\<lparr>k_machine := (k_machine s)\<lparr>mem :=
                frame_set_byte p (a + (it_offset v - 1)) byte (mem (k_machine s))\<rparr>\<rparr>))
      | (Err e, _) \<Rightarrow> (Err e, s) | (Panic, _) \<Rightarrow> (Panic, s) | (Hang, _) \<Rightarrow> (Hang, s))"

section \<open>Reading and writing a pipe\<close>

text \<open>
  The local variables of a transfer: the iterator, the size to transfer, the size already
  transferred, and whether the call holds the upgraded reference to the ring buffer.
\<close>

record transfer =
  tr_iter :: user_iter
  tr_total :: nat
  tr_done :: nat
  tr_tap :: bool

definition transfer_new :: "byte_slice list \<times> usize \<Rightarrow> transfer" where
  "transfer_new = (\<lambda>(slices, len). \<lparr>tr_iter = user_into_iter slices, tr_total = unat len, tr_done = 0, tr_tap = False\<rparr>)"

definition set_ring :: "ring_ref \<Rightarrow> ring_mutex \<Rightarrow> ('tab, 'i, 'fs) os_kernel \<Rightarrow> ('tab, 'i, 'fs) os_kernel" where
  "set_ring r m s = s\<lparr>k_rings := (k_rings s)[r := m]\<rparr>"

definition on_ring :: "ring_ref \<Rightarrow> (ring_buffer, 'a) kop \<Rightarrow> (('tab, 'i, 'fs) os_kernel, 'a) kop" where
  "on_ring r f s = (case f (rm_inner (k_rings s ! r)) of (x, rb) \<Rightarrow> (x, set_ring r ((k_rings s ! r)\<lparr>rm_inner := rb\<rparr>) s))"

definition try_lock :: "ring_ref \<Rightarrow> (('tab, 'i, 'fs) os_kernel, bool) kop" where
  "try_lock r s =
     (if rm_locked (k_rings s ! r) then (Ok False, s) else (Ok True, set_ring r ((k_rings s ! r)\<lparr>rm_locked := True\<rparr>) s))"

definition unlock :: "ring_ref \<Rightarrow> (('tab, 'i, 'fs) os_kernel, unit) kop" where
  "unlock r s = (Ok (), set_ring r ((k_rings s ! r)\<lparr>rm_locked := False\<rparr>) s)"

fun read_bytes :: "nat \<Rightarrow> ring_ref \<Rightarrow> transfer \<Rightarrow> (('tab, 'i, 'fs) os_kernel, transfer) kop" where
  "read_bytes 0 r c = kret c"
| "read_bytes (Suc n) r c =
     kbind (on_ring r read_byte) (\<lambda>b.
     case b of
       Some byte \<Rightarrow>
         kbind (user_next_mut byte (tr_iter c)) (\<lambda>it.
         read_bytes n r (c\<lparr>tr_iter := it, tr_done := tr_done c + 1\<rparr>))
     | None \<Rightarrow> kpanic)"

definition give_up :: "transfer \<Rightarrow> (('tab, 'i, 'fs) os_kernel, transfer \<times> nat option) kop" where
  "give_up c = kbind suspend_current_and_run_other_task (\<lambda>_. kret (c, None))"

definition read_round :: "ring_ref \<Rightarrow> transfer \<Rightarrow> (('tab, 'i, 'fs) os_kernel, transfer \<times> nat option) kop" where
  "read_round r c =
     (if tr_done c < tr_total c then
        kbind (try_lock r) (\<lambda>locked s.
        if locked then
          (let wait_read_size = min (rb_len (rm_inner (k_rings s ! r))) (tr_total c - tr_done c) in
           if wait_read_size = 0 then
             if all_write_end_closed s (Read r) then kbind (unlock r) (\<lambda>_. kret (c, Some (tr_done c))) s
             else kbind (unlock r) (\<lambda>_. give_up c) s
           else
             kbind (on_error (read_bytes wait_read_size r c) (unlock r)) (\<lambda>c.
             kbind (unlock r) (\<lambda>_. give_up c)) s)
        else give_up c s)
      else kret (c, Some (tr_done c)))"

definition pipe_read :: "pipe \<Rightarrow> transfer \<Rightarrow> (('tab, 'i, 'fs) os_kernel, transfer \<times> nat option) kop" where
  "pipe_read self c =
     (case self of
        Write _ \<Rightarrow> kpanic
      | Read tap \<Rightarrow> if tr_total c = 0 then kret (c, Some 0) else read_round tap c)"

fun write_bytes :: "nat \<Rightarrow> ring_ref \<Rightarrow> transfer \<Rightarrow> (('tab, 'i, 'fs) os_kernel, transfer) kop" where
  "write_bytes 0 r c = kret c"
| "write_bytes (Suc n) r c = (\<lambda>s.
     case user_next (tr_iter c) s of
       (Some byte, it) \<Rightarrow>
         kbind (on_ring r (write_byte byte)) (\<lambda>_.
         write_bytes n r (c\<lparr>tr_iter := it, tr_done := tr_done c + 1\<rparr>)) s
     | (None, it) \<Rightarrow> (Panic, s))"

definition hold_ring :: "ring_ref \<Rightarrow> (('tab, 'i, 'fs) os_kernel, unit) kop" where
  "hold_ring r s = (Ok (), s\<lparr>k_ring_held := (k_ring_held s)(r := k_ring_held s r + 1)\<rparr>)"

definition unhold_ring :: "ring_ref \<Rightarrow> (('tab, 'i, 'fs) os_kernel, unit) kop" where
  "unhold_ring r s = (Ok (), s\<lparr>k_ring_held := (k_ring_held s)(r := k_ring_held s r - 1)\<rparr>)"

text \<open>The end of \<open>write\<close>, where the upgraded reference goes out of scope.\<close>

definition write_finish :: "ring_ref \<Rightarrow> transfer \<Rightarrow> (('tab, 'i, 'fs) os_kernel, transfer \<times> nat option) kop" where
  "write_finish r c = kbind (unhold_ring r) (\<lambda>_. kret (c\<lparr>tr_tap := False\<rparr>, Some (tr_done c)))"

text \<open>The body of the loop of \<open>write\<close> for a transfer that is not complete.\<close>

definition write_turn :: "ring_ref \<Rightarrow> transfer \<Rightarrow> (('tab, 'i, 'fs) os_kernel, transfer \<times> nat option) kop" where
  "write_turn r c =
     kbind (try_lock r) (\<lambda>locked s.
     if locked then
       (let rb = rm_inner (k_rings s ! r);
            wait_write_size = min (rb_capacity rb - rb_len rb) (tr_total c - tr_done c) in
        if wait_write_size = 0 then
          if all_read_end_closed s (Write r) then kbind (unlock r) (\<lambda>_. write_finish r c) s
          else kbind (unlock r) (\<lambda>_. give_up c) s
        else
          kbind (on_error (write_bytes wait_write_size r c) (kbind (unlock r) (\<lambda>_. unhold_ring r))) (\<lambda>c.
          kbind (unlock r) (\<lambda>_. give_up c)) s)
     else give_up c s)"

text \<open>
  One turn of the loop of \<open>write\<close>. The reference that the previous turn upgraded goes out of
  scope first; the one of this turn is held while the task is suspended.
\<close>

definition write_round :: "ring_ref \<Rightarrow> transfer \<Rightarrow> (('tab, 'i, 'fs) os_kernel, transfer \<times> nat option) kop" where
  "write_round r c =
     kbind (if tr_tap c then unhold_ring r else kret ()) (\<lambda>_ s.
     if ring_strong s r = 0 then (Ok (c\<lparr>tr_tap := False\<rparr>, Some (tr_done c)), s)
     else
       kbind (hold_ring r) (\<lambda>_.
       if tr_total c \<le> tr_done c then write_finish r c else write_turn r (c\<lparr>tr_tap := True\<rparr>)) s)"

definition pipe_write :: "pipe \<Rightarrow> transfer \<Rightarrow> (('tab, 'i, 'fs) os_kernel, transfer \<times> nat option) kop" where
  "pipe_write self c =
     (case self of
        Read _ \<Rightarrow> kpanic
      | Write tap \<Rightarrow> if tr_total c = 0 then kret (c, Some 0) else write_round tap c)"

section \<open>The console\<close>

definition NULL :: u8 where "NULL = 0"

text \<open>
  The lock of the standard input is kept while the task waits for characters: \<open>tr_tap\<close> says
  whether this call holds it. One round reads characters until the call is done or none is there.
\<close>

fun stdin_chars :: "nat \<Rightarrow> transfer \<Rightarrow> (('tab, 'i, 'fs) os_kernel, transfer \<times> nat option) kop" where
  "stdin_chars 0 c = (\<lambda>s. (Ok (c\<lparr>tr_tap := False\<rparr>, Some (tr_done c)), s\<lparr>k_stdin_locked := False\<rparr>))"
| "stdin_chars (Suc n) c = (\<lambda>s.
     case k_console_in s of
       ch # chs \<Rightarrow>
         if ch = NULL
         then (Ok (c\<lparr>tr_tap := False\<rparr>, Some (tr_done c)), s\<lparr>k_console_in := chs, k_stdin_locked := False\<rparr>)
         else
           kbind (on_error (user_next_mut ch (tr_iter c)) (\<lambda>s. (Ok (), s\<lparr>k_stdin_locked := False\<rparr>))) (\<lambda>it.
           stdin_chars n (c\<lparr>tr_iter := it, tr_done := tr_done c + 1\<rparr>)) (s\<lparr>k_console_in := chs\<rparr>)
     | [] \<Rightarrow> give_up c s)"

definition stdin_read :: "transfer \<Rightarrow> (('tab, 'i, 'fs) os_kernel, transfer \<times> nat option) kop" where
  "stdin_read c s =
     (if tr_tap c then stdin_chars (tr_total c - tr_done c) c s
      else if k_stdin_locked s then give_up c s
      else stdin_chars (tr_total c - tr_done c) (c\<lparr>tr_tap := True\<rparr>) (s\<lparr>k_stdin_locked := True\<rparr>))"

text \<open>\<open>print!\<close>: \<open>c as u8\<close> for every character.\<close>

definition write_str :: "string \<Rightarrow> u8 list" where
  "write_str str = map (\<lambda>c. of_nat (of_char c)) str"

definition stdout_write :: "byte_slice list \<Rightarrow> transfer \<Rightarrow> (('tab, 'i, 'fs) os_kernel, transfer \<times> nat option) kop" where
  "stdout_write slices c s =
     (if k_stdout_locked s then give_up c s
      else
        (case into_utf8_str (byte_buffers_new (map (slice_bytes (mem (k_machine s))) slices) (of_nat (tr_total c))) of
           Ok str \<Rightarrow> (Ok (c, Some (tr_total c)), s\<lparr>k_console_out := k_console_out s @ write_str str\<rparr>)
         | Err e \<Rightarrow> (Err e, s) | Panic \<Rightarrow> (Panic, s) | Hang \<Rightarrow> (Hang, s)))"

section \<open>Inodes\<close>

definition must_be_readable :: "('i, 'fs) fs_crate \<Rightarrow> 'i \<Rightarrow> (('tab, 'i, 'fs) os_kernel, unit) kop" where
  "must_be_readable F i s =
     (if fs_readable F (k_fs s) i then (Ok (), s) else (Err (FileMustBeReadable (fs_bitmap_index F i)), s))"

definition must_be_writable :: "('i, 'fs) fs_crate \<Rightarrow> 'i \<Rightarrow> (('tab, 'i, 'fs) os_kernel, unit) kop" where
  "must_be_writable F i s =
     (if fs_writable F (k_fs s) i then (Ok (), s) else (Err (FileMustBeWritable (fs_bitmap_index F i)), s))"

definition must_be_executable :: "('i, 'fs) fs_crate \<Rightarrow> 'i \<Rightarrow> (('tab, 'i, 'fs) os_kernel, unit) kop" where
  "must_be_executable F i s =
     (if fs_executable F (k_fs s) i then (Ok (), s) else (Err (FileMustBeExecutable (fs_bitmap_index F i)), s))"

definition on_fs :: "('fs \<Rightarrow> (ffs_error + 'a) \<times> 'fs) \<Rightarrow> (('tab, 'i, 'fs) os_kernel, 'a) kop" where
  "on_fs f s =
     (case f (k_fs s) of
        (Inr x, fs) \<Rightarrow> (Ok x, s\<lparr>k_fs := fs\<rparr>)
      | (Inl e, fs) \<Rightarrow> (Err (FileSystemError e), s\<lparr>k_fs := fs\<rparr>))"

definition os_inode_new :: "u32 \<Rightarrow> 'i \<Rightarrow> 'i os_inode" where
  "os_inode_new flags inode = \<lparr>oi_flags = flags, oi_offset = 0, oi_inode = inode\<rparr>"

definition inode_ls :: "('i, 'fs) fs_crate \<Rightarrow> 'i os_inode \<Rightarrow> (('tab, 'i, 'fs) os_kernel, string list) kop" where
  "inode_ls F o' = kbind (must_be_readable F (oi_inode o')) (\<lambda>_. on_fs (fs_list_child_names F (oi_inode o')))"

definition get_child :: "('i, 'fs) fs_crate \<Rightarrow> string \<Rightarrow> u32 \<Rightarrow> 'i os_inode \<Rightarrow> (('tab, 'i, 'fs) os_kernel, 'i os_inode) kop" where
  "get_child F name flags o' =
     kbind (must_be_readable F (oi_inode o')) (\<lambda>_.
     kbind (on_fs (fs_get_child_inode F (oi_inode o') name)) (\<lambda>found.
     case found of
       Some child \<Rightarrow> kret (os_inode_new flags child)
     | None \<Rightarrow>
         if of_is_create F flags then
           kbind (on_fs (fs_create_child_inode F (oi_inode o') name flags)) (\<lambda>child. kret (os_inode_new flags child))
         else kerr (FileDoesNotExists name)))"

definition create_child_inode :: "('i, 'fs) fs_crate \<Rightarrow> string \<Rightarrow> u32 \<Rightarrow> 'i os_inode \<Rightarrow> (('tab, 'i, 'fs) os_kernel, 'i os_inode) kop" where
  "create_child_inode F name flags o' =
     kbind (must_be_writable F (oi_inode o')) (\<lambda>_.
     kbind (on_fs (fs_create_child_inode F (oi_inode o') name flags)) (\<lambda>child. kret (os_inode_new flags child)))"

definition remove_child :: "('i, 'fs) fs_crate \<Rightarrow> string \<Rightarrow> 'i os_inode \<Rightarrow> (('tab, 'i, 'fs) os_kernel, unit) kop" where
  "remove_child F name o' =
     kbind (must_be_writable F (oi_inode o')) (\<lambda>_. on_fs (fs_remove_child_inode F (oi_inode o') name))"

definition read_all :: "('i, 'fs) fs_crate \<Rightarrow> 'i os_inode \<Rightarrow> (('tab, 'i, 'fs) os_kernel, u8 list) kop" where
  "read_all F o' = kbind (must_be_readable F (oi_inode o')) (\<lambda>_. on_fs (fs_read_all F (oi_inode o')))"

text \<open>The offset and the size read so far are kept in the inode as the loop goes on.\<close>

fun inode_read_slices :: "('i, 'fs) fs_crate \<Rightarrow> file_ref \<Rightarrow> 'i os_inode \<Rightarrow> nat \<Rightarrow> byte_slice list \<Rightarrow> (('tab, 'i, 'fs) os_kernel, nat) kop" where
  "inode_read_slices F f o' total_size [] = kret total_size"
| "inode_read_slices F f o' total_size ((p, a, b) # slices) =
     kbind (on_fs (fs_read_buffer F (oi_inode o') (b - a) (oi_offset o'))) (\<lambda>bytes.
     if bytes = [] then kret total_size
     else (\<lambda>s.
       let o'' = o'\<lparr>oi_offset := oi_offset o' + of_nat (length bytes)\<rparr> in
       inode_read_slices F f o'' (total_size + length bytes) slices
         (s\<lparr>k_machine := (k_machine s)\<lparr>mem := frame_write p a bytes (mem (k_machine s))\<rparr>,
            k_files := (k_files s)[f := InodeFile o'']\<rparr>)))"

definition inode_read :: "('i, 'fs) fs_crate \<Rightarrow> file_ref \<Rightarrow> 'i os_inode \<Rightarrow> byte_slice list \<Rightarrow> (('tab, 'i, 'fs) os_kernel, nat) kop" where
  "inode_read F f o' slices = kbind (must_be_readable F (oi_inode o')) (\<lambda>_. inode_read_slices F f o' 0 slices)"

fun inode_write_slices :: "('i, 'fs) fs_crate \<Rightarrow> file_ref \<Rightarrow> 'i os_inode \<Rightarrow> nat \<Rightarrow> byte_slice list \<Rightarrow> (('tab, 'i, 'fs) os_kernel, nat) kop" where
  "inode_write_slices F f o' total_size [] = kret total_size"
| "inode_write_slices F f o' total_size (sl # slices) = (\<lambda>s.
     let bytes = slice_bytes (mem (k_machine s)) sl in
     kbind (on_fs (fs_write_buffer F (oi_inode o') bytes (oi_offset o'))) (\<lambda>n.
     kbind (kassert (n = length bytes)) (\<lambda>_ s.
       let o'' = o'\<lparr>oi_offset := oi_offset o' + of_nat n\<rparr> in
       inode_write_slices F f o'' (total_size + n) slices (s\<lparr>k_files := (k_files s)[f := InodeFile o'']\<rparr>))) s)"

definition inode_write :: "('i, 'fs) fs_crate \<Rightarrow> file_ref \<Rightarrow> 'i os_inode \<Rightarrow> byte_slice list \<Rightarrow> (('tab, 'i, 'fs) os_kernel, nat) kop" where
  "inode_write F f o' slices = kbind (must_be_writable F (oi_inode o')) (\<lambda>_. inode_write_slices F f o' 0 slices)"

text \<open>\<open>path.split("/")\<close>; an empty path gives one empty name.\<close>

fun split_path :: "string \<Rightarrow> string \<Rightarrow> string list" where
  "split_path name [] = [name]"
| "split_path name (c # cs) = (if c = CHR ''/'' then name # split_path [] cs else split_path (name @ [c]) cs)"

fun find_names :: "('i, 'fs) fs_crate \<Rightarrow> u32 \<Rightarrow> string list \<Rightarrow> 'i os_inode \<Rightarrow> (('tab, 'i, 'fs) os_kernel, 'i os_inode) kop" where
  "find_names F flags [] parent = kret parent"
| "find_names F flags (name # names) parent =
     kbind (get_child F name (if names = [] then flags else OF_RDIR F) parent) (find_names F flags names)"

definition root_inode :: "('i, 'fs) fs_crate \<Rightarrow> 'i os_inode" where
  "root_inode F = os_inode_new (OF_RWDIR F) (fs_root_inode F)"

definition find_inode :: "('i, 'fs) fs_crate \<Rightarrow> string \<Rightarrow> u32 \<Rightarrow> (('tab, 'i, 'fs) os_kernel, 'i os_inode) kop" where
  "find_inode F path flags =
     (let names = split_path [] path in
      find_names F flags (if hd names = [] then tl names else names) (root_inode F))"

end
