(* ===== verification/Pipe_Properties.thy ===== *)
theory Pipe_Properties
  imports Files Area_Data Sync_Properties
begin

text \<open>
  Pipes under interleaving: the bytes that all readers of a pipe receive, in the order in which they
  receive them, are the bytes that all writers put in, in their order.
\<close>

section \<open>Slices of user memory\<close>

lemma slice_bytes_length [simp]: "length (slice_bytes M sl) = snd (snd sl) - fst (snd sl)"
  by (cases sl) (simp add: slice_bytes_def)

lemma slice_bytes_set:
  assumes "a + j < e"
  shows "slice_bytes (frame_set_byte p (a + j) b M) (p, a, e) = (slice_bytes M (p, a, e))[j := b]"
proof (rule nth_equalityI)
  fix i assume "i < length (slice_bytes (frame_set_byte p (a + j) b M) (p, a, e))"
  then have i: "i < e - a" by simp
  show "slice_bytes (frame_set_byte p (a + j) b M) (p, a, e) ! i = (slice_bytes M (p, a, e))[j := b] ! i"
    using i assms by (cases "i = j") (simp_all add: slice_bytes_def frame_byte_set_same frame_byte_set_other)
qed simp

lemma slice_bytes_other: "p \<noteq> fst sl \<Longrightarrow> slice_bytes (frame_set_byte p j b M) sl = slice_bytes M sl"
  by (cases sl) (simp add: slice_bytes_def frame_byte_set_other)

lemma slices_set:
  assumes "distinct (map fst sls)" and "i < length sls" and "sls ! i = (p, a, e)" and "a + j < e"
  shows "map (slice_bytes (frame_set_byte p (a + j) b M)) sls =
    (map (slice_bytes M) sls)[i := (map (slice_bytes M) sls ! i)[j := b]]"
proof (rule nth_equalityI)
  fix k assume "k < length (map (slice_bytes (frame_set_byte p (a + j) b M)) sls)"
  then have k: "k < length sls" by simp
  show "map (slice_bytes (frame_set_byte p (a + j) b M)) sls ! k =
      (map (slice_bytes M) sls)[i := (map (slice_bytes M) sls ! i)[j := b]] ! k"
  proof (cases "k = i")
    case True
    then show ?thesis using assms slice_bytes_set [OF assms(4)] by simp
  next
    case False
    then have "fst (sls ! k) \<noteq> p"
      using nth_eq_iff_index_eq [OF assms(1), of k i] False assms(2,3) k by auto
    then show ?thesis using False k by (simp add: slice_bytes_other)
  qed
qed simp

lemma iter_next_mut_at:
  assumes "iter_next_mut b it = (Ok (), it')" and "iter_inv it"
  shows "it_index it' < length (it_buffer it) \<and> 0 < it_offset it' \<and>
    it_offset it' \<le> length (it_buffer it ! it_index it') \<and>
    it_buffer it' = (it_buffer it)[it_index it' := (it_buffer it ! it_index it')[it_offset it' - 1 := b]]"
  using assms
proof (induction b it rule: iter_next_mut.induct)
  case (1 b it)
  let ?next = "it\<lparr>it_index := it_index it + 1, it_offset := 0\<rparr>"
  show ?case
  proof (cases "it_index it < length (it_buffer it)")
    case index: True
    show ?thesis
    proof (cases "it_offset it < length (it_buffer it ! it_index it)")
      case True
      then have "iter_next_mut b it = (Ok (), it\<lparr>it_offset := it_offset it + 1,
          it_buffer := (it_buffer it)[it_index it := (it_buffer it ! it_index it)[it_offset it := b]]\<rparr>)"
        using index by (subst iter_next_mut.simps) (simp add: Let_def)
      then show ?thesis using 1(2) index True by auto
    next
      case False
      then have e: "iter_next_mut b it = iter_next_mut b ?next"
        using index by (subst iter_next_mut.simps) simp
      show ?thesis using 1(1) [OF index refl False 1(2) [unfolded e] iter_inv_advance] by simp
    qed
  next
    case False
    then have "iter_next_mut b it = (Err EOB, it)" by (subst iter_next_mut.simps) simp
    then show ?thesis using 1(2) by simp
  qed
qed

section \<open>Transfers\<close>

definition transfer_bytes :: "memory \<Rightarrow> transfer \<Rightarrow> u8 list" where
  "transfer_bytes M c = concat (map (slice_bytes M) (ui_slices (tr_iter c)))"

text \<open>
  The slices of the buffer lie in different frames, as the pages of a user space do, and the
  iterator stands where the transfer is.
\<close>

definition transfer_ok :: "transfer \<Rightarrow> bool" where
  "transfer_ok c \<longleftrightarrow>
     distinct (map fst (ui_slices (tr_iter c))) \<and>
     (\<forall>M. iter_inv (iter_view M (tr_iter c)) \<and> iter_pos (iter_view M (tr_iter c)) = tr_done c)"

lemma view_lengths:
  assumes "map length (it_buffer v) = map length (it_buffer v')" and "it_index v = it_index v'" and "it_offset v = it_offset v'"
  shows "iter_inv v = iter_inv v'" and "iter_pos v = iter_pos v'"
proof -
  have l: "length (it_buffer v) = length (it_buffer v')" using assms(1) by (metis length_map)
  have "length (it_buffer v ! i) = length (it_buffer v' ! i)" if "i < length (it_buffer v')" for i
    using that assms(1) l by (metis nth_map)
  then show "iter_inv v = iter_inv v'" using assms(2,3) l by (auto simp: iter_inv_def)
  have "map length (take n (it_buffer v)) = map length (take n (it_buffer v'))" for n
    using assms(1) by (metis take_map)
  then show "iter_pos v = iter_pos v'" using assms(2,3) by (simp add: iter_pos_def length_concat)
qed

lemma iter_view_any:
  "iter_inv (iter_view M it) = iter_inv (iter_view M' it)" "iter_pos (iter_view M it) = iter_pos (iter_view M' it)"
  using view_lengths [of "iter_view M it" "iter_view M' it"] by (simp_all add: iter_view_def comp_def)

lemma transfer_okI:
  assumes "distinct (map fst (ui_slices (tr_iter c)))" and "iter_inv (iter_view M (tr_iter c))"
    and "iter_pos (iter_view M (tr_iter c)) = tr_done c"
  shows "transfer_ok c"
  unfolding transfer_ok_def using assms iter_view_any [of M "tr_iter c"] by auto

lemma transfer_new_ok:
  assumes "distinct (map fst slices)"
  shows "transfer_ok (transfer_new (slices, len))"
  by (rule transfer_okI [of _ "\<lambda>_ _. 0"])
    (simp_all add: assms transfer_new_def user_into_iter_def iter_view_def iter_inv_def iter_pos_def)

lemma transfer_bytes_view: "transfer_bytes M c = concat (it_buffer (iter_view M (tr_iter c)))"
  by (simp add: transfer_bytes_def iter_view_def)

lemma user_next_step:
  assumes ok: "transfer_ok c" and n: "user_next (tr_iter c) s = (Some b, it)"
  shows "tr_done c < length (transfer_bytes (mem (k_machine s)) c)"
    and "b = transfer_bytes (mem (k_machine s)) c ! tr_done c"
    and "transfer_ok (c\<lparr>tr_iter := it, tr_done := tr_done c + 1\<rparr>)" and "ui_slices it = ui_slices (tr_iter c)"
proof -
  let ?M = "mem (k_machine s)" let ?v = "iter_view ?M (tr_iter c)"
  have i: "iter_inv ?v" "iter_pos ?v = tr_done c" using ok by (auto simp: transfer_ok_def)
  obtain v' where v': "iter_next ?v = (Some b, v')" "it = iter_move (tr_iter c) v'"
    using n by (cases "iter_next ?v") (auto simp: user_next_def)
  note cur = iter_next_cursor [OF i(1)]
  show l: "tr_done c < length (transfer_bytes ?M c)" "b = transfer_bytes ?M c ! tr_done c"
    using cur v'(1) i(2) by (auto simp: transfer_bytes_view split: if_splits)
  have "iter_view ?M it = v'" using cur v' by (simp add: iter_view_def iter_move_def)
  then have "iter_inv (iter_view ?M it)" "iter_pos (iter_view ?M it) = tr_done c + 1"
    using cur v'(1) i(2) l(1) by (auto simp: transfer_bytes_view)
  moreover show sl: "ui_slices it = ui_slices (tr_iter c)" by (simp add: v'(2) iter_move_def)
  ultimately show "transfer_ok (c\<lparr>tr_iter := it, tr_done := tr_done c + 1\<rparr>)"
    using ok by (intro transfer_okI [of _ ?M]) (simp_all add: transfer_ok_def)
qed

lemma user_next_mut_step:
  assumes ok: "transfer_ok c" and n: "user_next_mut b (tr_iter c) s = (Ok it, s')"
  shows "\<exists>m. s' = s\<lparr>k_machine := m\<rparr> \<and> tr_done c < length (transfer_bytes (mem (k_machine s)) c) \<and>
    transfer_ok (c\<lparr>tr_iter := it, tr_done := tr_done c + 1\<rparr>) \<and> ui_slices it = ui_slices (tr_iter c) \<and>
    transfer_bytes (mem m) c = (transfer_bytes (mem (k_machine s)) c)[tr_done c := b]"
proof -
  let ?M = "mem (k_machine s)" let ?v = "iter_view ?M (tr_iter c)" let ?sl = "ui_slices (tr_iter c)"
  have i: "iter_inv ?v" "iter_pos ?v = tr_done c" and d: "distinct (map fst ?sl)"
    using ok by (auto simp: transfer_ok_def)
  obtain v' where v': "iter_next_mut b ?v = (Ok (), v')"
    using n by (cases "iter_next_mut b ?v") (auto simp: user_next_mut_def split: outcome.splits)
  obtain p a e where sl: "?sl ! it_index v' = (p, a, e)" by (metis prod_cases3)
  let ?M' = "frame_set_byte p (a + (it_offset v' - 1)) b ?M"
  have it: "it = iter_move (tr_iter c) v'" and s': "s' = s\<lparr>k_machine := (k_machine s)\<lparr>mem := ?M'\<rparr>\<rparr>"
    using n v' sl by (auto simp: user_next_mut_def)
  note at = iter_next_mut_at [OF v' i(1)]
  have ix: "it_index v' < length ?sl" "a + (it_offset v' - 1) < e"
    using at sl by (auto simp: iter_view_def)
  have buf: "map (slice_bytes ?M') ?sl = it_buffer v'"
    using slices_set [OF d ix(1) sl ix(2)] at by (simp add: iter_view_def)
  note cur = iter_next_mut_cursor [OF i(1), of b]
  have "iter_view ?M' it = v'" using buf by (simp add: it iter_view_def iter_move_def)
  then have pos: "iter_inv (iter_view ?M' it)" "iter_pos (iter_view ?M' it) = tr_done c + 1"
      "concat (it_buffer v') = (transfer_bytes ?M c)[tr_done c := b]" and l: "tr_done c < length (transfer_bytes ?M c)"
    using cur v' i(2) by (auto simp: transfer_bytes_view split: if_splits)
  have "transfer_ok (c\<lparr>tr_iter := it, tr_done := tr_done c + 1\<rparr>)"
    using pos d by (intro transfer_okI [of _ ?M']) (simp_all add: it iter_move_def)
  moreover have "transfer_bytes ?M' c = (transfer_bytes ?M c)[tr_done c := b]"
    using pos(3) buf by (simp add: transfer_bytes_def)
  ultimately show ?thesis using l by (auto simp: s' it iter_move_def intro!: exI [of _ "(k_machine s)\<lparr>mem := ?M'\<rparr>"])
qed

section \<open>Moving bytes\<close>

abbreviation ring :: "('tab, 'i, 'fs) os_kernel \<Rightarrow> ring_ref \<Rightarrow> ring_buffer" where
  "ring s r \<equiv> rm_inner (k_rings s ! r)"

abbreviation with_ring :: "ring_ref \<Rightarrow> ring_buffer \<Rightarrow> machine \<Rightarrow> ('tab, 'i, 'fs) os_kernel \<Rightarrow> ('tab, 'i, 'fs) os_kernel" where
  "with_ring r rb m s \<equiv> (set_ring r ((k_rings s ! r)\<lparr>rm_inner := rb\<rparr>) s)\<lparr>k_machine := m\<rparr>"

definition same_call :: "transfer \<Rightarrow> transfer \<Rightarrow> bool" where
  "same_call c c' \<longleftrightarrow> ui_slices (tr_iter c') = ui_slices (tr_iter c) \<and> tr_total c' = tr_total c"

lemma same_call_refl [simp]: "same_call c c"
  by (simp add: same_call_def)

lemma same_call_bytes: "same_call c c' \<Longrightarrow> transfer_bytes M c' = transfer_bytes M c"
  by (simp add: same_call_def transfer_bytes_def)

lemma read_bytes_spec:
  assumes "read_bytes n r c s = (Ok c', s')" and "transfer_ok c" and "r < length (k_rings s)"
    and "rb_inv (ring s r)" and "n \<le> rb_len (ring s r)"
  shows "\<exists>bs rb m. s' = with_ring r rb m s \<and> rb_inv rb \<and> rb_capacity rb = rb_capacity (ring s r) \<and>
    rb_contents (ring s r) = bs @ rb_contents rb \<and> length bs = n \<and> transfer_ok c' \<and> same_call c c' \<and>
    tr_done c' = tr_done c + n \<and>
    take (tr_done c') (transfer_bytes (mem m) c) = take (tr_done c) (transfer_bytes (mem (k_machine s)) c) @ bs"
  using assms
proof (induction n arbitrary: c s)
  case 0
  then show ?case
    by (intro exI [of _ "[]"] exI [of _ "ring s r"] exI [of _ "k_machine s"]) (simp add: set_ring_def)
next
  case (Suc n)
  obtain b bs0 where c0: "rb_contents (ring s r) = b # bs0"
    using Suc.prems(5) rb_len_contents [of "ring s r"] by (cases "rb_contents (ring s r)") (auto simp del: rb_len_contents)
  obtain rb1 where rb1: "read_byte (ring s r) = (Ok (Some b), rb1)" "rb_inv rb1" "rb_contents rb1 = bs0"
      "rb_capacity rb1 = rb_capacity (ring s r)"
    using ring.read_front [OF Suc.prems(4) c0] by blast
  let ?s1 = "set_ring r ((k_rings s ! r)\<lparr>rm_inner := rb1\<rparr>) s"
  from Suc.prems(1) rb1(1) obtain it s2 where step: "user_next_mut b (tr_iter c) ?s1 = (Ok it, s2)"
      "read_bytes n r (c\<lparr>tr_iter := it, tr_done := tr_done c + 1\<rparr>) s2 = (Ok c', s')"
    by (auto simp: on_ring_def kbind_def split: prod.splits outcome.splits)
  let ?c1 = "c\<lparr>tr_iter := it, tr_done := tr_done c + 1\<rparr>"
  have m0: "k_machine ?s1 = k_machine s" by (simp add: set_ring_def)
  obtain m1 where m1: "s2 = ?s1\<lparr>k_machine := m1\<rparr>" "tr_done c < length (transfer_bytes (mem (k_machine s)) c)"
      "transfer_ok ?c1" "ui_slices it = ui_slices (tr_iter c)"
      "transfer_bytes (mem m1) c = (transfer_bytes (mem (k_machine s)) c)[tr_done c := b]"
    using user_next_mut_step [OF Suc.prems(2) step(1)] unfolding m0 by blast
  have r1: "ring s2 r = rb1" "r < length (k_rings s2)" "k_machine s2 = m1"
    using Suc.prems(3) by (simp_all add: m1(1) set_ring_def)
  have sc: "same_call c ?c1" by (simp add: same_call_def m1(4))
  have n1: "n \<le> rb_len rb1" using Suc.prems(5) c0 rb1(3) rb_len_contents [of "ring s r"] rb_len_contents [of rb1]
    by (simp del: rb_len_contents)
  from Suc.IH [OF step(2) m1(3) r1(2)] r1 rb1 n1
  obtain bs rb m where IH: "s' = with_ring r rb m s2" "rb_inv rb" "rb_capacity rb = rb_capacity (ring s r)"
      "bs0 = bs @ rb_contents rb" "length bs = n" "transfer_ok c'" "same_call ?c1 c'" "tr_done c' = tr_done c + 1 + n"
      "take (tr_done c') (transfer_bytes (mem m) ?c1) = take (tr_done c + 1) (transfer_bytes (mem m1) ?c1) @ bs"
    by auto
  have "take (tr_done c + 1) (transfer_bytes (mem m1) c) = take (tr_done c) (transfer_bytes (mem (k_machine s)) c) @ [b]"
    using m1(2,5) by (simp add: take_Suc_conv_app_nth)
  then have tk: "take (tr_done c') (transfer_bytes (mem m) c) = take (tr_done c) (transfer_bytes (mem (k_machine s)) c) @ b # bs"
    using IH(9) same_call_bytes [OF sc] by simp
  have "s' = with_ring r rb m s" using Suc.prems(3) by (simp add: IH(1) m1(1) set_ring_def)
  moreover have "same_call c c'" using sc IH(7) by (simp add: same_call_def)
  ultimately show ?case using IH c0 tk by (intro exI [of _ "b # bs"] exI [of _ rb] exI [of _ m]) simp
qed

lemma write_bytes_spec:
  assumes "write_bytes n r c s = (Ok c', s')" and "transfer_ok c" and "r < length (k_rings s)"
    and "rb_inv (ring s r)" and "rb_len (ring s r) + n \<le> rb_capacity (ring s r)"
  shows "\<exists>bs rb. s' = with_ring r rb (k_machine s) s \<and> rb_inv rb \<and> rb_capacity rb = rb_capacity (ring s r) \<and>
    rb_contents rb = rb_contents (ring s r) @ bs \<and> length bs = n \<and> transfer_ok c' \<and> same_call c c' \<and>
    tr_done c' = tr_done c + n \<and>
    take (tr_done c') (transfer_bytes (mem (k_machine s)) c) = take (tr_done c) (transfer_bytes (mem (k_machine s)) c) @ bs"
  using assms
proof (induction n arbitrary: c s)
  case 0
  then show ?case
    by (intro exI [of _ "[]"] exI [of _ "ring s r"]) (simp add: set_ring_def)
next
  case (Suc n)
  let ?B = "transfer_bytes (mem (k_machine s)) c"
  obtain b it where nx: "user_next (tr_iter c) s = (Some b, it)"
    using Suc.prems(1) by (auto split: prod.splits option.splits)
  note st = user_next_step [OF Suc.prems(2) nx]
  let ?c1 = "c\<lparr>tr_iter := it, tr_done := tr_done c + 1\<rparr>"
  have sc: "same_call c ?c1" by (simp add: same_call_def st(4))
  have "length (rb_contents (ring s r)) < rb_capacity (ring s r)" using Suc.prems(5) by simp
  then obtain rb1 where rb1: "write_byte b (ring s r) = (Ok (), rb1)" "rb_inv rb1"
      "rb_contents rb1 = rb_contents (ring s r) @ [b]" "rb_capacity rb1 = rb_capacity (ring s r)"
    using ring.write_back [OF Suc.prems(4), of b] by blast
  let ?s1 = "set_ring r ((k_rings s ! r)\<lparr>rm_inner := rb1\<rparr>) s"
  have step: "write_bytes n r ?c1 ?s1 = (Ok c', s')"
    using Suc.prems(1) nx rb1(1) by (simp add: on_ring_def kbind_def)
  have r1: "ring ?s1 r = rb1" "r < length (k_rings ?s1)" "k_machine ?s1 = k_machine s"
    using Suc.prems(3) by (simp_all add: set_ring_def)
  have n1: "rb_len rb1 + n \<le> rb_capacity rb1"
    using Suc.prems(5) rb1(3,4) rb_len_contents [of rb1] rb_len_contents [of "ring s r"]
    by (simp del: rb_len_contents)
  from Suc.IH [OF step st(3) r1(2)] r1 rb1 n1
  obtain bs rb where IH: "s' = with_ring r rb (k_machine s) ?s1" "rb_inv rb" "rb_capacity rb = rb_capacity (ring s r)"
      "rb_contents rb = rb_contents (ring s r) @ [b] @ bs" "length bs = n" "transfer_ok c'" "same_call ?c1 c'"
      "tr_done c' = tr_done c + 1 + n"
      "take (tr_done c') (transfer_bytes (mem (k_machine s)) ?c1) = take (tr_done c + 1) (transfer_bytes (mem (k_machine s)) ?c1) @ bs"
    by auto
  have "take (tr_done c + 1) ?B = take (tr_done c) ?B @ [b]"
    using st(1,2) by (simp add: take_Suc_conv_app_nth)
  then have tk: "take (tr_done c') ?B = take (tr_done c) ?B @ b # bs"
    using IH(9) same_call_bytes [OF sc] by simp
  have "s' = with_ring r rb (k_machine s) s" using Suc.prems(3) by (simp add: IH(1) set_ring_def)
  moreover have "same_call c c'" using sc IH(7) by (simp add: same_call_def)
  ultimately show ?case using IH tk by (intro exI [of _ "b # bs"] exI [of _ rb]) simp
qed

section \<open>Rounds\<close>

text \<open>A free lock and a well-formed buffer.\<close>

definition ring_ok :: "ring_mutex \<Rightarrow> bool" where
  "ring_ok m \<longleftrightarrow> \<not> rm_locked m \<and> rb_inv (rm_inner m)"

text \<open>The bytes that a round has moved, in the memory \<open>M\<close>.\<close>

definition moved :: "memory \<Rightarrow> transfer \<Rightarrow> transfer \<Rightarrow> u8 list" where
  "moved M c c' = drop (tr_done c) (take (tr_done c') (transfer_bytes M c'))"

text \<open>Giving up the processor leaves files, pipes and memory alone.\<close>

lemma give_up_frame:
  assumes "give_up c s = (Ok y, s')"
  shows "y = (c, None) \<and> k_rings s' = k_rings s \<and> k_machine s' = k_machine s \<and> k_ring_held s' = k_ring_held s \<and>
    k_files s' = k_files s \<and> k_file_held s' = k_file_held s \<and> k_procs s' = k_procs s \<and> k_next_proc s' = k_next_proc s"
  using assms
  by (auto simp: give_up_def suspend_current_and_run_other_task_def on_task_def mark_suspended_def kbind_def
      set_current_def put_read_task_def split: option.splits)

lemma read_round_spec:
  assumes rd: "read_round r c s = (Ok (c', x), s')" and c: "transfer_ok c" and r: "r < length (k_rings s)"
    and ok: "ring_ok (k_rings s ! r)"
  shows "ring_ok (k_rings s' ! r) \<and> length (k_rings s') = length (k_rings s) \<and>
    rb_capacity (ring s' r) = rb_capacity (ring s r) \<and> transfer_ok c' \<and> same_call c c' \<and>
    rb_contents (ring s r) = moved (mem (k_machine s')) c c' @ rb_contents (ring s' r)"
proof -
  let ?m = "k_rings s ! r"
  let ?s1 = "set_ring r (?m\<lparr>rm_locked := True\<rparr>) s"
  have unl: "\<not> rm_locked ?m" and inv: "rb_inv (ring s r)" using ok by (simp_all add: ring_ok_def)
  have s1: "ring ?s1 r = ring s r" "k_machine ?s1 = k_machine s" "r < length (k_rings ?s1)"
    using r by (simp_all add: set_ring_def)
  have rel: "k_rings (set_ring r ((k_rings ?s1 ! r)\<lparr>rm_locked := False\<rparr>) ?s1) ! r = ?m"
    using r unl by (simp add: set_ring_def)
  define n where "n = min (rb_len (ring s r)) (tr_total c - tr_done c)"
  show ?thesis
  proof (cases "tr_done c < tr_total c")
    case False
    then show ?thesis using rd ok c by (auto simp: read_round_def moved_def)
  next
    case more: True
    note rd' = rd [unfolded read_round_def]
    show ?thesis
    proof (cases "n = 0")
      case True
      have "c' = c \<and> length (k_rings s') = length (k_rings s) \<and> k_rings s' ! r = ?m"
      proof (cases "all_write_end_closed ?s1 (Read r)")
        case closed: True
        then show ?thesis
          using rd' more True unl r rel s1 by (auto simp: try_lock_def unlock_def Let_def n_def [symmetric] kbind_def set_ring_def)
      next
        case closed: False
        then have "give_up c (snd (unlock r ?s1)) = (Ok (c', x), s')"
          using rd' more True unl r rel s1
          by (simp add: try_lock_def unlock_def Let_def n_def [symmetric] kbind_def)
        from give_up_frame [OF this] show ?thesis using rel by (simp add: unlock_def set_ring_def)
      qed
      then show ?thesis using ok c by (simp add: moved_def)
    next
      case False
      have "kbind (on_error (read_bytes n r c) (unlock r)) (\<lambda>c. kbind (unlock r) (\<lambda>_. give_up c)) ?s1 = (Ok (c', x), s')"
        using rd' more False unl s1 by (simp add: try_lock_def Let_def n_def [symmetric] kbind_def del: kbind_Ok)
      then obtain c1 s2 where st: "read_bytes n r c ?s1 = (Ok c1, s2)" "give_up c1 (snd (unlock r s2)) = (Ok (c', x), s')"
        by (auto simp: on_error_def kbind_def unlock_def split: prod.splits outcome.splits)
      from read_bytes_spec [OF st(1) c s1(3)] s1 inv
      obtain bs rb m where R: "s2 = with_ring r rb m ?s1" "rb_inv rb" "rb_capacity rb = rb_capacity (ring s r)"
          "rb_contents (ring s r) = bs @ rb_contents rb" "length bs = n" "transfer_ok c1" "same_call c c1"
          "tr_done c1 = tr_done c + n"
          "take (tr_done c1) (transfer_bytes (mem m) c) = take (tr_done c) (transfer_bytes (mem (k_machine s)) c) @ bs"
        by (auto simp: n_def)
      note g = give_up_frame [OF st(2)]
      have s': "k_rings s' ! r = \<lparr>rm_locked = False, rm_inner = rb\<rparr>" "length (k_rings s') = length (k_rings s)"
          "k_machine s' = m" "c' = c1"
        using g r by (simp_all add: unlock_def set_ring_def R(1))
      have l: "tr_done c \<le> length (transfer_bytes (mem (k_machine s)) c)"
      proof -
        have "length (take (tr_done c1) (transfer_bytes (mem m) c)) \<le> tr_done c + n" using R(8) by simp
        moreover have "length (transfer_bytes (mem m) c) = length (transfer_bytes (mem (k_machine s)) c)"
          by (simp add: transfer_bytes_def length_concat comp_def)
        ultimately show ?thesis using False R(5,8,9) arg_cong [OF R(9), of length] by (simp add: min_def split: if_splits)
      qed
      have "moved (mem m) c c1 = bs"
        using R(9) l same_call_bytes [OF R(7), of "mem m"] by (simp add: moved_def)
      then show ?thesis using s' R by (simp add: ring_ok_def)
    qed
  qed
qed

lemma tap_simps [simp]:
  "transfer_ok (c\<lparr>tr_tap := b\<rparr>) = transfer_ok c" "moved M (c\<lparr>tr_tap := b\<rparr>) c' = moved M c c'"
  "moved M c (c'\<lparr>tr_tap := b\<rparr>) = moved M c c'" "same_call (c\<lparr>tr_tap := b\<rparr>) c' = same_call c c'"
  "same_call c (c'\<lparr>tr_tap := b\<rparr>) = same_call c c'"
  by (simp_all add: transfer_ok_def moved_def same_call_def transfer_bytes_def)

lemma moved_self [simp]: "moved M c c = []"
  by (simp add: moved_def)

lemma write_turn_spec:
  assumes rd: "write_turn r c s = (Ok (c', x), s')"
    and c: "transfer_ok c" and r: "r < length (k_rings s)" and ok: "ring_ok (k_rings s ! r)"
  shows "ring_ok (k_rings s' ! r) \<and> length (k_rings s') = length (k_rings s) \<and>
    rb_capacity (ring s' r) = rb_capacity (ring s r) \<and> transfer_ok c' \<and> same_call c c' \<and>
    rb_contents (ring s' r) = rb_contents (ring s r) @ moved (mem (k_machine s)) c c'"
proof -
  let ?m = "k_rings s ! r"
  let ?s1 = "set_ring r (?m\<lparr>rm_locked := True\<rparr>) s"
  have unl: "\<not> rm_locked ?m" and inv: "rb_inv (ring s r)" using ok by (simp_all add: ring_ok_def)
  have s1: "ring ?s1 r = ring s r" "k_machine ?s1 = k_machine s" "r < length (k_rings ?s1)"
    using r by (simp_all add: set_ring_def)
  have rel: "k_rings (set_ring r ((k_rings ?s1 ! r)\<lparr>rm_locked := False\<rparr>) ?s1) ! r = ?m"
    using r unl by (simp add: set_ring_def)
  define n where "n = min (rb_capacity (ring s r) - rb_len (ring s r)) (tr_total c - tr_done c)"
  show ?thesis
  proof (cases "n = 0")
    case True
    have "(c' = c \<or> c' = c\<lparr>tr_tap := False\<rparr>) \<and> length (k_rings s') = length (k_rings s) \<and> k_rings s' ! r = ?m"
    proof (cases "all_read_end_closed ?s1 (Write r)")
      case closed: True
      then show ?thesis
        using rd True unl r rel s1
        by (auto simp: write_turn_def write_finish_def try_lock_def unlock_def unhold_ring_def Let_def n_def [symmetric] kbind_def set_ring_def)
    next
      case closed: False
      then have "give_up c (snd (unlock r ?s1)) = (Ok (c', x), s')"
        using rd True unl r rel s1
        by (simp add: write_turn_def try_lock_def unlock_def Let_def n_def [symmetric] kbind_def)
      from give_up_frame [OF this] show ?thesis using rel by (simp add: unlock_def set_ring_def)
    qed
    then show ?thesis using ok c by auto
  next
    case False
    have "kbind (on_error (write_bytes n r c) (kbind (unlock r) (\<lambda>_. unhold_ring r))) (\<lambda>c. kbind (unlock r) (\<lambda>_. give_up c)) ?s1 =
        (Ok (c', x), s')"
      using rd False unl s1 by (simp add: write_turn_def try_lock_def Let_def n_def [symmetric] kbind_def del: kbind_Ok)
    then obtain c1 s2 where st: "write_bytes n r c ?s1 = (Ok c1, s2)" "give_up c1 (snd (unlock r s2)) = (Ok (c', x), s')"
      by (auto simp: on_error_def kbind_def unlock_def unhold_ring_def split: prod.splits outcome.splits)
    have "rb_len (ring ?s1 r) + n \<le> rb_capacity (ring ?s1 r)" using rb_len_le [OF inv] s1 by (simp add: n_def)
    from write_bytes_spec [OF st(1) c s1(3) _ this] s1 inv
    obtain bs rb where R: "s2 = with_ring r rb (k_machine s) ?s1" "rb_inv rb" "rb_capacity rb = rb_capacity (ring s r)"
        "rb_contents rb = rb_contents (ring s r) @ bs" "length bs = n" "transfer_ok c1" "same_call c c1"
        "tr_done c1 = tr_done c + n"
        "take (tr_done c1) (transfer_bytes (mem (k_machine s)) c) = take (tr_done c) (transfer_bytes (mem (k_machine s)) c) @ bs"
      by auto
    note g = give_up_frame [OF st(2)]
    have s': "k_rings s' ! r = \<lparr>rm_locked = False, rm_inner = rb\<rparr>" "length (k_rings s') = length (k_rings s)" "c' = c1"
      using g r by (simp_all add: unlock_def set_ring_def R(1))
    let ?B = "transfer_bytes (mem (k_machine s)) c"
    have "min (length ?B) (tr_done c1) = min (length ?B) (tr_done c) + n"
      using arg_cong [OF R(9), of length] unfolding length_append length_take R(5) .
    then have l: "tr_done c \<le> length ?B" using False R(8) by linarith
    have "moved (mem (k_machine s)) c c1 = bs"
      using R(9) l same_call_bytes [OF R(7), of "mem (k_machine s)"] by (simp add: moved_def)
    then show ?thesis using s' R by (simp add: ring_ok_def)
  qed
qed

lemma write_round_spec:
  assumes rd: "write_round r c s = (Ok (c', x), s')" and c: "transfer_ok c" and r: "r < length (k_rings s)"
    and ok: "ring_ok (k_rings s ! r)"
  shows "ring_ok (k_rings s' ! r) \<and> length (k_rings s') = length (k_rings s) \<and>
    rb_capacity (ring s' r) = rb_capacity (ring s r) \<and> transfer_ok c' \<and> same_call c c' \<and>
    rb_contents (ring s' r) = rb_contents (ring s r) @ moved (mem (k_machine s)) c c'"
proof -
  define s0 where "s0 = (if tr_tap c then snd (unhold_ring r s) else s)"
  have s0: "k_rings s0 = k_rings s" "k_machine s0 = k_machine s" by (simp_all add: s0_def unhold_ring_def)
  have pre: "(if tr_tap c then unhold_ring r else kret ()) s = (Ok (), s0)" by (simp add: s0_def unhold_ring_def)
  let ?s1 = "snd (hold_ring r s0)"
  have s1: "k_rings ?s1 = k_rings s" "k_machine ?s1 = k_machine s" by (simp_all add: s0 hold_ring_def)
  show ?thesis
  proof (cases "ring_strong s0 r = 0")
    case True
    then show ?thesis using rd s0 c ok pre by (auto simp: write_round_def kbind_def)
  next
    case False
    show ?thesis
    proof (cases "tr_total c \<le> tr_done c")
      case True
      then show ?thesis
        using rd False s0 c ok pre
        by (auto simp: write_round_def write_finish_def hold_ring_def unhold_ring_def kbind_def)
    next
      case more: False
      have "write_turn r (c\<lparr>tr_tap := True\<rparr>) ?s1 = (Ok (c', x), s')"
        using rd False more pre by (simp add: write_round_def hold_ring_def kbind_def)
      from write_turn_spec [OF this] show ?thesis using c r ok s1 by simp
    qed
  qed
qed

section \<open>The stream through a pipe\<close>

text \<open>
  An execution from \<open>s\<close> to \<open>s'\<close> as the ring buffer \<open>r\<close> sees it: rounds of reading and of
  writing calls, each with any transfer, and other steps of the kernel and of user programs, which
  may do anything but change the ring buffer. \<open>w\<close> are the bytes written and \<open>g\<close> the bytes read, both
  in the order of the rounds.
\<close>

inductive pipe_run :: "ring_ref \<Rightarrow> ('tab, 'i, 'fs) os_kernel \<Rightarrow> u8 list \<Rightarrow> u8 list \<Rightarrow> ('tab, 'i, 'fs) os_kernel \<Rightarrow> bool"
  for r s where
  start: "pipe_run r s [] [] s"
| reading: "pipe_run r s w g s1 \<Longrightarrow> transfer_ok c \<Longrightarrow> read_round r c s1 = (Ok (c', x), s2) \<Longrightarrow>
    pipe_run r s w (g @ moved (mem (k_machine s2)) c c') s2"
| writing: "pipe_run r s w g s1 \<Longrightarrow> transfer_ok c \<Longrightarrow> write_round r c s1 = (Ok (c', x), s2) \<Longrightarrow>
    pipe_run r s (w @ moved (mem (k_machine s1)) c c') g s2"
| other: "pipe_run r s w g s1 \<Longrightarrow> r < length (k_rings s2) \<Longrightarrow> k_rings s2 ! r = k_rings s1 ! r \<Longrightarrow>
    pipe_run r s w g s2"

lemma pipe_run_inv:
  assumes "pipe_run r s w g s'" and "r < length (k_rings s)" and "ring_ok (k_rings s ! r)"
  shows "r < length (k_rings s') \<and> ring_ok (k_rings s' ! r) \<and> rb_capacity (ring s' r) = rb_capacity (ring s r) \<and>
    rb_contents (ring s r) @ w = g @ rb_contents (ring s' r)"
  using assms
proof (induction rule: pipe_run.induct)
  case start
  then show ?case by simp
next
  case (reading w g s1 c c' x s2)
  then have IH: "r < length (k_rings s1)" "ring_ok (k_rings s1 ! r)" "rb_capacity (ring s1 r) = rb_capacity (ring s r)"
      "rb_contents (ring s r) @ w = g @ rb_contents (ring s1 r)"
    by blast+
  from read_round_spec [OF reading.hyps(3,2) IH(1,2)] show ?case using IH by simp
next
  case (writing w g s1 c c' x s2)
  then have IH: "r < length (k_rings s1)" "ring_ok (k_rings s1 ! r)" "rb_capacity (ring s1 r) = rb_capacity (ring s r)"
      "rb_contents (ring s r) @ w = g @ rb_contents (ring s1 r)"
    by blast+
  have "rb_contents (ring s r) @ w @ v = g @ rb_contents (ring s1 r) @ v" for v
    using IH(4) by (metis append_assoc)
  then show ?case using write_round_spec [OF writing.hyps(3,2) IH(1,2)] IH by simp
next
  case (other w g s1 s2)
  then show ?case by simp
qed

text \<open>
  C10. A pipe is a FIFO stream in every interleaving: whatever rounds of reading and writing calls
  run in whatever order, the bytes that were in the pipe followed by those written since are the
  bytes read since followed by those still in the pipe, which never exceed its capacity; between
  rounds the lock is free.
\<close>

theorem pipe_stream:
  assumes "pipe_run r s w g s'" and "r < length (k_rings s)" and "ring_ok (k_rings s ! r)"
  shows "rb_contents (ring s r) @ w = g @ rb_contents (ring s' r) \<and>
    length (rb_contents (ring s' r)) \<le> rb_capacity (ring s r) \<and> \<not> rm_locked (k_rings s' ! r)"
proof -
  note i = pipe_run_inv [OF assms]
  then have "rb_inv (ring s' r)" by (simp add: ring_ok_def)
  then show ?thesis using i rb_len_le [of "ring s' r"] by (simp add: ring_ok_def)
qed

text \<open>
  A pipe with room for three bytes whose readable end is held by a call, a running task 1, and the
  bytes 7 and 8 at the start of frame 5.
\<close>

definition sample_os :: "nat \<Rightarrow> ring_mutex \<Rightarrow> (unit, nat, unit) os_kernel" where
  "sample_os held m = (let k = sample_sync in
     \<lparr>k_machine = (k_machine k)\<lparr>mem := (\<lambda>p i. if p = 5 \<and> i = 0 then 2055 else 0)\<rparr>,
      k_kernel_space = k_kernel_space k, k_pids = k_pids k,
      k_kernel_stacks = k_kernel_stacks k, k_tasks = k_tasks k, k_procs = k_procs k,
      k_next_task = k_next_task k, k_next_proc = k_next_proc k, k_init = k_init k,
      k_processor = k_processor k, k_scheduler = k_scheduler k, k_held = k_held k,
      k_proc_held = k_proc_held k, k_mutexes = [], k_semaphores = [], k_condvars = [],
      k_files = [Stdin, Stdout, PipeFile (Read 0), PipeFile (Write 0)], k_file_held = (\<lambda>f. if f = 2 then 1 - held else 0),
      k_rings = [m], k_ring_held = (\<lambda>r. held),
      k_stdin_locked = False, k_stdout_locked = False, k_console_in = [], k_console_out = [], k_fs = ()\<rparr>)"

definition sample_ring :: ring_mutex where
  "sample_ring = \<lparr>rm_locked = False,
     rm_inner = \<lparr>rb_head = 0, rb_tail = 0, rb_status = EMPTY, rb_buffer = [0, 0, 0]\<rparr>\<rparr>"

definition sample_transfer :: "usize \<Rightarrow> transfer" where
  "sample_transfer p = transfer_new ([(p, 0, 2)], 2)"

lemma sample_os_task [simp]: "k_current (sample_os h m) = Some 1" "\<exists>tb. k_tasks (sample_os h m) 1 = Some tb"
  by (simp_all add: sample_os_def sample_sync_def sample_kernel_def Let_def)

lemma sample_strong: "ring_strong (sample_os 0 m) 0 = 1"
  by (simp add: ring_strong_def open_ends_def file_open_def fd_count_def sample_os_def sample_sync_def
      sample_kernel_def Let_def upt_rec)

lemmas sample_round_defs = sample_transfer_def transfer_new_def try_lock_def sample_os_def sample_ring_def Let_def
  rb_capacity_def rb_len_def set_ring_def on_error_def user_next_def user_next_mut_def iter_view_def user_into_iter_def slice_bytes_def
  iter_move_def on_ring_def write_byte_def read_byte_def kbind_def unlock_def

lemmas sample_iter = iter_next.simps [of "\<lparr>it_buffer = _, it_index = 0, it_offset = 0\<rparr>"]
  iter_next.simps [of "\<lparr>it_buffer = _, it_index = 0, it_offset = Suc 0\<rparr>"]
  iter_next_mut.simps [of _ "\<lparr>it_buffer = _, it_index = 0, it_offset = 0\<rparr>"]
  iter_next_mut.simps [of _ "\<lparr>it_buffer = _, it_index = 0, it_offset = Suc 0\<rparr>"]

text \<open>The ring after task 1 has written its two bytes.\<close>

definition sample_filled :: ring_mutex where
  "sample_filled = \<lparr>rm_locked = False,
     rm_inner = \<lparr>rb_head = 2, rb_tail = 0, rb_status = NORMAL 2, rb_buffer = [7, 8, 0]\<rparr>\<rparr>"

lemma give_up_ok:
  assumes "k_current s = Some t" and "k_tasks s t = Some tb" and "tr_done c = n" and "k_rings s = rs"
  shows "\<exists>c' x s'. give_up c s = (Ok (c', x), s') \<and> tr_done c' = n \<and> k_rings s' = rs"
  using assms by (simp add: give_up_def suspend_current_and_run_other_task_def kbind_def on_task_def
      set_current_def mark_suspended_def put_read_task_def)

lemma sample_sync_task: "k_current sample_sync = Some 1" "k_tasks sample_sync = (\<lambda>_. Some sample_task)"
  by (simp_all add: sample_sync_def sample_kernel_def Let_def)

lemma sample_write:
  "\<exists>c' x s'. write_round 0 (sample_transfer 5) (sample_os 0 sample_ring) = (Ok (c', x), s') \<and> tr_done c' = 2 \<and>
     k_rings s' = [sample_filled]"
  apply (simp add: write_round_def sample_strong sample_transfer_def transfer_new_def hold_ring_def write_turn_def)
  apply (simp add: sample_round_defs numeral_2_eq_2)
  apply (simp add: sample_iter sample_round_defs)
  apply (rule give_up_ok [of _ 1 sample_task])
     apply (simp_all add: sample_sync_task sample_filled_def frame_byte_def)
  done

lemma sample_read:
  "\<exists>c' x s'. read_round 0 (sample_transfer 6) (sample_os 0 sample_filled) = (Ok (c', x), s') \<and> tr_done c' = 2 \<and>
     k_rings s' = [\<lparr>rm_locked = False,
       rm_inner = \<lparr>rb_head = 2, rb_tail = 2, rb_status = EMPTY, rb_buffer = [7, 8, 0]\<rparr>\<rparr>]"
  apply (simp add: read_round_def sample_transfer_def transfer_new_def sample_filled_def)
  apply (simp add: sample_round_defs numeral_2_eq_2)
  apply (simp add: sample_iter sample_round_defs)
  apply (rule give_up_ok [of _ 1 sample_task])
     apply (simp_all add: sample_sync_task frame_byte_def)
  done

lemma sample_bytes:
  "transfer_bytes m (sample_transfer p) = [frame_byte m p 0, frame_byte m p 1]"
  by (simp add: transfer_bytes_def sample_transfer_def transfer_new_def user_into_iter_def slice_bytes_def
      numeral_2_eq_2)

lemma sample_moved:
  assumes "same_call (sample_transfer p) c" and "tr_done c = 2"
  shows "moved m (sample_transfer p) c = [frame_byte m p 0, frame_byte m p 1]"
  using assms(2) by (simp add: moved_def sample_bytes same_call_bytes [OF assms(1)])
    (simp add: sample_transfer_def transfer_new_def)

lemma sample_frame: "frame_byte (mem (k_machine (sample_os h m))) 5 0 = 7" "frame_byte (mem (k_machine (sample_os h m))) 5 1 = 8"
  by (simp_all add: frame_byte_def sample_os_def Let_def)

theorem pipe_stream_witness:
  "\<exists>s'. pipe_run 0 (sample_os 0 sample_ring) [7, 8] [7, 8] s'"
proof -
  let ?s = "sample_os 0 sample_ring" let ?s2 = "sample_os 0 sample_filled"
  have ok: "0 < length (k_rings ?s)" "ring_ok (k_rings ?s ! 0)" "rb_contents (ring ?s 0) = []"
    "transfer_ok (sample_transfer p)" for p
    by (simp_all add: sample_os_def Let_def sample_ring_def ring_ok_def rb_inv_def rb_len_def rb_capacity_def
        rb_contents_def sample_transfer_def transfer_new_ok)
  obtain c x s1 where w: "write_round 0 (sample_transfer 5) ?s = (Ok (c, x), s1)" "tr_done c = 2" "k_rings s1 = [sample_filled]"
    using sample_write by blast
  have "same_call (sample_transfer 5) c" using write_round_spec [OF w(1) ok(4,1,2)] by blast
  then have "moved (mem (k_machine ?s)) (sample_transfer 5) c = [7, 8]"
    using sample_moved [OF _ w(2)] by (simp only: sample_frame)
  then have "pipe_run 0 ?s [7, 8] [] s1"
    using pipe_run.writing [OF pipe_run.start ok(4) w(1)] by simp
  then have run: "pipe_run 0 ?s [7, 8] [] ?s2"
    by (rule pipe_run.other) (simp_all add: w(3) sample_os_def Let_def)
  obtain c' x' s' where g: "read_round 0 (sample_transfer 6) ?s2 = (Ok (c', x'), s')" "tr_done c' = 2"
    using sample_read by blast
  let ?g = "moved (mem (k_machine s')) (sample_transfer 6) c'"
  have run': "pipe_run 0 ?s [7, 8] ?g s'" using pipe_run.reading [OF run ok(4) g(1)] by simp
  have "same_call (sample_transfer 6) c'"
    using read_round_spec [OF g(1) ok(4)] pipe_run_inv [OF run ok(1,2)] by blast
  then have l: "length ?g = 2"
    using sample_moved [OF _ g(2)] by simp
  have "?g = take 2 (?g @ rb_contents (ring s' 0))" using l by simp
  also have "\<dots> = take 2 [7, 8]"
    using pipe_stream [OF run' ok(1,2)] ok(3) by (simp only: append_Nil)
  finally have "?g = [7, 8]" by simp
  then have "pipe_run 0 ?s [7, 8] [7, 8] s'" using run' by (simp only:)
  then show ?thesis by (rule exI)
qed

section \<open>Writers without readers\<close>

text \<open>
  C31. Two writers block each other for ever: when the readers of a full pipe are gone and two
  writing calls are suspended in it, each of them keeps the ring buffer alive for the other, so every
  round of either call finds the ring buffer alive and full, and gives up the processor again with
  nothing written, leaving the same situation.
\<close>

theorem two_writers_stuck:
  assumes "ring_ok (k_rings s ! r)" and "r < length (k_rings s)" and "rb_len (ring s r) = rb_capacity (ring s r)"
    and "2 \<le> k_ring_held s r" and "tr_tap c" and "tr_done c < tr_total c"
    and "k_current s = Some t" and "k_tasks s t \<noteq> None"
  shows "\<exists>s'. write_round r c s = (Ok (c, None), s') \<and> k_rings s' ! r = k_rings s ! r \<and>
    k_ring_held s' = k_ring_held s"
proof -
  let ?held = "\<lambda>n. (k_ring_held s)(r := n)"
  let ?s0 = "s\<lparr>k_ring_held := ?held (k_ring_held s r - 1)\<rparr>"
  have s1: "?s0\<lparr>k_ring_held := ?held (k_ring_held s r)\<rparr> = s" by simp
  have c: "c\<lparr>tr_tap := True\<rparr> = c" using assms(5) by simp
  have strong: "ring_strong ?s0 r \<noteq> 0" using assms(4) by (simp add: ring_strong_def)
  have "unhold_ring r s = (Ok (), ?s0)" by (simp add: unhold_ring_def)
  moreover have "hold_ring r ?s0 = (Ok (), s)" using assms(4) s1 by (simp add: hold_ring_def)
  ultimately have "write_round r c s = write_turn r (c\<lparr>tr_tap := True\<rparr>) s"
    using assms(5,6) strong by (simp add: write_round_def kbind_def)
  then have round: "write_round r c s = write_turn r c s" unfolding c .
  let ?m = "k_rings s ! r"
  let ?s2 = "set_ring r (?m\<lparr>rm_locked := True\<rparr>) s" let ?s3 = "set_ring r (?m\<lparr>rm_locked := False\<rparr>) s"
  have "try_lock r s = (Ok True, ?s2)" using assms(1) by (simp add: try_lock_def ring_ok_def)
  moreover have "rm_inner (k_rings ?s2 ! r) = ring s r" using assms(2) by (simp add: set_ring_def)
  moreover have "ring_strong ?s2 r \<noteq> 0" using assms(4) by (simp add: ring_strong_def set_ring_def)
  moreover have "unlock r ?s2 = (Ok (), ?s3)" using assms(2) by (simp add: unlock_def set_ring_def)
  ultimately have turn: "write_turn r c s = give_up c ?s3"
    using assms(3) by (simp add: write_turn_def kbind_def)
  have "?m\<lparr>rm_locked := False\<rparr> = ?m" using assms(1) by (simp add: ring_ok_def)
  then have "?s3 = s" by (simp add: set_ring_def)
  moreover have "\<exists>s'. give_up c s = (Ok (c, None), s')"
    using assms(7,8) by (auto simp: give_up_def suspend_current_and_run_other_task_def kbind_def on_task_def
        set_current_def mark_suspended_def)
  ultimately obtain s' where "give_up c ?s3 = (Ok (c, None), s')" by auto
  then show ?thesis using round turn give_up_frame [of c s "(c, None)" s'] \<open>?s3 = s\<close> by auto
qed

theorem two_writers_stuck_witness:
  "\<exists>s'. write_round 0 ((sample_transfer 5)\<lparr>tr_tap := True\<rparr>)
     (sample_os 2 \<lparr>rm_locked = False, rm_inner = \<lparr>rb_head = 0, rb_tail = 0, rb_status = FULL, rb_buffer = [1, 2, 3]\<rparr>\<rparr>) =
     (Ok ((sample_transfer 5)\<lparr>tr_tap := True\<rparr>, None), s')"
proof -
  let ?m = "\<lparr>rm_locked = False, rm_inner = \<lparr>rb_head = 0, rb_tail = 0, rb_status = FULL, rb_buffer = [1, 2, 3]\<rparr>\<rparr>"
  have ring: "k_rings (sample_os 2 ?m) = [?m]" "k_ring_held (sample_os 2 ?m) 0 = 2"
    by (simp_all add: sample_os_def Let_def)
  have "ring_ok ?m" "rb_len (rm_inner ?m) = rb_capacity (rm_inner ?m)"
    by (simp_all add: ring_ok_def rb_inv_def rb_len_def rb_capacity_def)
  then show ?thesis
    using two_writers_stuck [of "sample_os 2 ?m" 0 "(sample_transfer 5)\<lparr>tr_tap := True\<rparr>" 1] ring
      sample_os_task [of 2 ?m]
    by (auto simp: sample_transfer_def transfer_new_def simp del: One_nat_def)
qed


end
