(* ===== verification/Syscalls.thy ===== *)
theory Syscalls
  imports Files
begin

text \<open>
  The system calls (src/syscall) and their dispatcher. The calls on mutexes, semaphores and
  condition variables are in theory Sync.

  A call that gives up the processor returns what it will go on with (\<open>pending\<close>);
  \<open>resume_call\<close> is the next round of the call when the task runs again. Results are the words that
  the handler stores in the first argument register.

  The numbers of the system calls are constants of the crate frontier_lib, the record
  \<open>sysid_crate\<close>; the size and the layout of its \<open>SignalAction\<close> are the record
  \<open>action_layout\<close>.
\<close>

unbundle bit_operations_syntax

record sysid_crate =
  SYS_DUP :: usize
  SYS_OPEN :: usize
  SYS_CLOSE :: usize
  SYS_PIPE :: usize
  SYS_READ :: usize
  SYS_WRITE :: usize
  SYS_EXIT :: usize
  SYS_SLEEP :: usize
  SYS_YIELD :: usize
  SYS_KILL :: usize
  SYS_SIG_ACTION :: usize
  SYS_SIG_PROC_MASK :: usize
  SYS_SIG_RETURN :: usize
  SYS_GET_TIME :: usize
  SYS_GET_PID :: usize
  SYS_FORK :: usize
  SYS_EXEC :: usize
  SYS_WAIT_PID :: usize
  SYS_THREAD_CREATE :: usize
  SYS_GET_TID :: usize
  SYS_WAIT_TID :: usize
  SYS_MUTEX_CREATE :: usize
  SYS_MUTEX_LOCK :: usize
  SYS_MUTEX_UNLOCK :: usize
  SYS_SEMAPHORE_CREATE :: usize
  SYS_SEMAPHORE_UP :: usize
  SYS_SEMAPHORE_DOWN :: usize
  SYS_CONDVAR_CREATE :: usize
  SYS_CONDVAR_SIGNAL :: usize
  SYS_CONDVAR_WAIT :: usize

record 'act action_layout =
  action_size :: usize
  action_decode :: "u8 list \<Rightarrow> 'act"
  action_encode :: "'act \<Rightarrow> u8 list"

record ('act, 'tab, 'i, 'fs) environment =
  env_platform :: "('act, 'tab) platform"
  env_files :: "('i, 'fs) fs_crate"
  env_sysids :: sysid_crate
  env_actions :: "'act action_layout"

abbreviation env_crates :: "('act, 'tab, 'i, 'fs) environment \<Rightarrow> crates" where
  "env_crates E \<equiv> pf_crates (env_platform E)"

abbreviation env_signals :: "('act, 'tab, 'i, 'fs) environment \<Rightarrow> ('act, 'tab) signal_crate" where
  "env_signals E \<equiv> pf_signals (env_platform E)"

datatype pending =
    Wait_Return usize
  | Wait_Lock sync_ref
  | Wait_Down sync_ref
  | Wait_Read file_ref task_ref proc_ref transfer
  | Wait_Write file_ref transfer

datatype sys_result = Returned usize | Suspended pending | Exited

text \<open>A test of the current process, and an error that the call reports as a value.\<close>

definition with_process :: "(proc_ref \<Rightarrow> (('tab, 'z) kernel_scheme, 'a) kop) \<Rightarrow> (('tab, 'z) kernel_scheme, 'a) kop" where
  "with_process f = kbind current_process f"

definition with_space :: "proc_ref \<Rightarrow> (space_state \<Rightarrow> 'a outcome) \<Rightarrow> (('tab, 'z) kernel_scheme, 'a) kop" where
  "with_space p f = kbind (get_proc p) (\<lambda>pb s. (f (pb_space pb, k_machine s), s))"

section \<open>Files\<close>

definition on_fds :: "proc_ref \<Rightarrow> (file_ref table, 'a) kop \<Rightarrow> (('tab, 'z) kernel_scheme, 'a) kop" where
  "on_fds p f = on_process p (\<lambda>pb. case f (pb_fd_table pb) of (r, tab) \<Rightarrow> (r, pb\<lparr>pb_fd_table := tab\<rparr>))"

definition store_file :: "'i open_file \<Rightarrow> (('tab, 'i, 'fs) os_kernel, file_ref) kop" where
  "store_file x s = (Ok (length (k_files s)), s\<lparr>k_files := k_files s @ [x]\<rparr>)"

definition sys_open :: "('act, 'tab, 'i, 'fs) environment \<Rightarrow> usize \<Rightarrow> u32 \<Rightarrow> (('tab, 'i, 'fs) os_kernel, usize) kop" where
  "sys_open E path_ptr flags =
     (case of_from_bits (env_files E) flags of
        None \<Rightarrow> kerr (InvalidOpenFlags flags)
      | Some flags \<Rightarrow>
          with_process (\<lambda>p.
          kbind (with_space p (translated_string (env_crates E) path_ptr)) (\<lambda>path s.
          case find_inode (env_files E) path flags s of
            (Ok inode, s') \<Rightarrow> kbind (store_file (InodeFile inode)) (\<lambda>f. on_fds p (alloc_fd f)) s'
          | (Err (FileDoesNotExists _), s') \<Rightarrow> (Ok (-1), s')
          | (Err e, s') \<Rightarrow> (Err e, s')
          | (Panic, s') \<Rightarrow> (Panic, s')
          | (Hang, s') \<Rightarrow> (Hang, s'))))"

definition sys_close :: "usize \<Rightarrow> (('tab, 'z) kernel_scheme, usize) kop" where
  "sys_close fd =
     with_process (\<lambda>p s.
       case on_fds p (dealloc_fd fd) s of
         (Ok _, s') \<Rightarrow> (Ok 0, s') | (Err _, s') \<Rightarrow> (Ok (-1), s')
       | (Panic, s') \<Rightarrow> (Panic, s') | (Hang, s') \<Rightarrow> (Hang, s'))"

definition lookup_file :: "proc_ref \<Rightarrow> usize \<Rightarrow> (('tab, 'z) kernel_scheme, file_ref) kop" where
  "lookup_file p fd =
     kbind (get_proc p) (\<lambda>pb.
     case get_file (pb_fd_table pb) fd of Some f \<Rightarrow> kret f | None \<Rightarrow> kerr (FileDescriptorDoesNotExist fd))"

definition hold_file :: "file_ref \<Rightarrow> (('tab, 'i, 'fs) os_kernel, unit) kop" where
  "hold_file f s = (Ok (), s\<lparr>k_file_held := (k_file_held s)(f := k_file_held s f + 1)\<rparr>)"

definition unhold_file :: "file_ref \<Rightarrow> (('tab, 'i, 'fs) os_kernel, unit) kop" where
  "unhold_file f s = (Ok (), s\<lparr>k_file_held := (k_file_held s)(f := k_file_held s f - 1)\<rparr>)"

text \<open>The methods of the trait \<open>File\<close>.\<close>

definition file_read :: "('i, 'fs) fs_crate \<Rightarrow> file_ref \<Rightarrow> transfer \<Rightarrow> (('tab, 'i, 'fs) os_kernel, transfer \<times> nat option) kop" where
  "file_read F f c s =
     (case k_files s ! f of
        Stdin \<Rightarrow> stdin_read c s
      | Stdout \<Rightarrow> (Panic, s)
      | PipeFile pipe \<Rightarrow> pipe_read pipe c s
      | InodeFile inode \<Rightarrow> kbind (inode_read F f inode (ui_slices (tr_iter c))) (\<lambda>n. kret (c, Some n)) s)"

definition file_write :: "('i, 'fs) fs_crate \<Rightarrow> file_ref \<Rightarrow> transfer \<Rightarrow> (('tab, 'i, 'fs) os_kernel, transfer \<times> nat option) kop" where
  "file_write F f c s =
     (case k_files s ! f of
        Stdin \<Rightarrow> (Panic, s)
      | Stdout \<Rightarrow> stdout_write (ui_slices (tr_iter c)) c s
      | PipeFile pipe \<Rightarrow> pipe_write pipe c s
      | InodeFile inode \<Rightarrow> kbind (inode_write F f inode (ui_slices (tr_iter c))) (\<lambda>n. kret (c, Some n)) s)"

text \<open>\<open>sys_write\<close> gives up its references to task and process before it writes.\<close>

definition write_on :: "('i, 'fs) fs_crate \<Rightarrow> file_ref \<Rightarrow> transfer \<Rightarrow> (('tab, 'i, 'fs) os_kernel, sys_result) kop" where
  "write_on F f c =
     kbind (on_error (file_write F f c) (unhold_file f)) (\<lambda>(c, r).
     case r of
       Some n \<Rightarrow> kbind (unhold_file f) (\<lambda>_. kret (Returned (of_nat n)))
     | None \<Rightarrow> kret (Suspended (Wait_Write f c)))"

definition sys_write :: "('act, 'tab, 'i, 'fs) environment \<Rightarrow> usize \<Rightarrow> usize \<Rightarrow> usize \<Rightarrow> (('tab, 'i, 'fs) os_kernel, sys_result) kop" where
  "sys_write E fd buffer_ptr len =
     with_process (\<lambda>p.
     kbind (with_space p (\<lambda>(sp, m). translated_byte_buffers (env_crates E) buffer_ptr len sp)) (\<lambda>buffers.
     kbind (lookup_file p fd) (\<lambda>f.
     kbind (hold_file f) (\<lambda>_.
     write_on (env_files E) f (transfer_new buffers)))))"

text \<open>\<open>sys_read\<close> keeps its references to task and process while it reads.\<close>

definition hold_all :: "file_ref \<Rightarrow> task_ref \<Rightarrow> proc_ref \<Rightarrow> (('tab, 'i, 'fs) os_kernel, unit) kop" where
  "hold_all f t p =
     kbind (hold_file f) (\<lambda>_ s.
       (Ok (), hold_task t (s\<lparr>k_proc_held := (k_proc_held s)(p := k_proc_held s p + 1)\<rparr>)))"

definition unhold_all :: "crates \<Rightarrow> file_ref \<Rightarrow> task_ref \<Rightarrow> proc_ref \<Rightarrow> (('tab, 'i, 'fs) os_kernel, unit) kop" where
  "unhold_all K f t p =
     kbind (unhold_file f) (\<lambda>_.
     kbind (\<lambda>s. process_release K p (s\<lparr>k_proc_held := (k_proc_held s)(p := k_proc_held s p - 1)\<rparr>)) (\<lambda>_.
     unhold_task K t))"

definition read_on ::
    "crates \<Rightarrow> ('i, 'fs) fs_crate \<Rightarrow> file_ref \<Rightarrow> task_ref \<Rightarrow> proc_ref \<Rightarrow> transfer \<Rightarrow> (('tab, 'i, 'fs) os_kernel, sys_result) kop" where
  "read_on K F f t p c =
     kbind (on_error (file_read F f c) (unhold_all K f t p)) (\<lambda>(c, r).
     case r of
       Some n \<Rightarrow> kbind (unhold_all K f t p) (\<lambda>_. kret (Returned (of_nat n)))
     | None \<Rightarrow> kret (Suspended (Wait_Read f t p c)))"

definition sys_read :: "('act, 'tab, 'i, 'fs) environment \<Rightarrow> usize \<Rightarrow> usize \<Rightarrow> usize \<Rightarrow> (('tab, 'i, 'fs) os_kernel, sys_result) kop" where
  "sys_read E fd buffer_ptr len =
     kbind (kassert (0 < len)) (\<lambda>_.
     kbind current_task (\<lambda>t.
     with_process (\<lambda>p.
     kbind (with_space p (\<lambda>(sp, m). translated_byte_buffers (env_crates E) buffer_ptr len sp)) (\<lambda>buffers.
     kbind (lookup_file p fd) (\<lambda>f.
     kbind (hold_all f t p) (\<lambda>_.
     read_on (env_crates E) (env_files E) f t p (transfer_new buffers)))))))"

definition sys_pipe :: "('act, 'tab, 'i, 'fs) environment \<Rightarrow> usize \<Rightarrow> usize \<Rightarrow> (('tab, 'i, 'fs) os_kernel, usize) kop" where
  "sys_pipe E read_tap_fd_ptr write_tap_fd_ptr =
     (let K = env_crates E in
      with_process (\<lambda>p.
      kbind (pipe_new PIPE_RING_BUFFER_LENGTH) (\<lambda>read_tap.
      kbind (\<lambda>s. kopt (writable_fork s read_tap) s) (\<lambda>write_tap.
      kbind (kbind (store_file (PipeFile read_tap)) (\<lambda>f. on_fds p (alloc_fd f))) (\<lambda>read_fd.
      kbind (kbind (store_file (PipeFile write_tap)) (\<lambda>f. on_fds p (alloc_fd f))) (\<lambda>write_fd.
      kbind (with_space p (\<lambda>(sp, m). translated_refmut K read_tap_fd_ptr 8 sp)) (\<lambda>_.
      kbind (with_space p (\<lambda>(sp, m). translated_refmut K write_tap_fd_ptr 8 sp)) (\<lambda>_.
      kbind (on_space p (store_user K read_tap_fd_ptr (le_bytes 8 read_fd))) (\<lambda>_.
      kbind (on_space p (store_user K write_tap_fd_ptr (le_bytes 8 write_fd))) (\<lambda>_.
      kret 0))))))))))"

definition sys_dup :: "usize \<Rightarrow> (('tab, 'z) kernel_scheme, usize) kop" where
  "sys_dup fd = with_process (\<lambda>p. kbind (lookup_file p fd) (\<lambda>f. on_fds p (alloc_fd f)))"

section \<open>Processes\<close>

definition sys_exit :: "crates \<Rightarrow> i32 \<Rightarrow> (('tab, 'z) kernel_scheme, sys_result) kop" where
  "sys_exit K exit_code = kbind (kunwrap (exit_current_and_run_other_task K exit_code)) (\<lambda>_. kret Exited)"

definition sys_get_pid :: "(('tab, 'z) kernel_scheme, usize) kop" where
  "sys_get_pid = with_process (\<lambda>p. kbind (get_proc p) (\<lambda>pb. kret (tracker_id (pb_tracker pb))))"

text \<open>The strong count of the new task: its process and the local variable.\<close>

definition sys_fork :: "('act, 'tab) platform \<Rightarrow> (('tab, 'z) kernel_scheme, usize) kop" where
  "sys_fork P =
     kbind current_task (\<lambda>t.
     kbind (get_task t) (\<lambda>tb.
     kbind (klift (forkable tb)) (\<lambda>_.
     kbind (fork_process P t) (\<lambda>c.
     kbind (get_proc c) (\<lambda>cb.
     kbind (kopt (root_task cb)) (\<lambda>nt.
     kbind (modify_trap_ctx (pf_crates P) nt c (set_arg 0 0)) (\<lambda>_.
     kbind (\<lambda>s. kassert (Suc (task_strong_count s nt) = 2) s) (\<lambda>_ s.
     (Ok (tracker_id (pb_tracker cb)), put_read_task nt s)))))))))"

definition sys_exec :: "('act, 'tab, 'i, 'fs) environment \<Rightarrow> usize \<Rightarrow> usize \<Rightarrow> (('tab, 'i, 'fs) os_kernel, usize) kop" where
  "sys_exec E path_ptr args_ptr =
     (let K = env_crates E; F = env_files E in
      kbind current_task (\<lambda>t.
      kbind (\<lambda>s. kassert (Suc (task_strong_count s t) = 3) s) (\<lambda>_.
      with_process (\<lambda>p.
      kbind (with_space p (translated_string K path_ptr)) (\<lambda>path.
      if path = [] then kerr (FileDoesNotExists path)
      else
        kbind (with_space p (translated_string K args_ptr)) (\<lambda>args.
        kbind (find_inode F path (OF_READ F)) (\<lambda>inode.
        kbind (read_all F inode) (\<lambda>data.
        exec (env_platform E) t path data args))))))))"

definition sys_wait_pid :: "crates \<Rightarrow> usize \<Rightarrow> usize \<Rightarrow> (('tab, 'z) kernel_scheme, usize) kop" where
  "sys_wait_pid K pid exit_code_ptr = with_process (\<lambda>p. wait_pid K p pid exit_code_ptr)"

section \<open>Tasks\<close>

definition sys_yield :: "(('tab, 'z) kernel_scheme, sys_result) kop" where
  "sys_yield = kbind suspend_current_and_run_other_task (\<lambda>_. kret (Suspended (Wait_Return 0)))"

definition sys_thread_create :: "('act, 'tab) platform \<Rightarrow> usize \<Rightarrow> usize \<Rightarrow> (('tab, 'z) kernel_scheme, usize) kop" where
  "sys_thread_create P entry_point arg =
     kbind current_task (\<lambda>t.
     kbind (get_task t) (\<lambda>tb.
     kbind (klift (forkable tb)) (\<lambda>_.
     kbind (alloc_task P (tb_process tb) entry_point (Some arg)) (\<lambda>nt.
     kbind (get_task nt) (\<lambda>ntb.
     kbind (klift (task_tid ntb)) (\<lambda>tid s.
     (Ok tid, put_read_task nt s)))))))"

definition sys_get_tid :: "(('tab, 'z) kernel_scheme, usize) kop" where
  "sys_get_tid = kbind current_task (\<lambda>t. kbind (get_task t) (\<lambda>tb. klift (task_tid tb)))"

definition sys_wait_tid :: "crates \<Rightarrow> usize \<Rightarrow> usize \<Rightarrow> (('tab, 'z) kernel_scheme, usize) kop" where
  "sys_wait_tid K tid exit_code_ptr = kbind current_task (\<lambda>t. wait_tid K t tid exit_code_ptr)"

section \<open>Signals\<close>

definition signal_of :: "('act, 'tab) signal_crate \<Rightarrow> usize \<Rightarrow> ('s, usize) kop" where
  "signal_of L signum = (case signal_try_from L signum of Inr signal \<Rightarrow> kret signal | Inl e \<Rightarrow> kerr (LibError e))"

definition sys_kill :: "('act, 'tab) platform \<Rightarrow> usize \<Rightarrow> usize \<Rightarrow> (('tab, 'z) kernel_scheme, usize) kop" where
  "sys_kill P pid signum =
     kbind (signal_of (pf_signals P) signum) (\<lambda>signal.
     kbind (get_process pid) (\<lambda>found.
     case found of
       Some p \<Rightarrow> (\<lambda>s.
         case process_kill P signal p s of
           (Err _, s') \<Rightarrow> (Ok (-1), s') | (Ok _, s') \<Rightarrow> (Ok 0, s')
         | (Panic, s') \<Rightarrow> (Panic, s') | (Hang, s') \<Rightarrow> (Hang, s'))
     | None \<Rightarrow> kerr ProcessHaveNotTask))"

definition load_user :: "crates \<Rightarrow> usize \<Rightarrow> usize \<Rightarrow> space_state \<Rightarrow> u8 list outcome" where
  "load_user K ptr sz = (\<lambda>(sp, m).
     case translated_refmut K ptr sz sp of
       Ok pa \<Rightarrow> Ok (map (\<lambda>i. frame_byte (mem m) (frame_of pa) (unat (pa mod MEMORY_PAGE_BYTE_SIZE) + i)) [0..<unat sz])
     | Err e \<Rightarrow> Err e | Panic \<Rightarrow> Panic | Hang \<Rightarrow> Hang)"

definition sys_sig_action :: "('act, 'tab, 'i, 'fs) environment \<Rightarrow> usize \<Rightarrow> usize \<Rightarrow> usize \<Rightarrow> (('tab, 'z) kernel_scheme, usize) kop" where
  "sys_sig_action E signum new_action old_action =
     (let K = env_crates E; L = env_signals E; A = env_actions E in
      kbind (signal_of L signum) (\<lambda>signal.
      let flag = signal_flag L signal in
      if flag = 0 \<or> new_action = 0 \<or> old_action = 0 \<or> flag = FLAG_KILL L \<or> flag = FLAG_STOP L then kret (-1)
      else
        with_process (\<lambda>p.
        kbind (with_space p (load_user K new_action (action_size A))) (\<lambda>bytes.
        kbind (with_space p (\<lambda>(sp, m). translated_refmut K old_action (action_size A) sp)) (\<lambda>_.
        kbind (get_proc p) (\<lambda>pb.
        kbind (on_space p (store_user K old_action (action_encode A (get_action L signal (pb_signal pb))))) (\<lambda>_.
        kbind (on_process p (\<lambda>pb. (Ok (), pb\<lparr>pb_signal := set_action L signal (action_decode A bytes) (pb_signal pb)\<rparr>))) (\<lambda>_.
        kret 0))))))))"

definition sys_sig_proc_mask :: "('act, 'tab) signal_crate \<Rightarrow> u32 \<Rightarrow> (('tab, 'z) kernel_scheme, usize) kop" where
  "sys_sig_proc_mask L msk =
     with_process (\<lambda>p.
     case sf_from_bits L msk of
       Some flags \<Rightarrow>
         on_process p (\<lambda>pb. case signal_mask flags (pb_signal pb) of
           (old, b) \<Rightarrow> (Ok (ucast old), pb\<lparr>pb_signal := b\<rparr>))
     | None \<Rightarrow> kret (-1))"

definition sys_sig_return :: "('act, 'tab) platform \<Rightarrow> (('tab, 'z) kernel_scheme, usize) kop" where
  "sys_sig_return P = with_process (signal_return P)"

section \<open>Time\<close>

definition sys_get_time :: "usize \<Rightarrow> (('tab, 'z) kernel_scheme, usize) kop" where
  "sys_get_time now = kret (get_timer_us now)"

definition sys_sleep :: "usize \<Rightarrow> usize \<Rightarrow> (('tab, 'z) kernel_scheme, sys_result) kop" where
  "sys_sleep now us = kbind (sleep_current_and_run_other_task now us) (\<lambda>_. kret (Suspended (Wait_Return 0)))"

section \<open>The dispatcher\<close>

definition returning :: "('s, usize) kop \<Rightarrow> ('s, sys_result) kop" where
  "returning f = kbind f (\<lambda>v. kret (Returned v))"

definition lock_on :: "sync_ref \<Rightarrow> (('tab, 'z) sync_kernel_scheme, sys_result) kop" where
  "lock_on r = kbind (mutex_lock_round r) (\<lambda>done. kret (if done then Returned 0 else Suspended (Wait_Lock r)))"

definition down_on :: "sync_ref \<Rightarrow> (('tab, 'z) sync_kernel_scheme, sys_result) kop" where
  "down_on q = kbind (semaphore_down_round q) (\<lambda>done. kret (if done then Returned 0 else Suspended (Wait_Down q)))"

definition syscall ::
    "('act, 'tab, 'i, 'fs) environment \<Rightarrow> usize \<Rightarrow> usize \<Rightarrow> usize \<Rightarrow> usize \<Rightarrow> usize \<Rightarrow> (('tab, 'i, 'fs) os_kernel, sys_result) kop" where
  "syscall E now i arg1 arg2 arg3 =
     (let I = env_sysids E; P = env_platform E; K = pf_crates P in
      if i = SYS_DUP I then returning (sys_dup arg1)
      else if i = SYS_OPEN I then returning (sys_open E arg1 (ucast arg2))
      else if i = SYS_CLOSE I then returning (sys_close arg1)
      else if i = SYS_PIPE I then returning (sys_pipe E arg1 arg2)
      else if i = SYS_READ I then sys_read E arg1 arg2 arg3
      else if i = SYS_WRITE I then sys_write E arg1 arg2 arg3
      else if i = SYS_EXIT I then sys_exit K (ucast arg1)
      else if i = SYS_SLEEP I then sys_sleep now arg1
      else if i = SYS_YIELD I then sys_yield
      else if i = SYS_KILL I then returning (sys_kill P arg1 arg2)
      else if i = SYS_SIG_ACTION I then returning (sys_sig_action E arg1 arg2 arg3)
      else if i = SYS_SIG_PROC_MASK I then returning (sys_sig_proc_mask (pf_signals P) (ucast arg1))
      else if i = SYS_SIG_RETURN I then returning (sys_sig_return P)
      else if i = SYS_GET_TIME I then returning (sys_get_time now)
      else if i = SYS_GET_PID I then returning sys_get_pid
      else if i = SYS_FORK I then returning (sys_fork P)
      else if i = SYS_EXEC I then returning (sys_exec E arg1 arg2)
      else if i = SYS_WAIT_PID I then returning (sys_wait_pid K arg1 arg2)
      else if i = SYS_THREAD_CREATE I then returning (sys_thread_create P arg1 arg2)
      else if i = SYS_GET_TID I then returning sys_get_tid
      else if i = SYS_WAIT_TID I then returning (sys_wait_tid K arg1 arg2)
      else if i = SYS_MUTEX_CREATE I then returning (sys_create_mutex (arg1 \<noteq> 0))
      else if i = SYS_MUTEX_LOCK I then kbind (lookup_mutex arg1) lock_on
      else if i = SYS_MUTEX_UNLOCK I then returning (sys_unlock_mutex arg1)
      else if i = SYS_SEMAPHORE_CREATE I then returning (sys_create_semaphore (arg1 \<noteq> 0) arg2)
      else if i = SYS_SEMAPHORE_UP I then returning (sys_up_semaphore arg1)
      else if i = SYS_SEMAPHORE_DOWN I then kbind (lookup_semaphore arg1) down_on
      else if i = SYS_CONDVAR_CREATE I then returning sys_create_condvar
      else if i = SYS_CONDVAR_SIGNAL I then returning (sys_signal_condvar arg1)
      else if i = SYS_CONDVAR_WAIT I then
        kbind (lookup_mutex arg2) (\<lambda>r. kbind (sys_wait_condvar arg1 arg2) (\<lambda>_. kret (Suspended (Wait_Lock r))))
      else kerr (InvaidSyscallId i))"

text \<open>The next round of a call whose task runs again.\<close>

fun resume_call :: "('act, 'tab, 'i, 'fs) environment \<Rightarrow> pending \<Rightarrow> (('tab, 'i, 'fs) os_kernel, sys_result) kop" where
  "resume_call E (Wait_Return v) = kret (Returned v)"
| "resume_call E (Wait_Lock r) = lock_on r"
| "resume_call E (Wait_Down q) = (\<lambda>s.
     if q < length (k_semaphores s) then
       (case k_semaphores s ! q of
          SemaphoreBlocking _ \<Rightarrow> (Ok (Returned 0), s) | SemaphoreSpin _ \<Rightarrow> down_on q s)
     else (Panic, s))"
| "resume_call E (Wait_Read f t p c) = read_on (env_crates E) (env_files E) f t p c"
| "resume_call E (Wait_Write f c) = write_on (env_files E) f c"

end
