(* ===== verification/Traps.thy ===== *)
theory Traps
  imports Syscalls
begin

text \<open>
  The trap handler (src/trap/handler_riscv.rs).

  The cause of a trap is what the crate riscv decodes from \<open>scause\<close>; the exceptions and
  interrupts that the handler does not name are \<open>OtherException\<close> and \<open>OtherInterrupt\<close>.
  The handler runs until it returns to user mode, the task gives up the processor or the task ends;
  a task that gave up the processor inside the handler goes on at its \<open>resume_point\<close>.
\<close>

unbundle bit_operations_syntax

datatype exception =
    UserEnvCall | StoreFault | StorePageFault | InstructionFault | InstructionPageFault
  | LoadFault | LoadPageFault | IllegalInstruction | OtherException

datatype interrupt = SupervisorTimer | OtherInterrupt

datatype trap = Exception exception | Interrupt interrupt

datatype resume_point = In_Call pending | In_Signals

text \<open>Back to user mode with the address of the trap context and the token of the space.\<close>

datatype trap_result = To_User usize usize | Gave_Up resume_point | Gone

text \<open>
  \<open>trap_return\<close> up to the jump to the trampoline, which reloads the registers from the trap
  context at that address.
\<close>

definition trap_return :: "crates \<Rightarrow> (('tab, 'z) kernel_scheme, trap_result) kop" where
  "trap_return K =
     kbind (kunwrap current_task) (\<lambda>t.
     kbind (get_task t) (\<lambda>tb.
     kbind (klift (task_tid tb)) (\<lambda>tid.
     kbind (klift (get_task_trap_ctx_bottom_va K tid)) (\<lambda>trap_ctx_va.
     kbind (get_proc (tb_process tb)) (\<lambda>pb.
     kbind (klift (space_mmu_token K (pb_space pb))) (\<lambda>user_mmu_token.
     kret (To_User trap_ctx_va user_mmu_token)))))))"

definition leave :: "crates \<Rightarrow> i32 \<Rightarrow> (('tab, 'z) kernel_scheme, trap_result) kop" where
  "leave K exit_code = kbind (kunwrap (exit_current_and_run_other_task K exit_code)) (\<lambda>_. kret Gone)"

text \<open>The end of \<open>trap_handler\<close>, from the signals on.\<close>

definition finish_trap :: "('act, 'tab) platform \<Rightarrow> (('tab, 'z) kernel_scheme, trap_result) kop" where
  "finish_trap P s =
     (case handle_signals_round P s of
        (Ok None, s') \<Rightarrow> (Ok (Gave_Up In_Signals), s')
      | (Ok (Some None), s') \<Rightarrow> trap_return (pf_crates P) s'
      | (Ok (Some (Some signal)), s') \<Rightarrow> leave (pf_crates P) (- ucast signal) s'
      | (Err e, s') \<Rightarrow> leave (pf_crates P) (-1) s'
      | (Panic, s') \<Rightarrow> (Panic, s')
      | (Hang, s') \<Rightarrow> (Hang, s'))"

text \<open>What the handler does with the outcome of a round of a system call.\<close>

definition after_call :: "('act, 'tab) platform \<Rightarrow> (('tab, 'z) kernel_scheme, sys_result) kop \<Rightarrow> (('tab, 'z) kernel_scheme, trap_result) kop" where
  "after_call P f s =
     (case f s of
        (Ok (Returned v), s') \<Rightarrow>
          kbind (kunwrap current_task) (\<lambda>t.
          kbind (get_task t) (\<lambda>tb.
          kbind (kunwrap (modify_trap_ctx (pf_crates P) t (tb_process tb) (set_arg 0 v))) (\<lambda>_.
          finish_trap P))) s'
      | (Ok (Suspended c), s') \<Rightarrow> (Ok (Gave_Up (In_Call c)), s')
      | (Ok Exited, s') \<Rightarrow> (Ok Gone, s')
      | (Err e, s') \<Rightarrow>
          kbind (kunwrap current_task) (\<lambda>t.
          kbind (get_task t) (\<lambda>tb.
          kbind (klift (task_tid tb)) (\<lambda>_.
          kbind (get_proc (tb_process tb)) (\<lambda>_.
          leave (pf_crates P) (-1))))) s'
      | (Panic, s') \<Rightarrow> (Panic, s')
      | (Hang, s') \<Rightarrow> (Hang, s'))"

text \<open>The call number and the arguments; the context will return behind the call.\<close>

definition read_call :: "(trap_context, usize \<times> usize \<times> usize \<times> usize) kop" where
  "read_call =
     (\<lambda>c. kbind (klift (get_arg 7 c)) (\<lambda>i.
          kbind (klift (get_arg 0 c)) (\<lambda>arg1.
          kbind (klift (get_arg 1 c)) (\<lambda>arg2.
          kbind (klift (get_arg 2 c)) (\<lambda>arg3.
          kbind sepc_to_next_instruction (\<lambda>_.
          kret (i, arg1, arg2, arg3)))))) c)"

definition env_call :: "('act, 'tab, 'i, 'fs) environment \<Rightarrow> usize \<Rightarrow> (('tab, 'i, 'fs) os_kernel, trap_result) kop" where
  "env_call E now =
     kbind (kunwrap current_task) (\<lambda>t.
     kbind (\<lambda>s. kassert (Suc (task_strong_count s t) = 3) s) (\<lambda>_.
     kbind (get_task t) (\<lambda>tb.
     kbind (kunwrap (modify_trap_ctx (env_crates E) t (tb_process tb) read_call)) (\<lambda>(i, arg1, arg2, arg3).
     after_call (env_platform E) (syscall E now i arg1 arg2 arg3)))))"

definition exception_trap_handler :: "('act, 'tab, 'i, 'fs) environment \<Rightarrow> usize \<Rightarrow> exception \<Rightarrow> (('tab, 'i, 'fs) os_kernel, trap_result) kop" where
  "exception_trap_handler E now exn =
     (let P = env_platform E; L = pf_signals P in
      case exn of
        UserEnvCall \<Rightarrow> env_call E now
      | IllegalInstruction \<Rightarrow>
          kbind (kunwrap (send_current_task_signal P (SIG_ILL L))) (\<lambda>_. finish_trap P)
      | OtherException \<Rightarrow> kpanic
      | _ \<Rightarrow> kbind (kunwrap (send_current_task_signal P (SIG_SEGV L))) (\<lambda>_. finish_trap P))"

text \<open>The next trigger of the timer is set in the firmware.\<close>

definition interrupt_trap_handler :: "('act, 'tab) platform \<Rightarrow> usize \<Rightarrow> interrupt \<Rightarrow> (('tab, 'z) kernel_scheme, trap_result) kop" where
  "interrupt_trap_handler P now intr =
     (case intr of
        SupervisorTimer \<Rightarrow>
          kbind (check_timers (pf_crates P) now) (\<lambda>_.
          kbind (kunwrap suspend_current_and_run_other_task) (\<lambda>_.
          kret (Gave_Up In_Signals)))
      | OtherInterrupt \<Rightarrow> kpanic)"

definition trap_handler :: "('act, 'tab, 'i, 'fs) environment \<Rightarrow> usize \<Rightarrow> trap \<Rightarrow> (('tab, 'i, 'fs) os_kernel, trap_result) kop" where
  "trap_handler E now cause =
     (case cause of
        Exception exn \<Rightarrow> exception_trap_handler E now exn
      | Interrupt intr \<Rightarrow> interrupt_trap_handler (env_platform E) now intr)"

text \<open>The current task goes on in the kernel where it gave up the processor.\<close>

fun resume_trap :: "('act, 'tab, 'i, 'fs) environment \<Rightarrow> resume_point \<Rightarrow> (('tab, 'i, 'fs) os_kernel, trap_result) kop" where
  "resume_trap E (In_Call c) = after_call (env_platform E) (resume_call E c)"
| "resume_trap E In_Signals = finish_trap (env_platform E)"

end
