(* ===== verification/Startup.thy ===== *)
theory Startup
  imports Traps
begin

text \<open>
  Starting the kernel (src/main.rs, \<open>init\<close> of src/memory/mod.rs and src/task/mod.rs): the
  state that the initialisation builds, and the lock that keeps the other harts waiting for it.

  The statics of the kernel are created when they are used first; the first process is one of them.
  The kernel heap and the logger have no part in the state.
\<close>

section \<open>Initialisation\<close>

definition memory_init :: "('act, 'tab) platform \<Rightarrow> (machine, space) kop" where
  "memory_init P =
     kbind (init_frame_allocator (pf_crates P) (free_mem_start (pf_image P)) (free_mem_end (pf_image P))) (\<lambda>_.
     kunwrap (new_kernel (pf_crates P) (pf_image P)))"

definition kernel_new :: "space \<Rightarrow> 'fs \<Rightarrow> machine \<Rightarrow> ('tab, 'i, 'fs) os_kernel" where
  "kernel_new sp fs m =
     \<lparr>k_machine = m, k_kernel_space = sp, k_pids = id_allocator_new MAX_PID_COUNT,
      k_kernel_stacks = id_allocator_new (MAX_PID_COUNT * MAX_TID_COUNT),
      k_tasks = Map.empty, k_procs = Map.empty, k_next_task = 0, k_next_proc = 0, k_init = None,
      k_processor = processor_new, k_scheduler = task_scheduler_new,
      k_held = (\<lambda>_. 0), k_proc_held = (\<lambda>_. 0), k_mutexes = [], k_semaphores = [], k_condvars = [],
      k_files = [Stdin, Stdout], k_file_held = (\<lambda>f. if f = STDIN \<or> f = STDOUT then 1 else 0),
      k_rings = [], k_ring_held = (\<lambda>_. 0), k_stdin_locked = False, k_stdout_locked = False,
      k_console_in = [], k_console_out = [], k_fs = fs\<rparr>"

definition new_init_proc :: "('act, 'tab, 'i, 'fs) environment \<Rightarrow> (('tab, 'i, 'fs) os_kernel, proc_ref) kop" where
  "new_init_proc E =
     kbind (find_inode (env_files E) INIT_PROCESS_PATH (OF_READ (env_files E))) (\<lambda>inode.
     kbind (read_all (env_files E) inode) (\<lambda>data.
     process_new (env_platform E) INIT_PROCESS_PATH data None))"

text \<open>The static \<open>INIT_PROC\<close>.\<close>

definition init_proc :: "('act, 'tab, 'i, 'fs) environment \<Rightarrow> (('tab, 'i, 'fs) os_kernel, proc_ref) kop" where
  "init_proc E s =
     (case k_init s of
        Some i \<Rightarrow> (Ok i, s)
      | None \<Rightarrow> kbind (kunwrap (new_init_proc E)) (\<lambda>i s. (Ok i, s\<lparr>k_init := Some i\<rparr>)) s)"

definition add_init_proc :: "('act, 'tab, 'i, 'fs) environment \<Rightarrow> (('tab, 'i, 'fs) os_kernel, unit) kop" where
  "add_init_proc E =
     kbind (init_proc E) (\<lambda>i.
     kbind (get_proc i) (\<lambda>pb.
     kbind (kopt (root_task pb)) (\<lambda>t s. (Ok (), put_read_task t s))))"

definition boot :: "('act, 'tab, 'i, 'fs) environment \<Rightarrow> 'fs \<Rightarrow> machine \<Rightarrow> ('tab, 'i, 'fs) os_kernel outcome" where
  "boot E fs m =
     (case memory_init (env_platform E) m of
        (Ok sp, m') \<Rightarrow>
          (case add_init_proc E (kernel_new sp fs m') of
             (Ok _, s) \<Rightarrow> Ok s | (Err e, _) \<Rightarrow> Err e | (Panic, _) \<Rightarrow> Panic | (Hang, _) \<Rightarrow> Hang)
      | (Err e, _) \<Rightarrow> Err e | (Panic, _) \<Rightarrow> Panic | (Hang, _) \<Rightarrow> Hang)"

section \<open>The harts\<close>

text \<open>
  Where a hart is in \<open>main\<close>: hart 0 initialises the kernel, releases the lock at the end of
  \<open>init\<close> and once more in \<open>main\<close>; then every hart waits for the lock and goes on to run tasks.
  Every access to the lock is one step, and the steps of the harts interleave.
\<close>

datatype hart_pc = At_Start | At_Init_Release | At_Main_Release | At_Wait | Running_Tasks

record startup =
  su_initialized :: bool
  su_booted :: bool
  su_pc :: "nat \<Rightarrow> hart_pc"

definition startup_new :: startup where
  "startup_new = \<lparr>su_initialized = True, su_booted = False, su_pc = (\<lambda>h. At_Start)\<rparr>"

definition move :: "nat \<Rightarrow> hart_pc \<Rightarrow> startup \<Rightarrow> startup" where
  "move h q s = s\<lparr>su_pc := (su_pc s)(h := q)\<rparr>"

definition release :: "startup \<Rightarrow> startup" where
  "release s = s\<lparr>su_initialized := False\<rparr>"

text \<open>One turn of the loop of \<open>wait\<close>.\<close>

definition wait_turn :: "nat \<Rightarrow> startup \<Rightarrow> startup" where
  "wait_turn h s = (if su_initialized s then s else move h Running_Tasks (s\<lparr>su_initialized := True\<rparr>))"

definition main_step :: "nat \<Rightarrow> startup \<Rightarrow> startup" where
  "main_step h s =
     (case su_pc s h of
        At_Start \<Rightarrow> if h = 0 then move h At_Init_Release (s\<lparr>su_booted := True\<rparr>) else move h At_Wait s
      | At_Init_Release \<Rightarrow> move h At_Main_Release (release s)
      | At_Main_Release \<Rightarrow> move h At_Wait (release s)
      | At_Wait \<Rightarrow> wait_turn h s
      | Running_Tasks \<Rightarrow> s)"

fun run_harts :: "nat list \<Rightarrow> startup \<Rightarrow> startup" where
  "run_harts [] s = s"
| "run_harts (h # hs) s = run_harts hs (main_step h s)"

text \<open>The times the lock will be released and whether it is free: each lets one hart through.\<close>

fun releases_left :: "hart_pc \<Rightarrow> nat" where
  "releases_left At_Start = 2"
| "releases_left At_Init_Release = 2"
| "releases_left At_Main_Release = 1"
| "releases_left At_Wait = 0"
| "releases_left Running_Tasks = 0"

definition passes_left :: "startup \<Rightarrow> nat" where
  "passes_left s = releases_left (su_pc s 0) + (if su_initialized s then 0 else 1)"

definition running :: "startup \<Rightarrow> nat set" where
  "running s = {h. su_pc s h = Running_Tasks}"

text \<open>
  Before hart 0 has reached its first release nothing runs and the lock is held; afterwards the
  harts that run and the passes that are left make up at most the two releases.
\<close>

definition startup_inv :: "startup \<Rightarrow> bool" where
  "startup_inv s \<longleftrightarrow>
     finite (running s) \<and> card (running s) + passes_left s \<le> 2 \<and>
     (su_pc s 0 \<in> {At_Start, At_Init_Release} \<longrightarrow> su_initialized s) \<and>
     (su_pc s 0 = At_Start \<or> su_booted s) \<and>
     (\<forall>h. h \<noteq> 0 \<longrightarrow> su_pc s h \<notin> {At_Init_Release, At_Main_Release})"

lemma running_move:
  "q \<noteq> Running_Tasks \<Longrightarrow> running (move h q s) = running s - {h}"
  "running (move h Running_Tasks s) = insert h (running s)"
  by (auto simp: running_def move_def split: if_splits)

lemma startup_inv_new: "startup_inv startup_new"
  by (simp add: startup_inv_def startup_new_def running_def passes_left_def)

lemma running_update [simp]: "running (s\<lparr>su_initialized := b\<rparr>) = running s" "running (s\<lparr>su_booted := b\<rparr>) = running s"
  by (simp_all add: running_def)

lemma startup_inv_step:
  assumes inv: "startup_inv s"
  shows "startup_inv (main_step h s)"
proof (cases "su_pc s h")
  case At_Wait
  have notin: "h \<notin> running s" using At_Wait by (simp add: running_def)
  show ?thesis
  proof (cases "su_initialized s")
    case True
    then show ?thesis using inv At_Wait by (simp add: main_step_def wait_turn_def)
  next
    case False
    let ?s = "move h Running_Tasks (s\<lparr>su_initialized := True\<rparr>)"
    have "passes_left ?s + 1 = passes_left s" using False At_Wait by (cases "h = 0") (simp_all add: passes_left_def move_def)
    then have "card (running ?s) + passes_left ?s \<le> 2" using inv notin by (simp add: startup_inv_def running_move)
    moreover have "su_pc ?s 0 = At_Start \<or> su_booted ?s" using inv False by (auto simp: startup_inv_def move_def)
    moreover have "su_pc ?s g \<notin> {At_Init_Release, At_Main_Release}" if "g \<noteq> 0" for g
      using inv that by (simp add: startup_inv_def move_def)
    ultimately have "startup_inv ?s" using inv by (simp add: startup_inv_def running_move) (simp add: move_def)
    then show ?thesis using At_Wait False by (simp add: main_step_def wait_turn_def)
  qed
next
  case Running_Tasks
  then show ?thesis using inv by (simp add: main_step_def)
next
  case At_Start
  then have "h \<notin> running s" by (simp add: running_def)
  then show ?thesis using inv At_Start
    by (cases "h = 0") (simp_all add: startup_inv_def main_step_def running_move passes_left_def, auto simp: move_def)
next
  case At_Init_Release
  then have "h \<notin> running s" and "h = 0" using inv by (auto simp: running_def startup_inv_def)
  then show ?thesis using inv At_Init_Release
    by (simp add: startup_inv_def main_step_def running_move release_def passes_left_def) (simp add: move_def)
next
  case At_Main_Release
  then have "h \<notin> running s" and "h = 0" using inv by (auto simp: running_def startup_inv_def)
  then show ?thesis using inv At_Main_Release
    by (simp add: startup_inv_def main_step_def running_move release_def passes_left_def) (simp add: move_def split: if_splits)
qed

lemma startup_inv_run: "startup_inv s \<Longrightarrow> startup_inv (run_harts hs s)"
  by (induction hs arbitrary: s) (simp_all add: startup_inv_step)

text \<open>
  C26. However the harts interleave while the kernel starts, no hart runs tasks before hart 0 has
  initialised the kernel, and never do more than two harts run tasks.
\<close>

theorem startup_bounded:
  "let s = run_harts hs startup_new in
     card (running s) \<le> 2 \<and> (running s \<noteq> {} \<longrightarrow> su_booted s)"
proof -
  let ?s = "run_harts hs startup_new"
  have inv: "startup_inv ?s" using startup_inv_run startup_inv_new by blast
  have "su_booted ?s" if "running ?s \<noteq> {}"
  proof (rule ccontr)
    assume no: "\<not> su_booted ?s"
    then have start: "su_pc ?s 0 = At_Start" using inv by (auto simp: startup_inv_def)
    then have "passes_left ?s = 2" using inv by (simp add: startup_inv_def passes_left_def)
    then have "card (running ?s) = 0" "finite (running ?s)" using inv by (auto simp: startup_inv_def)
    then show False using that by simp
  qed
  then show ?thesis using inv by (auto simp: startup_inv_def Let_def)
qed

lemmas startup_steps = startup_new_def main_step_def move_def release_def wait_turn_def

theorem startup_bounded_witness:
  "running (run_harts [0, 0, 0, 0] startup_new) = {0} \<and> card (running (run_harts [0, 0, 0, 0] startup_new)) \<le> 2 \<and>
   su_booted (run_harts [0, 0, 0, 0] startup_new)"
proof -
  have "su_pc (run_harts [0, 0, 0, 0] startup_new) = (\<lambda>_. At_Start)(0 := Running_Tasks)"
    by (simp add: startup_steps)
  then have "running (run_harts [0, 0, 0, 0] startup_new) = {0}" unfolding running_def by auto
  then show ?thesis using startup_bounded [of "[0, 0, 0, 0]"] by (simp add: Let_def del: run_harts.simps)
qed

text \<open>
  C32. The second release of the lock in \<open>main\<close> lets a second hart through: with any other hart
  there is an interleaving in which it and hart 0 both run tasks, though the cells of the kernel
  are made for one hart.
\<close>

theorem second_hart_runs:
  "\<exists>hs. running (run_harts hs startup_new) = {0, Suc h}"
proof (rule exI)
  have "su_pc (run_harts [0, 0, Suc h, Suc h, 0, 0] startup_new) =
      (\<lambda>_. At_Start)(0 := Running_Tasks, Suc h := Running_Tasks)"
    by (simp add: startup_steps fun_upd_twist [of 0])
  then show "running (run_harts [0, 0, Suc h, Suc h, 0, 0] startup_new) = {0, Suc h}"
    unfolding running_def by auto
qed

end
