(* ===== verification/Trap_Properties.thy ===== *)
theory Trap_Properties
  imports Startup User_Memory
begin

text \<open>
  What a trap from user mode does, end to end: how a system call returns, what a fault and a signal
  do to the task, and how the timer interrupt takes the processor away.
\<close>

unbundle bit_operations_syntax

section \<open>The trap context of a task\<close>

text \<open>The frame in which the trap context of a task lies.\<close>

definition ctx_frame :: "crates \<Rightarrow> task_ref \<Rightarrow> ('tab, 'z) kernel_scheme \<Rightarrow> usize option" where
  "ctx_frame K t s =
     (case k_tasks s t of
        Some tb \<Rightarrow>
          (case (tb_user_resource tb, k_procs s (tb_process tb)) of
             (Some tr, Some pb) \<Rightarrow>
               (case get_trap_ctx K (tracker_id tr) (pb_space pb) of Ok pa \<Rightarrow> Some (frame_of pa) | _ \<Rightarrow> None)
           | _ \<Rightarrow> None)
      | None \<Rightarrow> None)"

definition set_ctx :: "usize \<Rightarrow> trap_context \<Rightarrow> ('tab, 'z) kernel_scheme \<Rightarrow> ('tab, 'z) kernel_scheme" where
  "set_ctx q c s = s\<lparr>k_machine := (k_machine s)\<lparr>mem := store_trap_ctx q c (mem (k_machine s))\<rparr>\<rparr>"

abbreviation ctx_in :: "('tab, 'z) kernel_scheme \<Rightarrow> usize \<Rightarrow> trap_context" where
  "ctx_in s q \<equiv> load_trap_ctx (mem (k_machine s)) q"

lemma set_ctx_fields [simp]:
  "k_processor (set_ctx q c s) = k_processor s" "k_tasks (set_ctx q c s) = k_tasks s" "k_procs (set_ctx q c s) = k_procs s"
  "k_scheduler (set_ctx q c s) = k_scheduler s" "k_held (set_ctx q c s) = k_held s"
  "ctx_frame K t (set_ctx q c s) = ctx_frame K t s" "task_strong_count (set_ctx q c s) t = task_strong_count s t"
  by (simp_all add: set_ctx_def ctx_frame_def task_strong_count_def cong: option.case_cong)

lemma ctx_in_set [simp]: "trap_ctx_wf c \<Longrightarrow> ctx_in (set_ctx q c s) q = c"
  by (simp add: set_ctx_def)

lemma store_trap_ctx_twice: "store_trap_ctx q c' (store_trap_ctx q c M) = store_trap_ctx q c' M"
  by (auto simp: store_trap_ctx_def fun_eq_iff)

lemma set_ctx_twice [simp]: "set_ctx q c' (set_ctx q c s) = set_ctx q c' s"
  by (simp add: set_ctx_def store_trap_ctx_twice)

lemma modify_ctx:
  assumes "ctx_frame K t s = Some q" and "k_tasks s t = Some tb"
  shows "modify_trap_ctx K t (tb_process tb) f s = (case f (ctx_in s q) of (r, c) \<Rightarrow> (r, set_ctx q c s))"
  using assms by (auto simp: ctx_frame_def modify_trap_ctx_def set_ctx_def split: option.splits outcome.splits)

section \<open>Signals that are not delivered\<close>

text \<open>
  A signal is passed over when it is not pending, or when it has the default action and is none of
  the four that the kernel handles itself.
\<close>

definition passed_over :: "('act, 'tab) signal_crate \<Rightarrow> 'tab signal_block \<Rightarrow> usize \<Rightarrow> bool" where
  "passed_over L b sig \<longleftrightarrow> \<not> is_pending_signal L sig b \<or>
     sig \<notin> {SIG_STOP L, SIG_CONT L, SIG_KILL L, SIG_DEF L} \<and> action_handler L (get_action L sig b) = 0"

lemma signal_loop_passes:
  "\<forall>sig \<in> set sigs. passed_over L b sig \<Longrightarrow>
     signal_loop L f sigs (b, m) = (Ok (is_killed b, is_frozen b), (b, m))"
  by (induction sigs) (auto simp: passed_over_def Let_def)

lemma on_signals_same:
  assumes "k_procs s p = Some pb" and "f (pb_signal pb, s) = (Ok x, (pb_signal pb, s))"
  shows "on_signals p f s = (Ok x, s)"
proof -
  have "s\<lparr>k_procs := (k_procs s)(p \<mapsto> pb)\<rparr> = s" using assms(1) by (simp add: map_upd_triv)
  then show ?thesis using assms by (simp add: on_signals_def get_proc_def on_process_def kbind_def klift_def)
qed

text \<open>What the end of the trap handler does when every signal is passed over.\<close>

lemma finish_trap_passes:
  assumes "k_current s = Some t" and "k_tasks s t = Some tb" and "k_procs s (tb_process tb) = Some pb"
    and "\<forall>sig \<in> set (signal_iter (pf_signals P)). passed_over (pf_signals P) (pb_signal pb) sig"
    and "\<not> sg_frozen (pb_signal pb)"
  shows "finish_trap P s =
    (case get_bad_signal (pf_signals P) (pb_signal pb) of
       None \<Rightarrow> trap_return (pf_crates P) s | Some signal \<Rightarrow> leave (pf_crates P) (- ucast signal) s)"
proof -
  have "handle_all_signals P (tb_process tb) s = (Ok (is_killed (pb_signal pb), is_frozen (pb_signal pb)), s)"
    unfolding handle_all_signals_def
    by (rule on_signals_same [OF assms(3)]) (rule signal_loop_passes [OF assms(4)])
  then have "handle_signals_round P s = (Ok (Some (get_bad_signal (pf_signals P) (pb_signal pb))), s)"
    using assms by (simp add: handle_signals_round_def current_task_def get_task_def kbind_def check_bad_signals_def
        get_proc_def is_frozen_def)
  then show ?thesis by (simp add: finish_trap_def split: option.split)
qed

lemma no_signal_set:
  assumes "signal_crate_ok L" and "sg_setted b = 0"
  shows "\<forall>sig \<in> set (signal_iter L). passed_over L b sig" and "get_bad_signal L b = None"
proof -
  have "\<not> is_pending_signal L sig b" if "sig \<in> set (signal_iter L)" for sig
    using flag_nonzero [OF assms(1) that] assms(2) by (auto simp: is_pending_signal_def Let_def sf_ok [OF assms(1)])
  then show "\<forall>sig \<in> set (signal_iter L). passed_over L b sig" by (simp add: passed_over_def)
  show "get_bad_signal L b = None"
    using named_signals(1-4,6) [OF assms(1), THEN flag_nonzero [OF assms(1)]]
    by (simp add: get_bad_signal_def sf_ok [OF assms(1)] named_flags [OF assms(1)] assms(2))
qed

text \<open>The five signals that end a task when they are set and not delivered.\<close>

definition bad_signals :: "('act, 'tab) signal_crate \<Rightarrow> usize list" where
  "bad_signals L = [SIG_INT L, SIG_ILL L, SIG_ABRT L, SIG_FPE L, SIG_SEGV L]"

lemma one_signal_set:
  assumes L: "signal_crate_ok L" and bad: "sig \<in> set (bad_signals L)" and set: "sg_setted b = signal_flag L sig"
  shows "get_bad_signal L b = Some sig"
    and "\<forall>other \<in> set (signal_iter L). other \<noteq> sig \<longrightarrow> \<not> is_pending_signal L other b"
proof -
  note names = named_signals [OF L] and flags = named_flags [OF L] and sf = sf_ok [OF L]
  have iter: "sig \<in> set (signal_iter L)" using bad names(1-4,6) by (auto simp: bad_signals_def)
  have not: "\<not> sf_contains L (sg_setted b) (signal_flag L other)"
    if "other \<in> set (signal_iter L)" "other \<noteq> sig" for other
    using flags_apart [OF L iter that(1) that(2) [symmetric]] flag_nonzero [OF L that(1)] set by (simp add: sf)
  have own: "sf_contains L (sg_setted b) (signal_flag L sig)" using set by (simp add: sf)
  have eq: "sf_contains L (sg_setted b) (signal_flag L other) = (other = sig)"
    if "other \<in> set (signal_iter L)" for other using not [OF that] own by blast
  show "get_bad_signal L b = Some sig"
    using bad names(9) unfolding get_bad_signal_def flags names(1-4,6) [THEN eq] by (auto simp: bad_signals_def)
  show "\<forall>other \<in> set (signal_iter L). other \<noteq> sig \<longrightarrow> \<not> is_pending_signal L other b"
    using not by (auto simp: is_pending_signal_def Let_def)
qed

section \<open>System calls\<close>

text \<open>The numbers of the system calls differ from each other.\<close>

definition sysids_ok :: "sysid_crate \<Rightarrow> bool" where
  "sysids_ok I \<longleftrightarrow> distinct [SYS_DUP I, SYS_OPEN I, SYS_CLOSE I, SYS_PIPE I, SYS_READ I, SYS_WRITE I, SYS_EXIT I,
     SYS_SLEEP I, SYS_YIELD I, SYS_KILL I, SYS_SIG_ACTION I, SYS_SIG_PROC_MASK I, SYS_SIG_RETURN I, SYS_GET_TIME I,
     SYS_GET_PID I, SYS_FORK I, SYS_EXEC I, SYS_WAIT_PID I, SYS_THREAD_CREATE I, SYS_GET_TID I, SYS_WAIT_TID I,
     SYS_MUTEX_CREATE I, SYS_MUTEX_LOCK I, SYS_MUTEX_UNLOCK I, SYS_SEMAPHORE_CREATE I, SYS_SEMAPHORE_UP I,
     SYS_SEMAPHORE_DOWN I, SYS_CONDVAR_CREATE I, SYS_CONDVAR_SIGNAL I, SYS_CONDVAR_WAIT I]"

lemma distinct_before: "distinct (xs @ y # ys) \<Longrightarrow> y \<notin> set xs"
  by auto

lemma sysids_before:
  assumes "sysids_ok I"
  shows "SYS_GET_PID I \<notin> {SYS_DUP I, SYS_OPEN I, SYS_CLOSE I, SYS_PIPE I, SYS_READ I, SYS_WRITE I, SYS_EXIT
      I, SYS_SLEEP I, SYS_YIELD I, SYS_KILL I, SYS_SIG_ACTION I, SYS_SIG_PROC_MASK I, SYS_SIG_RETURN I, SYS_GET_TIME
      I}"
    and "SYS_KILL I \<notin> {SYS_DUP I, SYS_OPEN I, SYS_CLOSE I, SYS_PIPE I, SYS_READ I, SYS_WRITE I, SYS_EXIT I,
      SYS_SLEEP I, SYS_YIELD I}"
proof -
  show "SYS_GET_PID I \<notin> {SYS_DUP I, SYS_OPEN I, SYS_CLOSE I, SYS_PIPE I, SYS_READ I, SYS_WRITE I, SYS_EXIT I,
      SYS_SLEEP I, SYS_YIELD I, SYS_KILL I, SYS_SIG_ACTION I, SYS_SIG_PROC_MASK I, SYS_SIG_RETURN I, SYS_GET_TIME
      I}"
    using distinct_before [of "[SYS_DUP I, SYS_OPEN I, SYS_CLOSE I, SYS_PIPE I, SYS_READ I, SYS_WRITE I, SYS_EXIT I,
      SYS_SLEEP I, SYS_YIELD I, SYS_KILL I, SYS_SIG_ACTION I, SYS_SIG_PROC_MASK I, SYS_SIG_RETURN I, SYS_GET_TIME
      I]" "SYS_GET_PID I"
        "[SYS_FORK I, SYS_EXEC I, SYS_WAIT_PID I, SYS_THREAD_CREATE I, SYS_GET_TID I, SYS_WAIT_TID I,
      SYS_MUTEX_CREATE I, SYS_MUTEX_LOCK I, SYS_MUTEX_UNLOCK I, SYS_SEMAPHORE_CREATE I, SYS_SEMAPHORE_UP I,
      SYS_SEMAPHORE_DOWN I, SYS_CONDVAR_CREATE I, SYS_CONDVAR_SIGNAL I, SYS_CONDVAR_WAIT I]"] assms
    unfolding sysids_ok_def by (simp only: append.simps list.set simp_thms)
  show "SYS_KILL I \<notin> {SYS_DUP I, SYS_OPEN I, SYS_CLOSE I, SYS_PIPE I, SYS_READ I, SYS_WRITE I, SYS_EXIT I,
      SYS_SLEEP I, SYS_YIELD I}"
    using distinct_before [of "[SYS_DUP I, SYS_OPEN I, SYS_CLOSE I, SYS_PIPE I, SYS_READ I, SYS_WRITE I, SYS_EXIT I,
      SYS_SLEEP I, SYS_YIELD I]" "SYS_KILL I"
        "[SYS_SIG_ACTION I, SYS_SIG_PROC_MASK I, SYS_SIG_RETURN I, SYS_GET_TIME I, SYS_GET_PID I, SYS_FORK I,
      SYS_EXEC I, SYS_WAIT_PID I, SYS_THREAD_CREATE I, SYS_GET_TID I, SYS_WAIT_TID I, SYS_MUTEX_CREATE I,
      SYS_MUTEX_LOCK I, SYS_MUTEX_UNLOCK I, SYS_SEMAPHORE_CREATE I, SYS_SEMAPHORE_UP I, SYS_SEMAPHORE_DOWN I,
      SYS_CONDVAR_CREATE I, SYS_CONDVAR_SIGNAL I, SYS_CONDVAR_WAIT I]"] assms
    unfolding sysids_ok_def by (simp only: append.simps list.set simp_thms)
qed

text \<open>
  A task in user mode: it is current, nothing but the processor and the table of its process holds
  it, and its trap context lies in a frame.
\<close>

definition in_user_mode :: "crates \<Rightarrow> ('tab, 'z) kernel_scheme \<Rightarrow> task_ref \<Rightarrow> task_block \<Rightarrow> 'tab process_block \<Rightarrow> usize \<Rightarrow> bool" where
  "in_user_mode K s t tb pb q \<longleftrightarrow>
     k_current s = Some t \<and> k_tasks s t = Some tb \<and> k_procs s (tb_process tb) = Some pb \<and>
     task_strong_count s t = 2 \<and> ctx_frame K t s = Some q"

definition next_instruction :: "trap_context \<Rightarrow> trap_context" where
  "next_instruction c = c\<lparr>tc_sepc := tc_sepc c + 4\<rparr>"

definition with_result :: "usize \<Rightarrow> trap_context \<Rightarrow> trap_context" where
  "with_result v c = c\<lparr>tc_x := (tc_x c)[10 := v]\<rparr>"

lemma set_result: "set_arg 0 v c = (Ok (), with_result v c)"
  by (simp add: set_arg_def with_result_def)

lemma contexts_wf [simp]: "trap_ctx_wf c \<Longrightarrow> trap_ctx_wf (next_instruction c)" "trap_ctx_wf c \<Longrightarrow> trap_ctx_wf (with_result v c)"
  by (simp_all add: trap_ctx_wf_def next_instruction_def with_result_def)

lemma result_at: "trap_ctx_wf c \<Longrightarrow> tc_x (with_result v c) ! 10 = v"
  by (simp add: trap_ctx_wf_def with_result_def)

text \<open>
  The handler of a system call reads the number and the arguments from the registers a7 and a0 to
  a2, moves the program counter behind the call, and runs the call.
\<close>

lemma env_call_runs:
  assumes "in_user_mode (env_crates E) s t tb pb q"
  shows "trap_handler E now (Exception UserEnvCall) s =
    after_call (env_platform E)
      (syscall E now (tc_x (ctx_in s q) ! 17) (tc_x (ctx_in s q) ! 10) (tc_x (ctx_in s q) ! 11) (tc_x (ctx_in s q) ! 12))
      (set_ctx q (next_instruction (ctx_in s q)) s)"
proof -
  note user = assms [unfolded in_user_mode_def]
  have "read_call c = (Ok (tc_x c ! 17, tc_x c ! 10, tc_x c ! 11, tc_x c ! 12), next_instruction c)" for c
    by (simp add: read_call_def get_arg_def klift_def kbind_def sepc_to_next_instruction_def next_instruction_def)
  then have "modify_trap_ctx (env_crates E) t (tb_process tb) read_call s =
      (Ok (tc_x (ctx_in s q) ! 17, tc_x (ctx_in s q) ! 10, tc_x (ctx_in s q) ! 11, tc_x (ctx_in s q) ! 12),
       set_ctx q (next_instruction (ctx_in s q)) s)"
    using modify_ctx [of "env_crates E" t s q tb read_call] user by simp
  then show ?thesis
    using user by (simp add: trap_handler_def exception_trap_handler_def Let_def env_call_def kbind_def current_task_def
        get_task_def kunwrap_def)
qed

lemma after_call_returns:
  assumes f: "f s0 = (Ok (Returned v), s)"
    and "k_current s = Some t" and "k_tasks s t = Some tb" and "ctx_frame (pf_crates P) t s = Some q"
  shows "after_call P f s0 = finish_trap P (set_ctx q (with_result v (ctx_in s q)) s)"
  using assms by (simp add: after_call_def kbind_def current_task_def get_task_def kunwrap_def
      modify_ctx [of "pf_crates P" t s q tb] set_result)

lemma after_call_error:
  assumes "f s0 = (Err e, s)" and "k_current s = Some t" and "k_tasks s t = Some tb"
    and "k_procs s (tb_process tb) = Some pb" and "tb_user_resource tb \<noteq> None"
  shows "after_call P f s0 = leave (pf_crates P) (-1) s"
  using assms by (auto simp: after_call_def kbind_def current_task_def get_task_def kunwrap_def task_tid_def klift_def
      get_proc_def)

lemma finish_trap_quiet:
  assumes "signal_crate_ok (pf_signals P)" and "k_current s = Some t" and "k_tasks s t = Some tb"
    and "k_procs s (tb_process tb) = Some pb" and "sg_setted (pb_signal pb) = 0" and "\<not> sg_frozen (pb_signal pb)"
  shows "finish_trap P s = trap_return (pf_crates P) s"
  using finish_trap_passes [OF assms(2-4), of P] no_signal_set [OF assms(1,5)] assms(6) by simp

lemma trap_return_ok:
  assumes "crates_ok K" and "k_current s = Some t" and "k_tasks s t = Some tb"
    and "k_procs s (tb_process tb) = Some pb" and "tb_user_resource tb = Some tr"
    and "pt_asid (space_page_table (pb_space pb)) < 2 ^ 16"
    and "pm_tracker (pt_root (space_page_table (pb_space pb))) < 2 ^ 44"
  obtains va token where "trap_return K s = (Ok (To_User va token), s)"
    and "get_task_trap_ctx_bottom_va K (tracker_id tr) = Ok va"
    and "space_mmu_token K (pb_space pb) = Ok token"
proof -
  obtain va where va: "get_task_trap_ctx_bottom_va K (tracker_id tr) = Ok va"
    unfolding get_task_trap_ctx_bottom_va_def using cal_base_va_bits [OF assms(1)] by blast
  obtain token where tk: "space_mmu_token K (pb_space pb) = Ok token"
    using mmu_token_fields [OF assms(1), of "pt_asid (space_page_table (pb_space pb))"
        "pm_tracker (pt_root (space_page_table (pb_space pb)))"] assms(6,7)
    by (auto simp: space_mmu_token_def mmu_token_def split: option.splits)
  show ?thesis
    using that [OF _ va tk] assms va tk
    by (simp add: trap_return_def kbind_def current_task_def get_task_def kunwrap_def task_tid_def klift_def
        get_proc_def)
qed

text \<open>
  C11. A system call that only reads the state takes the task round the whole trap path and back:
  \<open>get_pid\<close> returns to user mode through the trap context of the task and the page table of its
  process, the first argument register holds the process id, the program counter stands behind the
  call, every other register is what it was, and nothing else in the kernel has changed.
\<close>

theorem get_pid_roundtrip:
  assumes "crates_ok (env_crates E)" and "signal_crate_ok (env_signals E)" and "sysids_ok (env_sysids E)"
    and user: "in_user_mode (env_crates E) s t tb pb q"
    and call: "tc_x (ctx_in s q) ! 17 = SYS_GET_PID (env_sysids E)"
    and quiet: "sg_setted (pb_signal pb) = 0" "\<not> sg_frozen (pb_signal pb)"
    and space: "pt_asid (space_page_table (pb_space pb)) < 2 ^ 16"
      "pm_tracker (pt_root (space_page_table (pb_space pb))) < 2 ^ 44"
  shows "\<exists>tid va token. trap_handler E now (Exception UserEnvCall) s =
      (Ok (To_User va token),
       set_ctx q (with_result (tracker_id (pb_tracker pb)) (next_instruction (ctx_in s q))) s) \<and>
    task_tid tb = Ok tid \<and> get_task_trap_ctx_bottom_va (env_crates E) tid = Ok va \<and>
    space_mmu_token (env_crates E) (pb_space pb) = Ok token"
proof -
  note u = user [unfolded in_user_mode_def]
  let ?c = "next_instruction (ctx_in s q)" let ?s1 = "set_ctx q ?c s"
  let ?pid = "tracker_id (pb_tracker pb)"
  let ?s2 = "set_ctx q (with_result ?pid ?c) s"
  obtain tr where tr: "tb_user_resource tb = Some tr" using u by (auto simp: ctx_frame_def split: option.splits)
  have "syscall E now (tc_x (ctx_in s q) ! 17) x y z = returning sys_get_pid" for x y z
    using sysids_before(1) [OF assms(3)] call by (simp add: syscall_def Let_def)
  moreover have "returning sys_get_pid ?s1 = (Ok (Returned ?pid), ?s1)"
    using u by (simp add: returning_def sys_get_pid_def with_process_def current_process_def current_task_def kbind_def
        get_proc_def)
  ultimately have "trap_handler E now (Exception UserEnvCall) s = finish_trap (env_platform E) ?s2"
    using env_call_runs [OF user] u
      after_call_returns [of "returning sys_get_pid" ?s1 ?pid ?s1 t tb "env_platform E" q] by simp
  also have "\<dots> = trap_return (env_crates E) ?s2"
    by (rule finish_trap_quiet [OF assms(2), of _ t tb pb]) (use u quiet in simp_all)
  finally have handler: "trap_handler E now (Exception UserEnvCall) s = trap_return (env_crates E) ?s2" .
  obtain va token where "trap_return (env_crates E) ?s2 = (Ok (To_User va token), ?s2)"
    "get_task_trap_ctx_bottom_va (env_crates E) (tracker_id tr) = Ok va"
    "space_mmu_token (env_crates E) (pb_space pb) = Ok token"
    by (rule trap_return_ok [OF assms(1), of ?s2 t tb pb tr]) (use u tr space in simp_all)
  then show ?thesis using handler tr by (simp add: task_tid_def)
qed

section \<open>Faults and signals\<close>

definition set_signal :: "proc_ref \<Rightarrow> 'tab signal_block \<Rightarrow> ('tab, 'z) kernel_scheme \<Rightarrow> ('tab, 'z) kernel_scheme" where
  "set_signal p b s = s\<lparr>k_procs := (k_procs s)(p := map_option (\<lambda>pb. pb\<lparr>pb_signal := b\<rparr>) (k_procs s p))\<rparr>"

lemma set_signal_fields [simp]:
  "k_processor (set_signal p b s) = k_processor s" "k_tasks (set_signal p b s) = k_tasks s"
  "k_procs s p = Some pb \<Longrightarrow> k_procs (set_signal p b s) p = Some (pb\<lparr>pb_signal := b\<rparr>)"
  by (simp_all add: set_signal_def)

text \<open>
  A signal that ends the task: one of the five bad signals, which is masked or has the default action.
\<close>

lemma finish_trap_bad:
  assumes "signal_crate_ok (pf_signals P)" and "k_current s = Some t" and "k_tasks s t = Some tb"
    and "k_procs s (tb_process tb) = Some pb" and "\<not> sg_frozen (pb_signal pb)"
    and "sig \<in> set (bad_signals (pf_signals P))" and "sg_setted (pb_signal pb) = signal_flag (pf_signals P) sig"
    and "\<not> is_pending_signal (pf_signals P) sig (pb_signal pb) \<or>
      action_handler (pf_signals P) (get_action (pf_signals P) sig (pb_signal pb)) = 0"
  shows "finish_trap P s = leave (pf_crates P) (- ucast sig) s"
proof -
  let ?L = "pf_signals P" let ?b = "pb_signal pb"
  have "sig \<notin> {SIG_STOP ?L, SIG_CONT ?L, SIG_KILL ?L, SIG_DEF ?L}"
    using assms(6) named_signals(9) [OF assms(1)] by (auto simp: bad_signals_def)
  then have "\<forall>other \<in> set (signal_iter ?L). passed_over ?L ?b other"
    using one_signal_set(2) [OF assms(1,6,7)] assms(8) by (auto simp: passed_over_def)
  then show ?thesis
    using finish_trap_passes [OF assms(2-4), of P] one_signal_set(1) [OF assms(1,6,7)] assms(5) by simp
qed

text \<open>The faults of user mode that the handler turns into signals.\<close>

fun fault_signal :: "('act, 'tab) signal_crate \<Rightarrow> exception \<Rightarrow> usize option" where
  "fault_signal L UserEnvCall = None"
| "fault_signal L OtherException = None"
| "fault_signal L IllegalInstruction = Some (SIG_ILL L)"
| "fault_signal L _ = Some (SIG_SEGV L)"

lemma fault_bad: "fault_signal L exn = Some sig \<Longrightarrow> sig \<in> set (bad_signals L)"
  by (cases exn) (auto simp: bad_signals_def)

lemma fault_sends:
  assumes "fault_signal (env_signals E) exn = Some sig"
  shows "trap_handler E now (Exception exn) s =
    kbind (kunwrap (send_current_task_signal (env_platform E) sig)) (\<lambda>_. finish_trap (env_platform E)) s"
  using assms by (cases exn) (auto simp: trap_handler_def exception_trap_handler_def Let_def)

lemma send_signal:
  assumes "k_current s = Some t" and "k_tasks s t = Some tb" and "k_procs s (tb_process tb) = Some pb"
  shows "send_current_task_signal P sig s =
    (case try_kill (pf_signals P) sig (pb_signal pb) of (r, b) \<Rightarrow> (r, set_signal (tb_process tb) b s))"
  using assms by (simp add: send_current_task_signal_def kbind_def current_task_def get_task_def process_kill_def
      on_process_def set_signal_def split: prod.split)

text \<open>
  C17. A memory fault or an illegal instruction ends the task that caused it and never comes back
  to user mode, unless the process has installed a handler: the kernel goes on to leave the task with
  the negated number of the signal as its exit code, whatever signals the process has masked.
\<close>

theorem user_fault_exits:
  assumes L: "signal_crate_ok (env_signals E)"
    and user: "in_user_mode (env_crates E) s t tb pb q"
    and quiet: "sg_setted (pb_signal pb) = 0" "\<not> sg_frozen (pb_signal pb)"
    and fault: "fault_signal (env_signals E) exn = Some sig"
    and default: "action_handler (env_signals E) (get_action (env_signals E) sig (pb_signal pb)) = 0"
  shows "trap_handler E now (Exception exn) s =
    leave (env_crates E) (- ucast sig)
      (set_signal (tb_process tb) ((pb_signal pb)\<lparr>sg_setted := signal_flag (env_signals E) sig\<rparr>) s)"
proof -
  note u = user [unfolded in_user_mode_def]
  let ?L = "env_signals E" let ?b = "(pb_signal pb)\<lparr>sg_setted := signal_flag ?L sig\<rparr>"
  let ?s = "set_signal (tb_process tb) ?b s"
  have bad: "sig \<in> set (bad_signals ?L)" using fault_bad [OF fault] .
  then have "signal_flag ?L sig \<noteq> 0" using named_signals(1-4,6) [OF L] flag_nonzero [OF L] by (auto simp: bad_signals_def)
  then have "try_kill ?L sig (pb_signal pb) = (Ok (), ?b)" using quiet(1) by (simp add: try_kill_def sf_ok [OF L])
  then have "trap_handler E now (Exception exn) s = finish_trap (env_platform E) ?s"
    using send_signal [of s t tb pb "env_platform E" sig] u by (simp add: fault_sends [OF fault] kbind_def kunwrap_def)
  also have "\<dots> = leave (env_crates E) (- ucast sig) ?s"
    by (rule finish_trap_bad [OF L, of _ t tb "pb\<lparr>pb_signal := ?b\<rparr>"]) (use u quiet bad default in \<open>simp_all add: get_action_def\<close>)
  finally show ?thesis .
qed

text \<open>
  Masking does not protect a process: one of the five bad signals that is set and masked, so
  that its handler is not run, ends the task at the end of the next trap.
\<close>

theorem masked_signal_exits:
  assumes L: "signal_crate_ok (pf_signals P)"
    and cur: "k_current s = Some t" "k_tasks s t = Some tb" "k_procs s (tb_process tb) = Some pb"
    and bad: "sig \<in> set (bad_signals (pf_signals P))"
    and set: "sg_setted (pb_signal pb) = signal_flag (pf_signals P) sig" "\<not> sg_frozen (pb_signal pb)"
    and masked: "sf_contains (pf_signals P) (sg_masked (pb_signal pb)) (signal_flag (pf_signals P) sig)"
  shows "finish_trap P s = leave (pf_crates P) (- ucast sig) s"
  using masked by (intro finish_trap_bad [OF L cur set(2) bad set(1)]) (simp add: is_pending_signal_def Let_def)

text \<open>
  C36. A second fault is fatal for the kernel: when a thread faults while the signal of an earlier
  fault of another thread is still set in the process, sending the signal fails with
  \<open>DuplicateSignal\<close> and the handler panics. A thread that runs for the first time does not pass
  the signal check before it enters user mode.
\<close>

theorem second_fault_panics:
  assumes user: "in_user_mode (env_crates E) s t tb pb q"
    and fault: "fault_signal (env_signals E) exn = Some sig"
    and set: "sf_contains (env_signals E) (sg_setted (pb_signal pb)) (signal_flag (env_signals E) sig)"
  shows "fst (trap_handler E now (Exception exn) s) = Panic"
proof -
  note u = user [unfolded in_user_mode_def]
  have "try_kill (env_signals E) sig (pb_signal pb) = (Err (DuplicateSignal sig), pb_signal pb)"
    using set by (simp add: try_kill_def)
  then show ?thesis
    using send_signal [of s t tb pb "env_platform E" sig] u by (simp add: fault_sends [OF fault] kbind_def kunwrap_def)
qed

text \<open>The loop over the signals when nothing but the kill signal is pending.\<close>

lemma kill_loop:
  assumes L: "signal_crate_ok L"
    and "\<forall>sig \<in> set sigs. sig \<noteq> SIG_KILL L \<longrightarrow> \<not> is_pending_signal L sig b" and "is_pending_signal L (SIG_KILL L) b"
  shows "signal_loop L f sigs (b, m) =
    (if SIG_KILL L \<in> set sigs then (Ok (True, sg_frozen b), (signal_kill b, m))
     else (Ok (sg_killed b, sg_frozen b), (b, m)))"
  using assms(2,3)
proof (induction sigs arbitrary: b)
  case (Cons sig sigs)
  have same: "is_pending_signal L x (signal_kill b) = is_pending_signal L x b" for x
    by (simp add: is_pending_signal_def signal_kill_def cong: option.case_cong)
  have kill: "SIG_KILL L \<notin> {SIG_STOP L, SIG_CONT L}" using named_signals(9) [OF L] by auto
  show ?case
  proof (cases "sig = SIG_KILL L")
    case True
    then have "signal_loop L f (sig # sigs) (b, m) = signal_loop L f sigs (signal_kill b, m)"
      using Cons.prems kill by simp
    then show ?thesis using True Cons.IH [of "signal_kill b"] Cons.prems same by (simp add: signal_kill_def)
  qed (use Cons in simp)
qed (simp add: is_killed_def is_frozen_def)

text \<open>
  C38. The kill signal does not end a process: at the end of the trap after it was sent the process
  is marked as killed, and nothing in the kernel acts on the mark, so the task returns to user mode.
\<close>

theorem kill_signal_ignored:
  assumes L: "signal_crate_ok (pf_signals P)"
    and cur: "k_current s = Some t" "k_tasks s t = Some tb" "k_procs s (tb_process tb) = Some pb"
    and set: "sg_setted (pb_signal pb) = FLAG_KILL (pf_signals P)" "sg_masked (pb_signal pb) = 0" "sg_handling (pb_signal pb) = None"
  shows "finish_trap P s = trap_return (pf_crates P) (set_signal (tb_process tb) (signal_kill (pb_signal pb)) s)"
proof -
  let ?L = "pf_signals P" let ?b = "pb_signal pb" let ?s = "set_signal (tb_process tb) (signal_kill ?b) s"
  note sf = sf_ok [OF L] and iter = named_signals(5) [OF L] and flag = named_flags(5) [OF L]
  have apart: "\<not> sf_contains ?L (sg_setted ?b) (signal_flag ?L sig)"
    if "sig \<in> set (signal_iter ?L)" "sig \<noteq> SIG_KILL ?L" for sig
    using flags_apart [OF L iter that(1) that(2) [symmetric]] flag_nonzero [OF L that(1)] set(1) flag by (simp add: sf)
  have "is_pending_signal ?L (SIG_KILL ?L) ?b"
    using set flag flag_nonzero [OF L iter] by (simp add: is_pending_signal_def Let_def sf)
  moreover have "\<forall>sig \<in> set (signal_iter ?L). sig \<noteq> SIG_KILL ?L \<longrightarrow> \<not> is_pending_signal ?L sig ?b"
    using apart by (simp add: is_pending_signal_def Let_def)
  ultimately have loop: "signal_loop ?L f (signal_iter ?L) (?b, s) = (Ok (True, sg_frozen ?b), (signal_kill ?b, s))" for f
    using kill_loop [OF L, of "signal_iter ?L" ?b f s] iter by simp
  have all: "handle_all_signals P (tb_process tb) s = (Ok (True, sg_frozen ?b), ?s)"
    using cur(3) by (simp add: handle_all_signals_def on_signals_def get_proc_def on_process_def kbind_def klift_def
        loop set_signal_def)
  have "get_bad_signal ?L (signal_kill ?b) = None"
    using apart [OF named_signals(1) [OF L]] apart [OF named_signals(2) [OF L]] apart [OF named_signals(3) [OF L]]
      apart [OF named_signals(4) [OF L]] apart [OF named_signals(6) [OF L]] named_signals(9) [OF L]
      not_sym [of "SIG_KILL ?L" "SIG_SEGV ?L"]
    by (simp add: get_bad_signal_def named_flags [OF L] signal_kill_def)
  then have "handle_signals_round P s = (Ok (Some None), ?s)"
    using all cur by (simp add: handle_signals_round_def current_task_def get_task_def kbind_def check_bad_signals_def get_proc_def)
  then show ?thesis by (simp add: finish_trap_def)
qed

text \<open>
  C39. A process cannot signal another one: \<open>kill\<close> with the id of any other process finds no
  process, since the search looks only at the current process while a task runs, and the handler
  answers the error by ending the caller with exit code \<open>-1\<close>.
\<close>

theorem kill_other_exits_caller:
  assumes ids: "sysids_ok (env_sysids E)" and user: "in_user_mode (env_crates E) s t tb pb q"
    and call: "tc_x (ctx_in s q) ! 17 = SYS_KILL (env_sysids E)"
    and pid: "tc_x (ctx_in s q) ! 10 = pid" "pid \<noteq> tracker_id (pb_tracker pb)" "0 \<le> sint pid"
    and sig: "signal_try_from (env_signals E) (tc_x (ctx_in s q) ! 11) = Inr sig"
  shows "trap_handler E now (Exception UserEnvCall) s =
    leave (env_crates E) (-1) (set_ctx q (next_instruction (ctx_in s q)) s)"
proof -
  note u = user [unfolded in_user_mode_def]
  let ?s = "set_ctx q (next_instruction (ctx_in s q)) s" let ?P = "env_platform E"
  let ?call = "returning (sys_kill ?P pid (tc_x (ctx_in s q) ! 11))"
  have "tb_user_resource tb \<noteq> None" using u by (auto simp: ctx_frame_def split: option.splits)
  moreover have "?call ?s = (Err ProcessHaveNotTask, ?s)"
    using u pid sig by (simp add: returning_def sys_kill_def signal_of_def kbind_def get_process_def get_task_def
        get_proc_def ROOT_PID_def)
  ultimately have "after_call ?P ?call ?s = leave (env_crates E) (-1) ?s"
    by (intro after_call_error [of ?call ?s ProcessHaveNotTask ?s t tb pb]) (use u in simp_all)
  moreover have "syscall E now (tc_x (ctx_in s q) ! 17) pid y z = returning (sys_kill ?P pid y)" for y z
    using sysids_before(2) [OF ids] call by (simp add: syscall_def Let_def)
  ultimately show ?thesis using env_call_runs [OF user, of now] pid(1) by simp
qed

section \<open>Preemption\<close>

text \<open>
  C16. The timer interrupt takes the processor from the task that runs: the sleeping tasks whose
  deadline has passed become ready in the order of their deadlines, behind the tasks already
  ready, and the interrupted task becomes ready behind all of them; no task is current, and the
  interrupted task goes on with the signal check when it runs again.
\<close>

theorem timer_preempts:
  assumes "timers_live s" and "\<forall>cv \<in> set (k_timer s). tm_expire_us cv < 2 ^ 63"
    and cur: "k_current s = Some t" "k_tasks s t = Some tb"
  shows "\<exists>ws s'. trap_handler E now (Interrupt SupervisorTimer) s = (Ok (Gave_Up In_Signals), s') \<and>
    k_current s' = None \<and> k_ready s' = k_ready s @ map tm_task ws @ [t] \<and>
    k_timer s' = filter (\<lambda>cv. get_timer_us now < tm_expire_us cv) (k_timer s) \<and>
    mset ws = filter_mset (\<lambda>cv. tm_expire_us cv \<le> get_timer_us now) (mset (k_timer s)) \<and>
    sorted (map tm_expire_us ws) \<and> k_tasks s' t = Some (tb\<lparr>tb_status := Ready\<rparr>)"
proof -
  obtain ws where ws: "check_timers (env_crates E) now s =
      (Ok (), s\<lparr>k_tasks := wake_all (tm_task ` set ws) (k_tasks s),
        k_scheduler := (k_scheduler s)\<lparr>ts_ready := k_ready s @ map tm_task ws,
          ts_timer := filter (\<lambda>cv. get_timer_us now < tm_expire_us cv) (k_timer s)\<rparr>\<rparr>)"
    "mset ws = filter_mset (\<lambda>cv. tm_expire_us cv \<le> get_timer_us now) (mset (k_timer s))" "sorted (map tm_expire_us ws)"
    using timers_loop_due [OF assms(1,2) order_refl, of "env_crates E" "get_timer_us now"]
    by (auto simp: check_timers_def not_le)
  have "\<exists>tb'. wake_all (tm_task ` set ws) (k_tasks s) t = Some tb' \<and> tb'\<lparr>tb_status := Ready\<rparr> = tb\<lparr>tb_status := Ready\<rparr>"
    using cur(2) by (simp add: wake_all_def)
  then show ?thesis using ws cur(1)
    by (intro exI [of _ ws])
      (auto simp: trap_handler_def interrupt_trap_handler_def kbind_def kunwrap_def set_current_def on_task_def
        suspend_current_and_run_other_task_def mark_suspended_def put_read_task_def put_as_ready_def)
qed

section \<open>A sample machine\<close>

text \<open>
  A kernel with one process whose only task, number 1, is in user mode; its trap context lies in
  frame 5, with the given words in the registers a7, a0 and a1.
\<close>

definition sample_user_space :: space where
  "sample_user_space = sample_kernel_space
     \<lparr>area_set := [(get_task_trap_ctx_vpn_range rust_crates 0,
         \<lparr>area_flags = 0, area_kind = Framed, area_range_tracker = \<lparr>prt_start_vpn = 0, prt_end_vpn = 0\<rparr>\<rparr>)],
      space_page_table := (space_page_table sample_kernel_space)
         \<lparr>pt_trackers := [fst (get_task_trap_ctx_vpn_range rust_crates 0) \<mapsto> 5]\<rparr>\<rparr>"

definition sample_process :: "(usize \<Rightarrow> u32 \<times> usize) signal_block \<Rightarrow> (usize \<Rightarrow> u32 \<times> usize) process_block" where
  "sample_process b = (process_inner_new sample_signals \<lparr>tracker_id = 3\<rparr> ''init'' sample_user_space 65536 65536 [])
     \<lparr>pb_signal := b, pb_tasks := [(0, 1)]\<rparr>"

definition sample_user :: "(usize \<Rightarrow> u32 \<times> usize) signal_block \<Rightarrow> usize \<Rightarrow> usize \<Rightarrow> usize \<Rightarrow>
    (usize \<Rightarrow> u32 \<times> usize, nat, unit) os_kernel" where
  "sample_user b a7 a0 a1 = (kernel_new sample_kernel_space () \<lparr>mem = (\<lambda>p i.
       if p = 5 then (if i = 17 then a7 else if i = 10 then a0 else if i = 11 then a1 else 0) else 0),
       frame_allocator = frame_allocator_new\<rparr>)
     \<lparr>k_tasks := [1 \<mapsto> sample_task], k_procs := [0 \<mapsto> sample_process b],
      k_processor := processor_new\<lparr>pr_current := Some 1\<rparr>\<rparr>"

definition sample_ids :: sysid_crate where
  "sample_ids = \<lparr>SYS_DUP = 24, SYS_OPEN = 56, SYS_CLOSE = 57, SYS_PIPE = 59, SYS_READ = 63, SYS_WRITE = 64, SYS_EXIT = 93,
     SYS_SLEEP = 101, SYS_YIELD = 124, SYS_KILL = 129, SYS_SIG_ACTION = 134, SYS_SIG_PROC_MASK = 135, SYS_SIG_RETURN = 139,
     SYS_GET_TIME = 169, SYS_GET_PID = 172, SYS_FORK = 220, SYS_EXEC = 221, SYS_WAIT_PID = 260, SYS_THREAD_CREATE = 1000,
     SYS_GET_TID = 1001, SYS_WAIT_TID = 1002, SYS_MUTEX_CREATE = 1010, SYS_MUTEX_LOCK = 1011, SYS_MUTEX_UNLOCK = 1012,
     SYS_SEMAPHORE_CREATE = 1020, SYS_SEMAPHORE_UP = 1021, SYS_SEMAPHORE_DOWN = 1022, SYS_CONDVAR_CREATE = 1030,
     SYS_CONDVAR_SIGNAL = 1031, SYS_CONDVAR_WAIT = 1032\<rparr>"

lemma sample_ids_ok: "sysids_ok sample_ids"
  by (simp add: sysids_ok_def sample_ids_def)

definition sample_env :: "(u32 \<times> usize, usize \<Rightarrow> u32 \<times> usize, nat, unit) environment" where
  "sample_env = \<lparr>
     env_platform = \<lparr>pf_crates = rust_crates,
       pf_elf = \<lparr>minimal_parse = (\<lambda>_. Inl undefined), PT_LOAD = 1, PF_X = 1, PF_W = 2, PF_R = 4\<rparr>,
       pf_image = \<lparr>text_start = 0, text_end = 0, rodata_start = 0, rodata_end = 0, data_start = 0, data_end = 0,
         bootstack_start = 0, bootstack_end = 0, bss_start = 0, bss_end = 0, free_mem_start = 0, free_mem_end = 0,
         fn_trampoline = 0\<rparr>,
       pf_signals = sample_signals, pf_trap_handler = 0, pf_trap_return = 0, pf_sstatus = sample_sstatus\<rparr>,
     env_files = \<lparr>of_from_bits = Some, of_is_create = (\<lambda>_. False), OF_READ = 1, OF_RDIR = 1, OF_RWDIR = 3,
       fs_root_inode = 0, fs_readable = (\<lambda>_ _. True), fs_writable = (\<lambda>_ _. True), fs_executable = (\<lambda>_ _. True),
       fs_bitmap_index = of_nat, fs_list_child_names = (\<lambda>_ s. (Inr [], s)), fs_get_child_inode = (\<lambda>_ _ s. (Inr None, s)),
       fs_create_child_inode = (\<lambda>i _ _ s. (Inr (Suc i), s)), fs_remove_child_inode = (\<lambda>_ _ s. (Inr (), s)),
       fs_read_all = (\<lambda>_ s. (Inr [], s)), fs_read_buffer = (\<lambda>_ _ _ s. (Inr [], s)),
       fs_write_buffer = (\<lambda>_ bs _ s. (Inr (length bs), s))\<rparr>,
     env_sysids = sample_ids,
     env_actions = \<lparr>action_size = 16, action_decode = (\<lambda>_. (0, 0)), action_encode = (\<lambda>_. replicate 16 0)\<rparr>\<rparr>"

lemma sample_env_simps [simp]:
  "env_crates sample_env = rust_crates" "env_signals sample_env = sample_signals" "env_sysids sample_env = sample_ids"
  by (simp_all add: sample_env_def)

lemma sample_user_simps [simp]:
  "k_current (sample_user b x y z) = Some 1" "k_tasks (sample_user b x y z) = [1 \<mapsto> sample_task]"
  "k_procs (sample_user b x y z) = [0 \<mapsto> sample_process b]" "tb_process sample_task = 0"
  "pb_signal (sample_process b) = b" "tracker_id (pb_tracker (sample_process b)) = 3"
  by (simp_all add: sample_user_def sample_task_def sample_process_def process_inner_new_def)

lemma sample_user_ctx: "get_trap_ctx rust_crates 0 sample_user_space = Ok (5 * 4096)"
  by (simp add: get_trap_ctx_def get_area_def sample_user_space_def area_as_kernel_mut_def get_tracker_with_def
      frame_as_kernel_mut_def frame_pa_def TRAP_CTX_BYTES_def MEMORY_PAGE_BYTE_SIZE_def MEMORY_PAGE_BIT_SITE_def
      bt_get_def split: prod.split)

lemma sample_user_mode: "in_user_mode rust_crates (sample_user b x y z) 1 sample_task (sample_process b) 5"
proof -
  have "ctx_frame rust_crates 1 (sample_user b x y z) = Some 5"
    using sample_user_ctx
    by (simp add: ctx_frame_def sample_process_def process_inner_new_def frame_of_def MEMORY_PAGE_BYTE_SIZE_def)
      (simp add: sample_task_def frame_of_def MEMORY_PAGE_BYTE_SIZE_def)
  moreover have "task_strong_count (sample_user b x y z) 1 = 2"
    by (simp add: task_strong_count_def sample_user_def sample_process_def sample_task_def kernel_new_def
        task_scheduler_new_def)
  ultimately show ?thesis by (simp add: in_user_mode_def)
qed

lemma sample_user_regs:
  "tc_x (ctx_in (sample_user b x y z) 5) ! 17 = x" "tc_x (ctx_in (sample_user b x y z) 5) ! 10 = y"
  "tc_x (ctx_in (sample_user b x y z) 5) ! 11 = z"
  by (simp_all add: load_trap_ctx_def sample_user_def kernel_new_def)

theorem get_pid_roundtrip_witness:
  "\<exists>va token s'. trap_handler sample_env 0 (Exception UserEnvCall) (sample_user (signal_block_new sample_signals) 172 0 0) =
     (Ok (To_User va token), s') \<and> tc_x (ctx_in s' 5) ! 10 = 3"
proof -
  let ?b = "signal_block_new sample_signals" let ?s = "sample_user ?b 172 0 0"
  have "\<exists>tid va token. trap_handler sample_env 0 (Exception UserEnvCall) ?s =
      (Ok (To_User va token), set_ctx 5 (with_result 3 (next_instruction (ctx_in ?s 5))) ?s)"
    using get_pid_roundtrip [of sample_env ?s 1 sample_task "sample_process ?b" 5 0] rust_crates_ok sample_signals_ok
      sample_ids_ok sample_user_mode [of ?b 172 0 0] sample_user_regs [of ?b 172 0 0]
    by (auto simp: sample_ids_def signal_block_new_def sample_process_def process_inner_new_def sample_user_space_def
        sample_kernel_space_def page_mapper_new_def)
  then show ?thesis using result_at [of "next_instruction (ctx_in ?s 5)" 3] by fastforce
qed

theorem user_fault_exits_witness:
  "trap_handler sample_env 0 (Exception StorePageFault) (sample_user (signal_block_new sample_signals) 0 0 0) =
     leave rust_crates (- 11)
       (set_signal 0 ((signal_block_new sample_signals)\<lparr>sg_setted := 2048\<rparr>) (sample_user (signal_block_new sample_signals) 0 0 0))"
proof -
  let ?b = "signal_block_new sample_signals" let ?s = "sample_user ?b 0 0 0"
  have "fault_signal sample_signals StorePageFault = Some 11" "signal_flag sample_signals 11 = 2048"
    "action_handler sample_signals (get_action sample_signals 11 ?b) = 0" "sg_setted ?b = 0" "\<not> sg_frozen ?b"
    by (simp_all add: sample_signals_def get_action_def signal_block_new_def)
  then show ?thesis
    using user_fault_exits [of sample_env ?s 1 sample_task "sample_process ?b" 5 StorePageFault 11 0]
      sample_signals_ok sample_user_mode [of ?b 0 0 0] by simp
qed

theorem second_fault_panics_witness:
  "fst (trap_handler sample_env 0 (Exception LoadPageFault)
      (sample_user ((signal_block_new sample_signals)\<lparr>sg_setted := 2048\<rparr>) 0 0 0)) = Panic"
proof -
  let ?b = "(signal_block_new sample_signals)\<lparr>sg_setted := 2048\<rparr>" let ?s = "sample_user ?b 0 0 0"
  have "fault_signal sample_signals LoadPageFault = Some 11"
    "sf_contains sample_signals 2048 (signal_flag sample_signals 11)"
    by (simp_all add: sample_signals_def)
  then show ?thesis
    using second_fault_panics [of sample_env ?s 1 sample_task "sample_process ?b" 5 LoadPageFault 11 0]
      sample_user_mode [of ?b 0 0 0] by simp
qed

theorem kill_signal_ignored_witness:
  "finish_trap (env_platform sample_env) (sample_user ((signal_block_new sample_signals)\<lparr>sg_setted := 512\<rparr>) 0 0 0) =
     trap_return rust_crates (set_signal 0 ((signal_block_new sample_signals)\<lparr>sg_setted := 512, sg_killed := True\<rparr>)
       (sample_user ((signal_block_new sample_signals)\<lparr>sg_setted := 512\<rparr>) 0 0 0))"
proof -
  let ?b = "(signal_block_new sample_signals)\<lparr>sg_setted := 512\<rparr>" let ?s = "sample_user ?b 0 0 0"
  have "FLAG_KILL sample_signals = 512" "sg_masked ?b = 0" "sg_handling ?b = None"
    "signal_kill ?b = ?b\<lparr>sg_killed := True\<rparr>"
    by (simp_all add: sample_signals_def signal_block_new_def signal_kill_def)
  then show ?thesis
    using kill_signal_ignored [of "env_platform sample_env" ?s 1 sample_task "sample_process ?b"] sample_signals_ok by simp
qed

theorem kill_other_exits_caller_witness:
  "trap_handler sample_env 0 (Exception UserEnvCall) (sample_user (signal_block_new sample_signals) 129 7 9) =
     leave rust_crates (-1)
       (set_ctx 5 (next_instruction (ctx_in (sample_user (signal_block_new sample_signals) 129 7 9) 5))
         (sample_user (signal_block_new sample_signals) 129 7 9))"
proof -
  let ?b = "signal_block_new sample_signals" let ?s = "sample_user ?b 129 7 9"
  have "SYS_KILL sample_ids = 129" "signal_try_from sample_signals 9 = Inr 9"
    by (simp_all add: sample_ids_def sample_signals_def)
  then show ?thesis
    using kill_other_exits_caller [of sample_env ?s 1 sample_task "sample_process ?b" 5 7 9 0] sample_ids_ok
      sample_user_mode [of ?b 129 7 9] sample_user_regs [of ?b 129 7 9] by simp
qed

theorem timer_preempts_witness:
  "\<exists>s'. trap_handler sample_env 0 (Interrupt SupervisorTimer) (sample_user (signal_block_new sample_signals) 0 0 0) =
     (Ok (Gave_Up In_Signals), s') \<and> k_ready s' = [1]"
proof -
  let ?s = "sample_user (signal_block_new sample_signals) 0 0 0"
  have q: "k_timer ?s = []" "k_ready ?s = []" by (simp_all add: sample_user_def kernel_new_def task_scheduler_new_def)
  then have "timers_live ?s" by (simp add: timers_live_def)
  then show ?thesis using timer_preempts [of ?s 1 sample_task sample_env 0] q by auto
qed

section \<open>Pointers of a user\<close>

text \<open>
  C37. The trap context of a task is not protected from the task. A buffer that a system call is given
  at the address of the trap context, with the size of a trap context, is accepted and translated to
  exactly the bytes of the frame in which the trap context lies: the translation looks only at the
  frames of the page table and never at the flags of the page.
\<close>

theorem trap_context_exposed:
  assumes K: "crates_ok K" and tid: "unat tid \<le> 2 ^ 27 - 2" and ctx: "get_trap_ctx K tid sp = Ok pa"
  shows "\<exists>va f. get_task_trap_ctx_bottom_va K tid = Ok va \<and> pa = frame_pa f \<and>
    translated_byte_buffers K va TRAP_CTX_BYTES sp = Ok ([(f, 0, unat TRAP_CTX_BYTES)], TRAP_CTX_BYTES)"
proof -
  obtain b e where be: "get_task_trap_ctx_vpn_range K tid = (b, e)" by (cases "get_task_trap_ctx_vpn_range K tid")
  have b: "unat b = 2 ^ 27 - 2 - unat tid" by (rule trap_ctx_range [OF K tid be])
  then have "b < 2 ^ 27" by (simp add: word_less_nat_alt)
  from base_va_roundtrip [OF K this] obtain va
    where va: "cal_base_va_with K b = Ok va" "get_vpn_with K va = b" "get_va_offset K va = 0" by blast
  obtain f where f: "pt_trackers (space_page_table sp) b = Some f" "pa = frame_pa f"
    using ctx be by (auto simp: get_trap_ctx_def area_as_kernel_mut_def get_tracker_with_def frame_as_kernel_mut_def
        split: outcome.splits option.splits if_splits)
  have "unat va mod 4096 = 0" using va(3) unat_va_offset [OF K, of va] by simp
  then obtain k where k: "unat va = 4096 * k" by auto
  have "unat va < 2 ^ 64" using unsigned_less [of va] by simp
  then have "k < 2 ^ 52" using k by simp
  moreover have "k \<noteq> 2 ^ 52 - 1"
    using va(2) b k unat_get_vpn [OF K, of va] tid by auto
  ultimately have fit: "unat va + 8192 \<le> 2 ^ 64" using k by simp
  let ?e = "va + TRAP_CTX_BYTES"
  have e: "unat ?e = unat va + 296" "unat (va + MEMORY_PAGE_BYTE_SIZE) = unat va + 4096"
    using fit by (simp_all add: unat_word_ariths TRAP_CTX_BYTES_def MEMORY_PAGE_BYTE_SIZE_def)
  then have m: "min ?e (va + MEMORY_PAGE_BYTE_SIZE) = ?e" "va < ?e" by (simp_all add: min_def word_le_nat_alt word_less_nat_alt)
  have "unat (get_va_offset K ?e) = 296" using unat_va_offset [OF K, of ?e] e(1) k by simp
  then have o: "get_va_offset K ?e = 296" by (simp add: word_unat_eq_iff)
  have "buffers_loop K (space_page_table sp) ?e va [] = Some (Ok [(f, 0, 296)])"
    using m va(2,3) o f(1)
    by (subst buffers_loop.simps, subst buffers_loop.simps) (simp add: Let_def get_tracker_with_def vpn_floor_def MEMORY_PAGE_BYTE_SIZE_def)
  then show ?thesis
    using va(1) f(2) be by (simp add: get_task_trap_ctx_bottom_va_def translated_byte_buffers_def TRAP_CTX_BYTES_def)
qed

theorem trap_context_exposed_witness:
  "\<exists>va f. get_task_trap_ctx_bottom_va rust_crates 0 = Ok va \<and> 5 * 4096 = frame_pa f \<and>
     translated_byte_buffers rust_crates va TRAP_CTX_BYTES sample_user_space = Ok ([(f, 0, unat TRAP_CTX_BYTES)], TRAP_CTX_BYTES)"
proof -
  from trap_context_exposed [OF rust_crates_ok _ sample_user_ctx] show ?thesis by simp
qed

end
