(* ===== verification/Frame_Supply.thy ===== *)
theory Frame_Supply
  imports Space_Properties
begin

text \<open>
  How many frames the operations on a page table take: a bound on the frames that have to be free
  for an area to be created, so that running out of frames can be ruled out beforehand.
\<close>

section \<open>The frames left\<close>

definition frames_left :: "machine \<Rightarrow> nat" where
  "frames_left m = (case frame_allocator m of a \<Rightarrow> card (frames_recycled a) + (unat (end_ppn a) - unat (current_ppn a)))"

lemma frames_left_mem [simp]: "frames_left (m\<lparr>mem := M\<rparr>) = frames_left m"
  by (simp add: frames_left_def)

text \<open>An operation that takes at most \<open>n\<close> frames, and cannot run out of them when \<open>n\<close> are left.\<close>

definition costs :: "nat \<Rightarrow> (pt_state, 'a) kop \<Rightarrow> bool" where
  "costs n f \<longleftrightarrow>
     (\<forall>t m. n \<le> frames_left m \<longrightarrow>
        fst (f (t, m)) \<noteq> Err FrameExhausted \<and> frames_left m \<le> frames_left (snd (snd (f (t, m)))) + n)"

lemma costsI:
  assumes "\<And>t m r t' m'. n \<le> frames_left m \<Longrightarrow> f (t, m) = (r, (t', m')) \<Longrightarrow> r \<noteq> Err FrameExhausted \<and> frames_left m \<le> frames_left m' + n"
  shows "costs n f"
  unfolding costs_def using assms by (metis prod.collapse)

lemma costsD:
  assumes "costs n f" and "n \<le> frames_left m" and "f (t, m) = (r, (t', m'))"
  shows "r \<noteq> Err FrameExhausted" and "frames_left m \<le> frames_left m' + n"
  using assms unfolding costs_def by (metis fst_conv snd_conv)+

named_theorems cost_rules

lemma costs_mono:
  assumes "costs n f" and "n \<le> k"
  shows "costs k f"
proof (rule costsI)
  fix t m r t' m' assume "k \<le> frames_left m" and f: "f (t, m) = (r, (t', m'))"
  then have "n \<le> frames_left m" using assms(2) by simp
  from costsD [OF assms(1) this f] assms(2) show "r \<noteq> Err FrameExhausted \<and> frames_left m \<le> frames_left m' + k" by simp
qed

lemma costs_bind:
  assumes f: "costs a f" and g: "\<And>x. costs b (g x)"
  shows "costs (a + b) (kbind f g)"
proof (rule costsI)
  fix t m r t' m' assume s: "a + b \<le> frames_left m" and run: "kbind f g (t, m) = (r, (t', m'))"
  obtain r1 t1 m1 where f1: "f (t, m) = (r1, (t1, m1))" by (metis prod.collapse)
  have 1: "r1 \<noteq> Err FrameExhausted" "frames_left m \<le> frames_left m1 + a" using costsD [OF f _ f1] s by auto
  show "r \<noteq> Err FrameExhausted \<and> frames_left m \<le> frames_left m' + (a + b)"
  proof (cases r1)
    case (Ok x)
    then have "g x (t1, m1) = (r, (t', m'))" using run f1 by simp
    moreover have "b \<le> frames_left m1" using 1(2) s by simp
    ultimately show ?thesis using costsD [OF g] 1(2) by fastforce
  qed (use run f1 1 in auto)
qed

lemma costs_bind0: "costs 0 f \<Longrightarrow> (\<And>x. costs b (g x)) \<Longrightarrow> costs b (kbind f g)"
  using costs_bind [of 0 f b g] by simp

lemma costs_last: "costs a f \<Longrightarrow> (\<And>x. costs 0 (g x)) \<Longrightarrow> costs a (kbind f g)"
  using costs_bind [of a f 0 g] by simp

lemma costs_error:
  assumes f: "costs n f" and g: "costs 0 g"
  shows "costs n (on_error f g)"
proof (rule costsI)
  fix t m r t' m' assume s: "n \<le> frames_left m" and run: "on_error f g (t, m) = (r, (t', m'))"
  obtain r1 t1 m1 where f1: "f (t, m) = (r1, (t1, m1))" by (metis prod.collapse)
  have 1: "r1 \<noteq> Err FrameExhausted" "frames_left m \<le> frames_left m1 + n" using costsD [OF f s f1] by auto
  obtain r2 t2 m2 where g2: "g (t1, m1) = (r2, (t2, m2))" by (metis prod.collapse)
  have 2: "r2 \<noteq> Err FrameExhausted" "frames_left m1 \<le> frames_left m2" using costsD [OF g _ g2] by auto
  show "r \<noteq> Err FrameExhausted \<and> frames_left m \<le> frames_left m' + n"
    using run f1 g2 1 2 by (cases r1; cases r2) (auto simp: on_error_def)
qed

lemma costs_simple:
  assumes "\<And>t m. fst (f (t, m)) \<noteq> Err FrameExhausted" and "\<And>t m. frame_allocator (snd (snd (f (t, m)))) = frame_allocator m"
  shows "costs 0 f"
  using assms by (simp add: costs_def frames_left_def)

lemma costs_if: "costs n f \<Longrightarrow> costs n g \<Longrightarrow> costs n (if b then f else g)"
  by simp

section \<open>The operations\<close>

lemma costs_alloc: "costs 1 (on_machine tracker_alloc)"
proof (rule costsI)
  fix t m r t' m' assume s: "1 \<le> frames_left m" and run: "on_machine tracker_alloc (t :: page_table, m) = (r, (t', m'))"
  let ?a = "frame_allocator m"
  show "r \<noteq> Err FrameExhausted \<and> frames_left m \<le> frames_left m' + 1"
  proof (cases "frames_recycled ?a = {}")
    case True
    then have lt: "unat (current_ppn ?a) < unat (end_ppn ?a)" using s by (simp add: frames_left_def)
    moreover have "unat (end_ppn ?a) < 2 ^ 64" using unsigned_less [of "end_ppn ?a"] by simp
    ultimately have "unat (current_ppn ?a + 1) = unat (current_ppn ?a) + 1" using unat_add_lem [of "current_ppn ?a" 1] by simp
    then show ?thesis using run True lt
      by (auto simp: on_machine_def tracker_alloc_def frame_alloc_def pop_first_def Let_def frames_left_def word_le_nat_alt)
  next
    case False
    then obtain p rest where pop: "pop_first (frames_recycled ?a) = Some (p, rest)"
      and rest: "rest = frames_recycled ?a - {p}" by (auto simp: pop_first_def)
    have "card (frames_recycled ?a) \<le> Suc (card rest)"
      using card_Diff_singleton_if [of "frames_recycled ?a" p] rest by (auto split: if_splits)
    then show ?thesis using run pop
      by (auto simp: on_machine_def tracker_alloc_def frame_alloc_def frames_left_def)
  qed
qed

lemma costs_drop [cost_rules]: "costs 0 (on_machine (tracker_drop p))"
proof (rule costsI)
  fix t m r t' m' assume run: "on_machine (tracker_drop p) (t :: page_table, m) = (r, (t', m'))"
  show "r \<noteq> Err FrameExhausted \<and> frames_left m \<le> frames_left m' + 0"
    using run by (auto simp: on_machine_def tracker_drop_def frame_dealloc_def kunwrap_def frames_left_def card_insert_if
        split: if_splits)
qed

lemma costs_ops [cost_rules]:
  "costs 0 (kret x)" "costs 0 (kopt y)" "costs 0 (deref r)" "costs 0 (read_entry p i)" "costs 0 (write_entry p i e)"
  "costs 0 (insert_mapper p mp)" "costs 0 (find_mapper p)" "e' \<noteq> FrameExhausted \<Longrightarrow> costs 0 (kerr e')"
  by (rule costs_simple, auto simp: kopt_def deref_def read_entry_def write_entry_def insert_mapper_def find_mapper_def
      split: option.split if_splits)+

lemma costs_incr [cost_rules]: "costs 0 (mapper_incr r)"
  unfolding mapper_incr_def
  by (rule costs_bind0) (auto intro!: cost_rules costs_simple split: if_splits)

lemma costs_option: "costs n f \<Longrightarrow> (\<And>x. costs n (g x)) \<Longrightarrow> costs n (case y of None \<Rightarrow> f | Some x \<Rightarrow> g x)"
  by (cases y) auto

lemma costs_create: "costs 1 (create_child K i r mp)"
  unfolding create_child_def
  by (rule costs_last [OF costs_alloc]) (auto intro!: costs_bind0 costs_error costs_option cost_rules)

lemma costs_next: "costs 1 (map_next K i r)"
proof -
  have "costs 1 (if \<not> valid then create_child K i r mp else kret (pte_ppn K entry))" for valid mp entry
    by (cases valid) (auto intro: costs_create costs_mono [OF costs_ops(1)] simp del: One_nat_def)
  then show ?thesis
    unfolding map_next_def by (intro costs_bind0 [OF costs_ops(3)] costs_bind0 [OF costs_ops(4)] costs_bind0 [OF costs_ops(2)]
        costs_last) (auto intro: cost_rules)
qed

lemma costs_walk: "costs (length is) (map_walk K is r)"
proof (induction "is" arbitrary: r)
  case (Cons i "is")
  show ?case using costs_bind [OF costs_next, of "length is" "map_walk K is" K i r] Cons by simp
qed (simp add: cost_rules)

lemma costs_map: "costs 2 (map_without_alloc K vpn ppn flags)"
proof -
  have len: "length (take (PAGE_LEVEL - 1) (page_indexes K vpn)) \<le> 2" by (simp add: PAGE_LEVEL_def)
  have leaf: "costs 0 (map_leaf K vpn ppn fl i r)" for fl i r
    unfolding map_leaf_def by (auto intro!: costs_bind0 cost_rules)
  have "costs 2 (kbind (map_walk K (take (PAGE_LEVEL - 1) (page_indexes K vpn)) Root) (map_leaf K vpn ppn fl i))" for fl i
    by (rule costs_last [OF costs_mono [OF costs_walk len]]) (rule leaf)
  then show ?thesis
    unfolding map_without_alloc_def Let_def
    by (intro costs_option costs_mono [OF costs_ops(8)]) simp_all
qed

lemma costs_pt_map: "costs 3 (pt_map K vpn flags)"
proof -
  have tail: "costs 0 (\<lambda>(t, m). case pt_trackers t vpn of
           Some old \<Rightarrow> kbind (on_machine (tracker_drop old)) (\<lambda>_. kerr (VPNAlreadyMapped vpn))
                          (t\<lparr>pt_trackers := (pt_trackers t)(vpn \<mapsto> ppn)\<rparr>, m)
         | None \<Rightarrow> (Ok ppn, (t\<lparr>pt_trackers := (pt_trackers t)(vpn \<mapsto> ppn)\<rparr>, m)))" for ppn
  proof (rule costsI)
    fix t t' :: page_table and m m' :: machine and r
    assume run: "(\<lambda>(t, m). case pt_trackers t vpn of
           Some old \<Rightarrow> kbind (on_machine (tracker_drop old)) (\<lambda>_. kerr (VPNAlreadyMapped vpn))
                          (t\<lparr>pt_trackers := (pt_trackers t)(vpn \<mapsto> ppn)\<rparr>, m)
         | None \<Rightarrow> (Ok ppn, (t\<lparr>pt_trackers := (pt_trackers t)(vpn \<mapsto> ppn)\<rparr>, m))) (t, m) = (r, (t', m'))"
    show "r \<noteq> Err FrameExhausted \<and> frames_left m \<le> frames_left m' + 0"
    proof (cases "pt_trackers t vpn")
      case (Some old)
      have "costs 0 (kbind (on_machine (tracker_drop old)) (\<lambda>_. kerr (VPNAlreadyMapped vpn)))"
        by (auto intro!: costs_bind0 cost_rules)
      moreover have "kbind (on_machine (tracker_drop old)) (\<lambda>_. kerr (VPNAlreadyMapped vpn))
          (t\<lparr>pt_trackers := (pt_trackers t)(vpn \<mapsto> ppn)\<rparr>, m) = (r, (t', m'))" using run Some by simp
      ultimately show ?thesis using costsD(1,2) [of 0 _ m _ r t' m'] frames_left_mem by blast
    qed (use run in auto)
  qed
  have "costs (1 + (2 + 0)) (kbind (on_machine tracker_alloc) (\<lambda>ppn.
        kbind (on_error (map_without_alloc K vpn ppn flags) (on_machine (tracker_drop ppn))) (\<lambda>_.
        (\<lambda>(t, m). case pt_trackers t vpn of
           Some old \<Rightarrow> kbind (on_machine (tracker_drop old)) (\<lambda>_. kerr (VPNAlreadyMapped vpn))
                          (t\<lparr>pt_trackers := (pt_trackers t)(vpn \<mapsto> ppn)\<rparr>, m)
         | None \<Rightarrow> (Ok ppn, (t\<lparr>pt_trackers := (pt_trackers t)(vpn \<mapsto> ppn)\<rparr>, m))))))"
    by (intro costs_bind costs_alloc costs_error costs_map cost_rules tail)
  then show ?thesis
    unfolding pt_map_def by (intro costs_if costs_mono [OF costs_ops(8)]) (simp_all add: numeral_3_eq_3)
qed

lemma costs_kfor: "(\<And>x. costs n (f x)) \<Longrightarrow> costs (n * length xs) (kfor xs f)"
proof (induction xs)
  case (Cons x xs)
  show ?case using costs_bind [of n "f x" "n * length xs" "\<lambda>_. kfor xs f"] Cons by simp
qed (simp add: cost_rules)

lemma costs_area_map: "costs (3 * (unat e - unat b)) (area_map K (area_of b e fl k))"
proof -
  have one: "costs 3 (kbind (map_one K ar vpn) (\<lambda>_. kret ()))" for ar vpn
  proof -
    have "costs 0 (range_check (area_range_tracker ar) vpn)" by (simp add: range_check_def cost_rules)
    moreover have "costs 3 (case area_kind ar of
        Identical \<Rightarrow> kbind (map_without_alloc K vpn vpn (area_flags ar)) (\<lambda>_. kret vpn)
      | Framed \<Rightarrow> pt_map K vpn (area_flags ar))"
      by (cases "area_kind ar") (auto intro: costs_last [OF costs_mono [OF costs_map]] costs_pt_map cost_rules)
    ultimately have "costs 3 (map_one K ar vpn)" unfolding map_one_def by (rule costs_bind0)
    then show ?thesis by (rule costs_last) (rule costs_ops)
  qed
  have "length (page_range (area_range_tracker (area_of b e fl k))) = unat e - unat b"
    by (simp add: page_range_def area_of_def)
  then show ?thesis unfolding area_map_def using costs_kfor [OF one, of "page_range (area_range_tracker (area_of b e fl k))"]
    by simp
qed

section \<open>Creating an area\<close>

lemma new_area_machine:
  assumes "new_area K b e fl k None (sp, m) = (Ok (), (sp', m'))"
  shows "\<exists>t'. area_map K (area_of b e fl k) (space_page_table sp, m) = (Ok (), (t', m'))"
proof -
  obtain ar sp1 m1 where ar: "on_vm (area_new K b e fl k) (sp, m) = (Ok ar, (sp1, m1))"
    and push: "push K ar 0 None (sp1, m1) = (Ok (), (sp', m'))"
    using assms unfolding new_area_def by (elim kbind_OkE) (metis prod.collapse)
  have m1: "m1 = m'"
    using push by (auto simp: push_def Let_def kbind_def split: option.splits outcome.splits prod.splits)
  obtain a1 t1 where new: "area_new K b e fl k (page_range_allocator sp, space_page_table sp, m) = (Ok ar, (a1, t1, m1))"
    using ar by (auto simp: on_vm_def split: prod.splits)
  then obtain r s1 where alloc: "on_ranges (range_alloc b e) (page_range_allocator sp, space_page_table sp, m) = (Ok r, s1)"
    and rest: "(case r of None \<Rightarrow> kerr (AreaAllocFailed b e)
       | Some _ \<Rightarrow> kbind (on_error (on_machine (area_map K (area_of b e fl k))) (area_drop K (area_of b e fl k)))
           (\<lambda>_. kret (area_of b e fl k))) s1 = (Ok ar, (a1, t1, m1))"
    unfolding area_new_def Let_def area_of_def [symmetric] by (elim kbind_OkE) blast
  obtain a2 where s1: "s1 = (a2, space_page_table sp, m)"
    using alloc by (auto simp: on_ranges_def split: prod.splits)
  have "on_error (on_machine (area_map K (area_of b e fl k))) (area_drop K (area_of b e fl k)) s1 = (Ok (), (a1, t1, m1))"
    using rest by (cases r) (auto elim!: kbind_OkE)
  then have "on_machine (area_map K (area_of b e fl k)) s1 = (Ok (), (a1, t1, m1))"
    by (auto simp: on_error_def elim!: kbind_OkE split: prod.splits outcome.splits)
  then show ?thesis using s1 m1 by (auto simp: on_machine_def split: prod.splits)
qed

text \<open>
  Three free frames per page are enough: an area in a free range is created whenever they are
  left, two for new tables and one for the page itself, and no more than these are taken.
\<close>

theorem area_created_with_frames:
  assumes inv: "space_inv K st R (sp, m)" and R: "{b..<e} \<inter> R = {}" and fl: "k = Framed \<longrightarrow> fl \<noteq> 0"
    and free: "range_ok 0 (2 ^ 27) (pr_used (page_range_allocator sp)) b e True"
    and left: "3 * (unat e - unat b) \<le> frames_left m"
  shows "\<exists>sp' m'. new_area K b e fl k None (sp, m) = (Ok (), (sp', m')) \<and> space_inv K st R (sp', m') \<and>
    areas_of sp' = insert (area_of b e fl k) (areas_of sp) \<and> frames_left m \<le> frames_left m' + 3 * (unat e - unat b)"
proof -
  note cost = costs_area_map [of e b K fl k]
  have "fst (area_map K (area_of b e fl k) (pt_of (sp, m))) \<noteq> Err FrameExhausted"
    using cost left unfolding costs_def by simp
  then obtain sp' m' where c: "new_area K b e fl k None (sp, m) = (Ok (), (sp', m'))" "space_inv K st R (sp', m')"
    "areas_of sp' = insert (area_of b e fl k) (areas_of sp)"
    by (rule_tac new_area_spec [OF inv R fl]) (use free in auto)
  from new_area_machine [OF c(1)] costsD(2) [OF cost left] c show ?thesis by blast
qed

lemma new_bare_left:
  assumes "new_bare K asid m = (Ok sp, m')"
  shows "frames_left m \<le> frames_left m' + 1"
proof -
  have "\<exists>p. tracker_alloc m = (Ok p, m')"
    using assms by (auto simp: new_bare_def page_table_new_def klift_def elim!: kbind_OkE)
  then obtain p where "on_machine tracker_alloc (x, m) = (Ok p, (x, m'))" for x :: page_table
    by (auto simp: on_machine_def)
  from costsD(2) [OF costs_alloc _ this] show ?thesis by (cases "1 \<le> frames_left m") auto
qed

end
