(* ===== verification/Space_Pairs.thy ===== *)
theory Space_Pairs
  imports Frame_Supply
begin

text \<open>
  Two address spaces on one machine, as the kernel space and the space of a process are: what an
  operation on one of them leaves of the other.
\<close>

section \<open>The pair\<close>

definition spaces_ok :: "crates \<Rightarrow> usize \<Rightarrow> usize set \<Rightarrow> usize set \<Rightarrow> space \<Rightarrow> space \<Rightarrow> machine \<Rightarrow> bool" where
  "spaces_ok K st R R' sp sp' m \<longleftrightarrow>
     space_inv K st R (sp, m) \<and> space_inv K st R' (sp', m) \<and>
     separate st m (space_page_table sp) (space_page_table sp')"

lemma space_pt: "space_inv K st R (sp, m) \<Longrightarrow> pt_inv K st (space_page_table sp, m)"
  by (simp add: space_inv_def areas_inv_def vm_inv_def)

lemma separate_sym:
  assumes "pt_inv K st (t, m)" and "separate st m t t'"
  shows "separate st m t' t"
proof -
  have "table_frames t \<subseteq> owned_frames st m"
    using assms(1) by (auto simp: pt_inv_def frames_ok_def table_frames_def)
  then show ?thesis using assms(2) by (auto simp: separate_def others_def table_frames_def)
qed

lemma spaces_ok_sym: "spaces_ok K st R R' sp sp' m \<Longrightarrow> spaces_ok K st R' R sp' sp m"
  using separate_sym space_pt unfolding spaces_ok_def by metis

text \<open>A space is well formed as long as its table is and translates as before.\<close>

lemma space_inv_view:
  assumes inv: "space_inv K st R (sp, m)" and pt: "pt_inv K st (space_page_table sp, m')"
    and view: "vpn_view K (space_page_table sp, m') = vpn_view K (space_page_table sp, m)"
  shows "space_inv K st R (sp, m')"
proof -
  have "page_mapped K k (space_page_table sp, m') v = page_mapped K k (space_page_table sp, m) v" for k v
    using view by (intro page_mapped_cong) simp_all
  then have "space_inv K st R (sp, m') \<longleftrightarrow> space_inv K st R (sp, m)"
    using pt view space_pt [OF inv] by (simp add: space_inv_def areas_inv_def vm_inv_def area_ok_def)
  then show ?thesis using inv by simp
qed

text \<open>The frames of a table keep their contents.\<close>

definition keeps_frames :: "page_table \<Rightarrow> machine \<Rightarrow> machine \<Rightarrow> bool" where
  "keeps_frames t m m' \<longleftrightarrow> (\<forall>p \<in> table_frames t. mem m' p = mem m p)"

lemma keeps_frames_trans: "keeps_frames t m m1 \<Longrightarrow> keeps_frames t m1 m2 \<Longrightarrow> keeps_frames t m m2"
  by (simp add: keeps_frames_def)

lemma spaces_unmapped:
  assumes ok: "spaces_ok K st R R' sp sp' m"
    and u: "unmapped_in K st V (space_page_table sp, m) (space_page_table sp1, m1)" and inv: "space_inv K st R (sp1, m1)"
  shows "spaces_ok K st R R' sp1 sp' m1" and "keeps_frames (space_page_table sp') m m1"
proof -
  have i: "space_inv K st R' (sp', m)" and sep: "separate st m (space_page_table sp) (space_page_table sp')"
    using ok by (simp_all add: spaces_ok_def)
  note s = unmapped_in_separate [OF space_pt [OF i] sep u]
  show "spaces_ok K st R R' sp1 sp' m1"
    using inv s(4) space_inv_view [OF i s(1,2)] by (simp add: spaces_ok_def)
  show "keeps_frames (space_page_table sp') m m1" using s(3) by (simp add: keeps_frames_def)
qed

lemma spaces_mapped:
  assumes ok: "spaces_ok K st R R' sp sp' m"
    and mp: "mapped_in K st k V (space_page_table sp, m) (space_page_table sp1, m1)" and inv: "space_inv K st R (sp1, m1)"
  shows "spaces_ok K st R R' sp1 sp' m1" and "keeps_frames (space_page_table sp') m m1"
proof -
  have i: "space_inv K st R' (sp', m)" and sep: "separate st m (space_page_table sp) (space_page_table sp')"
    using ok by (simp_all add: spaces_ok_def)
  note s = mapped_in_separate [OF space_pt [OF i] sep mp]
  show "spaces_ok K st R R' sp1 sp' m1"
    using inv s(4) space_inv_view [OF i s(1,2)] by (simp add: spaces_ok_def)
  show "keeps_frames (space_page_table sp') m m1" using s(3) by (simp add: keeps_frames_def)
qed

section \<open>Removing and creating areas\<close>

lemma pair_pop:
  assumes ok: "spaces_ok K st R R' sp sp' m" and get: "bt_get (area_set sp) (b, e) = Some ar"
  obtains sp1 m1 where "pop K b e (sp, m) = (Ok (), (sp1, m1))" and "spaces_ok K st R R' sp1 sp' m1"
    and "keeps_frames (space_page_table sp') m m1" and "area_set sp1 = bt_remove (b, e) (area_set sp)"
    and "areas_of sp1 = areas_of sp - {ar}"
    and "unmapped_in K st {b..<e} (space_page_table sp, m) (space_page_table sp1, m1)"
proof -
  have inv: "space_inv K st R (sp, m)" using ok by (simp add: spaces_ok_def)
  obtain sp1 m1 where p: "pop K b e (sp, m) = (Ok (), (sp1, m1))" "space_inv K st R (sp1, m1)"
    "unmapped_in K st {b..<e} (pt_of (sp, m)) (pt_of (sp1, m1))"
    "area_set sp1 = bt_remove (b, e) (area_set sp)" "areas_of sp1 = areas_of sp - {ar}"
    by (rule pop_spec [OF inv get])
  from that [OF p(1)] spaces_unmapped [OF ok _ p(2), of "{b..<e}"] p show ?thesis by simp
qed

lemma pair_new:
  assumes ok: "spaces_ok K st R R' sp sp' m" and R: "{b..<e} \<inter> R = {}" and fl: "k = Framed \<longrightarrow> fl \<noteq> 0"
    and free: "range_ok 0 (2 ^ 27) (pr_used (page_range_allocator sp)) b e True"
    and left: "3 * (unat e - unat b) \<le> frames_left m"
  obtains sp1 m1 where "new_area K b e fl k None (sp, m) = (Ok (), (sp1, m1))" and "spaces_ok K st R R' sp1 sp' m1"
    and "keeps_frames (space_page_table sp') m m1" and "areas_of sp1 = insert (area_of b e fl k) (areas_of sp)"
    and "frames_left m \<le> frames_left m1 + 3 * (unat e - unat b)"
proof -
  have inv: "space_inv K st R (sp, m)" using ok by (simp add: spaces_ok_def)
  note cost = costs_area_map [of e b K fl k]
  have "fst (area_map K (area_of b e fl k) (pt_of (sp, m))) \<noteq> Err FrameExhausted"
    using cost left unfolding costs_def by simp
  then obtain sp1 m1 where c: "new_area K b e fl k None (sp, m) = (Ok (), (sp1, m1))" "space_inv K st R (sp1, m1)"
    "mapped_in K st k {b..<e} (pt_of (sp, m)) (pt_of (sp1, m1))"
    "areas_of sp1 = insert (area_of b e fl k) (areas_of sp)"
    by (rule_tac new_area_spec [OF inv R fl]) (use free in auto)
  obtain t1 where "area_map K (area_of b e fl k) (space_page_table sp, m) = (Ok (), (t1, m1))"
    using new_area_machine [OF c(1)] by blast
  then have "frames_left m \<le> frames_left m1 + 3 * (unat e - unat b)" using costsD(2) [OF cost left] by blast
  from that [OF c(1) _ _ c(4) this] spaces_mapped [OF ok _ c(2), of k "{b..<e}"] c(3) show ?thesis by simp
qed

lemma pair_recycle:
  assumes ok: "spaces_ok K st R R' sp sp' m"
  obtains sp1 m1 where "recycle_data_pages K (sp, m) = (Ok (), (sp1, m1))" and "spaces_ok K st R R' sp1 sp' m1"
    and "area_set sp1 = []" and "keeps_frames (space_page_table sp') m m1"
proof -
  have inv: "space_inv K st R (sp, m)" using ok by (simp add: spaces_ok_def)
  obtain sp1 m1 where r: "recycle_data_pages K (sp, m) = (Ok (), (sp1, m1))" "space_inv K st R (sp1, m1)" "area_set sp1 = []"
    "unmapped_in K st (pr_used (page_range_allocator sp)) (pt_of (sp, m)) (pt_of (sp1, m1))"
    by (rule recycle_spec [OF inv])
  from that [OF r(1)] spaces_unmapped [OF ok _ r(2), of "pr_used (page_range_allocator sp)"] r show ?thesis by simp
qed

section \<open>Two new spaces\<close>

lemma new_bare_second:
  assumes K: "crates_ok K" and inv: "space_inv K st R (sp, m)" and new: "new_bare K asid m = (Ok sp2, m2)"
  shows "spaces_ok K st {} R sp2 sp m2" and "areas_of sp2 = {}"
proof -
  obtain t where t: "page_table_new asid m = (Ok t, m2)" "space_page_table sp2 = t"
    using new by (auto simp: new_bare_def kbind_def klift_def split: prod.splits outcome.splits)
  have fi: "frame_inv st (frame_allocator m)" "end_ppn (frame_allocator m) \<le> 2 ^ 44"
    using space_pt [OF inv] by (auto simp: pt_inv_def frames_ok_def)
  note n = new_bare_inv [OF K fi new] and s = new_table_separate [OF space_pt [OF inv] t(1)]
  show "spaces_ok K st {} R sp2 sp m2"
    using n(1) s(3) t(2) space_inv_view [OF inv s(1,2)] by (simp add: spaces_ok_def)
  show "areas_of sp2 = {}" by (rule n(2))
qed

lemma new_bare_runs:
  assumes K: "crates_ok K" and left: "0 < frames_left m"
  shows "\<exists>sp2 m2. new_bare K asid m = (Ok sp2, m2)"
proof -
  obtain a where a: "page_ranges_new 0 (2 ^ 27) = Ok a"
    by (simp add: page_ranges_new_def new_node_def Let_def)
  have "\<exists>p m2. tracker_alloc m = (Ok p, m2)"
    using left by (auto simp: frames_left_def tracker_alloc_def frame_alloc_def Let_def word_le_nat_alt split: option.splits)
  then show ?thesis
    using a by (auto simp: new_bare_def page_table_new_def kbind_def klift_def max_vpn [OF K])
qed

section \<open>Spaces with given areas\<close>

definition framed_areas :: "(usize \<times> usize) list \<Rightarrow> area set" where
  "framed_areas l = (\<lambda>(b, e). area_of b e 6 Framed) ` set l"

lemma area_listed:
  assumes "space_inv K st R (sp, m)" and "areas_of sp = framed_areas l" and "(b, e) \<in> set l"
  shows "bt_get (area_set sp) (b, e) = Some (area_of b e 6 Framed)"
proof -
  have wf: "bt_wf (area_set sp)" and keys: "\<forall>(k, ar) \<in> set (area_set sp). k = area_range ar"
    using assms(1) by (simp_all add: space_inv_def)
  have "area_of b e 6 Framed \<in> areas_of sp" using assms(2,3) by (force simp: framed_areas_def)
  then obtain k where "(k, area_of b e 6 Framed) \<in> set (area_set sp)" by (auto simp: areas_of_def)
  moreover from this have "k = (b, e)" using keys by (force simp: area_range_def area_of_def)
  ultimately show ?thesis using bt_get_iff [OF wf] by simp
qed

lemma pair_add:
  assumes ok: "spaces_ok K st {} R' sp sp' m" and areas: "areas_of sp = framed_areas l"
    and apart: "\<forall>(b', e') \<in> set l. e' \<le> b \<or> e \<le> b'" and "b < e" "e \<le> 2 ^ 27" and left: "3 * (unat e - unat b) \<le> frames_left m"
  obtains sp1 m1 where "spaces_ok K st {} R' sp1 sp' m1" and "areas_of sp1 = framed_areas ((b, e) # l)"
    and "frames_left m \<le> frames_left m1 + 3 * (unat e - unat b)"
proof -
  have "pr_used (page_range_allocator sp) = \<Union> (area_pages ` framed_areas l)"
    using ok areas by (simp add: spaces_ok_def space_inv_def areas_inv_def)
  then have "{b..<e} \<inter> pr_used (page_range_allocator sp) = {}"
    using apart by (fastforce simp: framed_areas_def area_pages_def area_of_def)
  then have free: "range_ok 0 (2 ^ 27) (pr_used (page_range_allocator sp)) b e True"
    using assms(4,5) by (simp add: range_ok_def)
  obtain sp1 m1 where "spaces_ok K st {} R' sp1 sp' m1" "areas_of sp1 = insert (area_of b e 6 Framed) (areas_of sp)"
    "frames_left m \<le> frames_left m1 + 3 * (unat e - unat b)"
    by (rule pair_new [OF ok _ _ free left, of Framed 6]) simp_all
  then show ?thesis using areas by (intro that) (simp_all add: framed_areas_def)
qed

end
