(* ===== verification/Process_Properties.thy ===== *)
theory Process_Properties
  imports Space_Pairs Startup
begin

text \<open>
  How tasks and processes end: what the exit of a thread and of a process gives back, and when it
  cannot succeed.
\<close>

section \<open>The memory of a task\<close>

lemma kunwrap_cases:
  assumes "f s = (r, s')" and "r \<noteq> Hang"
  shows "kunwrap f s = (if \<exists>x. r = Ok x then r else Panic, s')"
  using assms by (cases r) (auto simp: kunwrap_def)

lemma pop_keeps:
  assumes "space_inv K st R (sp, m)"
  shows "\<exists>r sp' m'. pop K b e (sp, m) = (r, (sp', m')) \<and> (r = Ok () \<or> (\<exists>x. r = Err x)) \<and> space_inv K st R (sp', m')"
proof (cases "bt_get (area_set sp) (b, e)")
  case None
  then show ?thesis using assms pop_absent by blast
next
  case (Some ar)
  obtain sp' m' where "pop K b e (sp, m) = (Ok (), (sp', m'))" "space_inv K st R (sp', m')"
    by (rule pop_spec [OF assms Some])
  then show ?thesis by blast
qed

lemma resource_dealloc_keeps:
  assumes "space_inv K st R (sp, m)"
  shows "\<exists>r sp' m'. resource_dealloc K tid base (sp, m) = (r, (sp', m')) \<and> (r = Ok () \<or> (\<exists>x. r = Err x)) \<and>
    space_inv K st R (sp', m')"
proof -
  obtain b e where be: "get_task_trap_ctx_vpn_range K tid = (b, e)" by (cases "get_task_trap_ctx_vpn_range K tid")
  obtain b2 e2 where be2: "get_user_task_stack_vpn_range K base tid = (b2, e2)" by (cases "get_user_task_stack_vpn_range K base tid")
  obtain r sp1 m1 where p: "pop K b e (sp, m) = (r, (sp1, m1))" "r = Ok () \<or> (\<exists>x. r = Err x)" "space_inv K st R (sp1, m1)"
    using pop_keeps [OF assms] by blast
  have "resource_dealloc K tid base (sp, m) = (if r = Ok () then pop K b2 e2 (sp1, m1) else (r, (sp1, m1)))"
    using p(1,2) by (auto simp: resource_dealloc_def dealloc_task_trap_ctx_def dealloc_user_task_stack_def be be2 kbind_def)
  then show ?thesis using p(2,3) pop_keeps [OF p(3), of b2 e2] by (cases "r = Ok ()") auto
qed

text \<open>The areas of a task in the space of its process, and the two of them removed.\<close>

definition task_mapped :: "crates \<Rightarrow> usize \<Rightarrow> usize \<Rightarrow> space \<Rightarrow> bool" where
  "task_mapped K base tid sp \<longleftrightarrow>
     bt_get (area_set sp) (get_task_trap_ctx_vpn_range K tid) \<noteq> None \<and>
     bt_get (area_set sp) (get_user_task_stack_vpn_range K base tid) \<noteq> None \<and>
     get_task_trap_ctx_vpn_range K tid \<noteq> get_user_task_stack_vpn_range K base tid"

lemma resource_dealloc_mapped:
  assumes ok: "spaces_ok K st R R' sp sp' m" and mapped: "task_mapped K base tid sp"
  obtains sp1 m1 where "resource_dealloc K tid base (sp, m) = (Ok (), (sp1, m1))" and "spaces_ok K st R R' sp1 sp' m1"
    and "area_set sp1 = bt_remove (get_user_task_stack_vpn_range K base tid)
           (bt_remove (get_task_trap_ctx_vpn_range K tid) (area_set sp))"
proof -
  obtain b e where be: "get_task_trap_ctx_vpn_range K tid = (b, e)" by (cases "get_task_trap_ctx_vpn_range K tid")
  obtain b2 e2 where be2: "get_user_task_stack_vpn_range K base tid = (b2, e2)" by (cases "get_user_task_stack_vpn_range K base tid")
  obtain a1 a2 where g: "bt_get (area_set sp) (b, e) = Some a1" "bt_get (area_set sp) (b2, e2) = Some a2" "(b, e) \<noteq> (b2, e2)"
    using mapped by (auto simp: task_mapped_def be be2)
  obtain sp1 m1 where p1: "pop K b e (sp, m) = (Ok (), (sp1, m1))" "spaces_ok K st R R' sp1 sp' m1"
    "area_set sp1 = bt_remove (b, e) (area_set sp)" by (rule pair_pop [OF ok g(1)])
  then have "bt_get (area_set sp1) (b2, e2) = Some a2" using g(2,3) by auto
  with p1(2) obtain sp2 m2 where p2: "pop K b2 e2 (sp1, m1) = (Ok (), (sp2, m2))" "spaces_ok K st R R' sp2 sp' m2"
    "area_set sp2 = bt_remove (b2, e2) (area_set sp1)" by (rule pair_pop)
  then show ?thesis
    using p1 by (intro that [of sp2 m2])
      (simp_all add: resource_dealloc_def dealloc_task_trap_ctx_def dealloc_user_task_stack_def be be2 kbind_def)
qed

section \<open>Releasing the resources of a task\<close>

abbreviation ended :: "usize \<Rightarrow> task_block \<Rightarrow> task_block" where
  "ended code tb \<equiv> tb\<lparr>tb_status := Zombie, tb_exit_code := Some code, tb_user_resource := None\<rparr>"

definition released ::
    "task_ref \<Rightarrow> task_block \<Rightarrow> 'tab process_block \<Rightarrow> usize \<Rightarrow> space \<Rightarrow> machine \<Rightarrow> btree_id_allocator \<Rightarrow>
     ('tab, 'z) kernel_scheme \<Rightarrow> ('tab, 'z) kernel_scheme" where
  "released t tb pb code sp m a s =
     s\<lparr>k_tasks := (k_tasks s)(t \<mapsto> ended code tb),
       k_procs := (k_procs s)(tb_process tb \<mapsto> pb\<lparr>pb_space := sp, pb_tid_allocator := a\<rparr>), k_machine := m\<rparr>"

lemma id_drop_cases:
  obtains (ok) a' where "id_tracker_drop True tr a = (Ok (), a')" | (stop) a' where "id_tracker_drop True tr a = (Panic, a')"
  by (cases "current_id a \<le> tracker_id tr \<or> tracker_id tr \<in> ids_recycled a")
    (auto simp: id_tracker_drop_def id_dealloc_def kunwrap_def)

lemma user_resource_drop_ok:
  assumes "k_procs s p = Some pb"
    and "resource_dealloc K (tracker_id tr) (pb_base_size pb) (pb_space pb, k_machine s) = (Ok (), (sp, m))"
    and "id_tracker_drop True tr (pb_tid_allocator pb) = (r, a)"
  shows "user_resource_drop K p tr s =
    (r, s\<lparr>k_procs := (k_procs s)(p \<mapsto> pb\<lparr>pb_space := sp, pb_tid_allocator := a\<rparr>), k_machine := m\<rparr>)"
  using assms by (simp add: user_resource_drop_def kbind_def kunwrap_def on_space_def on_tids_def on_process_def)

lemma user_resource_drop_err:
  assumes "k_procs s p = Some pb"
    and "resource_dealloc K (tracker_id tr) (pb_base_size pb) (pb_space pb, k_machine s) = (Err x, (sp, m))"
  shows "\<exists>s'. user_resource_drop K p tr s = (Panic, s')"
  using assms by (simp add: user_resource_drop_def kbind_def kunwrap_def on_space_def)

lemma release_start:
  assumes "k_tasks s t = Some tb" and "tb_user_resource tb = Some tr"
  shows "release_user_resource K t code s =
    user_resource_drop K (tb_process tb) tr (s\<lparr>k_tasks := (k_tasks s)(t \<mapsto> ended code tb)\<rparr>)"
  using assms by (simp add: release_user_resource_def get_task_def on_task_def kbind_def kopt_def)

lemma release_ok:
  assumes t: "k_tasks s t = Some tb" "k_procs s (tb_process tb) = Some pb" "tb_user_resource tb = Some tr"
    and d: "resource_dealloc K (tracker_id tr) (pb_base_size pb) (pb_space pb, k_machine s) = (Ok (), (sp, m))"
    and a: "id_tracker_drop True tr (pb_tid_allocator pb) = (r, a)"
  shows "release_user_resource K t code s = (r, released t tb pb code sp m a s)"
proof -
  let ?s = "s\<lparr>k_tasks := (k_tasks s)(t \<mapsto> ended code tb)\<rparr>"
  have "user_resource_drop K (tb_process tb) tr ?s =
      (r, ?s\<lparr>k_procs := (k_procs ?s)(tb_process tb \<mapsto> pb\<lparr>pb_space := sp, pb_tid_allocator := a\<rparr>), k_machine := m\<rparr>)"
    by (rule user_resource_drop_ok) (use t d a in simp_all)
  then show ?thesis unfolding release_start [OF t(1,3)] by (simp add: released_def)
qed

lemma release_outcome:
  assumes t: "k_tasks s t = Some tb" "k_procs s (tb_process tb) = Some pb" and inv: "space_inv K st R (pb_space pb, k_machine s)"
  shows "(\<exists>s'. release_user_resource K t code s = (Panic, s')) \<or>
    (\<exists>sp m a. release_user_resource K t code s = (Ok (), released t tb pb code sp m a s) \<and> space_inv K st R (sp, m))"
proof (cases "tb_user_resource tb")
  case None
  then show ?thesis
    using t by (simp add: release_user_resource_def get_task_def on_task_def kbind_def kopt_def)
next
  case (Some tr)
  obtain r sp m where d: "resource_dealloc K (tracker_id tr) (pb_base_size pb) (pb_space pb, k_machine s) = (r, (sp, m))"
    "r = Ok () \<or> (\<exists>x. r = Err x)" "space_inv K st R (sp, m)"
    using resource_dealloc_keeps [OF inv] by blast
  show ?thesis
  proof (cases "r = Ok ()")
    case True
    show ?thesis
    proof (cases rule: id_drop_cases [of tr "pb_tid_allocator pb"])
      case (ok a')
      show ?thesis using release_ok [OF t Some _ ok] d(1,3) True by blast
    next
      case (stop a')
      show ?thesis using release_ok [OF t Some _ stop] d(1) True by blast
    qed
  next
    case False
    then obtain x where x: "r = Err x" using d(2) by blast
    let ?s = "s\<lparr>k_tasks := (k_tasks s)(t \<mapsto> ended code tb)\<rparr>"
    have "\<exists>s'. user_resource_drop K (tb_process tb) tr ?s = (Panic, s')"
      by (rule user_resource_drop_err [where pb = pb]) (use t d(1) x in simp_all)
    then show ?thesis by (simp add: release_start [OF t(1) Some])
  qed
qed

section \<open>A process that cannot exit\<close>

text \<open>
  What the loop over the tasks of an exiting process \<open>p\<close> keeps: who runs, who waits, the list
  of tasks, and the task \<open>u\<close> it has not come to.
\<close>

definition exiting :: "crates \<Rightarrow> usize \<Rightarrow> usize set \<Rightarrow> proc_ref \<Rightarrow> task_ref \<Rightarrow> ('tab, 'z) kernel_scheme \<Rightarrow> ('tab, 'z) kernel_scheme \<Rightarrow> bool" where
  "exiting K st R p u s0 s \<longleftrightarrow>
     k_processor s = k_processor s0 \<and> k_scheduler s = k_scheduler s0 \<and> k_held s = k_held s0 \<and>
     k_tasks s u = k_tasks s0 u \<and>
     (\<forall>v. map_option tb_process (k_tasks s v) = map_option tb_process (k_tasks s0 v)) \<and>
     (\<exists>pb pb0. k_procs s p = Some pb \<and> k_procs s0 p = Some pb0 \<and> pb_tasks pb = pb_tasks pb0 \<and>
        space_inv K st R (pb_space pb, k_machine s))"

lemma exiting_count:
  assumes "exiting K st R p u s0 s" and "k_tasks s0 u = Some ub" and "tb_process ub = p"
  shows "task_strong_count s u = task_strong_count s0 u"
  using assms by (auto simp: exiting_def task_strong_count_def)

lemma zombie_task_keeps:
  assumes e: "exiting K st R p u s0 s" and v: "map_option tb_process (k_tasks s0 v) = Some p" "v \<noteq> u"
  shows "(\<exists>s'. zombie_task K code v s = (Panic, s')) \<or> (\<exists>s'. zombie_task K code v s = (Ok (), s') \<and> exiting K st R p u s0 s')"
proof -
  obtain vb where vb: "k_tasks s v = Some vb" "tb_process vb = p"
    using e v(1) unfolding exiting_def by (metis map_option_eq_Some)
  obtain pb pb0 where pb: "k_procs s p = Some pb" "k_procs s0 p = Some pb0" "pb_tasks pb = pb_tasks pb0"
    "space_inv K st R (pb_space pb, k_machine s)" using e unfolding exiting_def by blast
  show ?thesis
  proof (cases "task_is_zombie vb")
    case True
    then show ?thesis using vb e by (simp add: zombie_task_def get_task_def kbind_def)
  next
    case False
    have p: "k_procs s (tb_process vb) = Some pb" using pb(1) vb(2) by simp
    show ?thesis
      using release_outcome [OF vb(1) p pb(4), of code]
    proof (elim disjE exE conjE)
      fix s' assume "release_user_resource K v code s = (Panic, s')"
      then show ?thesis using vb False by (simp add: zombie_task_def get_task_def kbind_def)
    next
      fix sp m a assume released: "release_user_resource K v code s = (Ok (), released v vb pb code sp m a s)" "space_inv K st R (sp, m)"
      let ?s = "released v vb pb code sp m a s"
      have "exiting K st R p u s0 ?s"
        using e v vb pb released(2) by (auto simp: exiting_def released_def)
      then show ?thesis
        using released(1) vb False by (auto simp: zombie_task_def get_task_def kbind_def kassert_def)
    qed
  qed
qed

lemma zombie_task_panics:
  assumes e: "exiting K st R p u s0 s" and u: "k_tasks s0 u = Some ub" "tb_process ub = p" "\<not> task_is_zombie ub"
    and count: "task_strong_count s0 u \<noteq> 2"
  shows "\<exists>s'. zombie_task K code u s = (Panic, s')"
proof -
  have ub: "k_tasks s u = Some ub" using e u(1) by (simp add: exiting_def)
  obtain pb where pb: "k_procs s p = Some pb" "space_inv K st R (pb_space pb, k_machine s)"
    using e unfolding exiting_def by blast
  have p: "k_procs s (tb_process ub) = Some pb" using pb(1) u(2) by simp
  show ?thesis
    using release_outcome [OF ub p pb(2), of code]
  proof (elim disjE exE conjE)
    fix s' assume "release_user_resource K u code s = (Panic, s')"
    then show ?thesis using ub u(3) by (simp add: zombie_task_def get_task_def kbind_def)
  next
    fix sp m a assume released: "release_user_resource K u code s = (Ok (), released u ub pb code sp m a s)"
    have "task_strong_count (released u ub pb code sp m a s) u = task_strong_count s u"
      using ub pb u(2) by (simp add: task_strong_count_def released_def)
    then show ?thesis
      using released(1) ub u(3) count exiting_count [OF e u(1,2)]
      by (auto simp: zombie_task_def get_task_def kbind_def kassert_def)
  qed
qed

lemma zombie_loop_panics:
  assumes "exiting K st R p u s0 s" and "u \<in> set ts" and "\<forall>v \<in> set ts. map_option tb_process (k_tasks s0 v) = Some p"
    and "k_tasks s0 u = Some ub" "\<not> task_is_zombie ub" and "task_strong_count s0 u \<noteq> 2"
  shows "fst (kfor ts (zombie_task K code) s) = Panic"
  using assms(1-3)
proof (induction ts arbitrary: s)
  case (Cons v ts)
  show ?case
  proof (cases "v = u")
    case True
    have "tb_process ub = p" using Cons.prems(2,3) assms(4) by auto
    then show ?thesis
      using zombie_task_panics [OF Cons.prems(1) assms(4) _ assms(5,6), of code] True by (auto simp: kbind_def)
  next
    case False
    then show ?thesis
      using zombie_task_keeps [OF Cons.prems(1), of v code] Cons by (auto simp: kbind_def)
  qed
qed simp

lemma kbind_fst_Panic: "fst (f s) = Panic \<Longrightarrow> fst (kbind f g s) = Panic"
  by (cases "f s") (simp add: kbind_def)

text \<open>The state in which the task that exits marks itself as a zombie.\<close>

definition leaving :: "task_ref \<Rightarrow> ('tab, 'z) kernel_scheme \<Rightarrow> ('tab, 'z) kernel_scheme" where
  "leaving t s = remove_timer t (hold_task t (set_current None s))"

lemma leaving_parts [simp]:
  "k_tasks (leaving t s) = k_tasks s" "k_procs (leaving t s) = k_procs s" "k_machine (leaving t s) = k_machine s"
  "k_kernel_space (leaving t s) = k_kernel_space s" "k_kernel_stacks (leaving t s) = k_kernel_stacks s"
  "k_ready (leaving t s) = k_ready s" "k_current (leaving t s) = None" "k_pids (leaving t s) = k_pids s"
  "k_timer (leaving t s) = filter (\<lambda>cv. tm_task cv \<noteq> t) (k_timer s)" "k_held (leaving t s) = (k_held s)(t := Suc (k_held s t))"
  "k_next_proc (leaving t s) = k_next_proc s" "k_init (leaving t s) = k_init s"
  by (simp_all add: leaving_def remove_timer_def hold_task_def set_current_def)

lemma count_other_timers: "u \<noteq> t \<Longrightarrow> count_list (map tm_task (filter (\<lambda>cv. tm_task cv \<noteq> t) cvs)) u = count_list (map tm_task cvs) u"
  by (induction cvs) auto

lemma count_no_timers: "count_list (map tm_task (filter (\<lambda>cv. tm_task cv \<noteq> t) cvs)) t = 0"
  by (induction cvs) auto

lemma leaving_count:
  "k_current s = Some t \<Longrightarrow> u \<noteq> t \<Longrightarrow> task_strong_count (leaving t s) u = task_strong_count s u"
  by (simp add: task_strong_count_def count_other_timers cong: option.case_cong)

lemma exit_runs:
  assumes "k_current s = Some t"
  shows "exit_current_and_run_other_task K code s =
    kbind (\<lambda>s. kassert (task_strong_count s t = 2) s) (\<lambda>_. kbind (task_mark_zombie K code t) (\<lambda>_. unhold_task K t)) (leaving t s)"
  using assms by (simp add: exit_current_and_run_other_task_def leaving_def)


section \<open>A process that exits\<close>

text \<open>A process with one task, which runs, whose memory is mapped and owned as the kernel keeps it.\<close>

definition sole_task ::
    "crates \<Rightarrow> usize \<Rightarrow> usize set \<Rightarrow> usize set \<Rightarrow> ('tab, 'z) kernel_scheme \<Rightarrow> task_ref \<Rightarrow> task_block \<Rightarrow> 'tab process_block \<Rightarrow> bool" where
  "sole_task K st R Rk s t tb pb \<longleftrightarrow>
     k_current s = Some t \<and> k_tasks s t = Some tb \<and> k_procs s (tb_process tb) = Some pb \<and>
     t \<notin> set (k_ready s) \<and> k_held s t = 0 \<and> pb_tasks pb = [(ROOT_TID, t)] \<and> pb_childrens pb = [] \<and>
     tb_user_resource tb = Some \<lparr>tracker_id = ROOT_TID\<rparr> \<and> id_inv (pb_tid_allocator pb) \<and> ROOT_TID \<in> id_owned (pb_tid_allocator pb) \<and>
     id_inv (k_kernel_stacks s) \<and> tracker_id (tb_kernel_stack tb) \<in> id_owned (k_kernel_stacks s) \<and>
     spaces_ok K st R Rk (pb_space pb) (k_kernel_space s) (k_machine s) \<and>
     task_mapped K (pb_base_size pb) ROOT_TID (pb_space pb) \<and>
     bt_get (area_set (k_kernel_space s)) (get_kernel_task_stack_vpn_range K (tracker_id (tb_kernel_stack tb))) \<noteq> None"

text \<open>The steps of the exit, one after the other.\<close>

lemma released_parts [simp]:
  "k_processor (released t tb pb code sp m a s) = k_processor s" "k_scheduler (released t tb pb code sp m a s) = k_scheduler s"
  "k_held (released t tb pb code sp m a s) = k_held s" "k_tasks (released t tb pb code sp m a s) = (k_tasks s)(t \<mapsto> ended code tb)"
  "k_procs (released t tb pb code sp m a s) = (k_procs s)(tb_process tb \<mapsto> pb\<lparr>pb_space := sp, pb_tid_allocator := a\<rparr>)"
  "k_machine (released t tb pb code sp m a s) = m" "k_kernel_space (released t tb pb code sp m a s) = k_kernel_space s"
  "k_kernel_stacks (released t tb pb code sp m a s) = k_kernel_stacks s" "k_init (released t tb pb code sp m a s) = k_init s"
  by (simp_all add: released_def)

lemma zombie_task_sole:
  assumes t: "k_tasks s t = Some tb" "k_procs s (tb_process tb) = Some pb" "tb_user_resource tb = Some tr"
    and d: "resource_dealloc K (tracker_id tr) (pb_base_size pb) (pb_space pb, k_machine s) = (Ok (), (sp, m))"
    and a: "id_tracker_drop True tr (pb_tid_allocator pb) = (Ok (), a)"
    and count: "task_strong_count s t = 2"
  shows "zombie_task K code t s = (Ok (), released t tb pb code sp m a s)"
proof -
  have "task_strong_count (released t tb pb code sp m a s) t = 2"
    using count t by (simp add: task_strong_count_def)
  then show ?thesis
    using release_ok [OF t d a] t by (simp add: zombie_task_def get_task_def kbind_def kopt_def task_is_zombie_def kassert_def)
qed

lemma zombie_tree_sole:
  assumes p: "k_procs s p = Some pb" "pb_tasks pb = [(tid, t)]" "pb_childrens pb = []"
    and z: "zombie_task K code t s = (Ok (), s1)" and p1: "k_procs s1 p = Some pb1" "pb_tasks pb1 = [(tid, t)]" "pb_childrens pb1 = []"
    and count: "task_strong_count (s1\<lparr>k_procs := (k_procs s1)(p \<mapsto> pb1\<lparr>pb_tasks := []\<rparr>)\<rparr>) t \<noteq> 0"
    and r: "recycle_data_pages K (pb_space pb1, k_machine s1) = (Ok (), (sp, m))"
  shows "zombie_tree (Suc n) K busy code p s =
    (Ok (), s1\<lparr>k_procs := (k_procs s1)(p \<mapsto> pb1\<lparr>pb_tasks := [], pb_childrens := [], pb_space := sp, pb_exit_code := Some code\<rparr>),
       k_machine := m\<rparr>)"
proof -
  let ?s2 = "s1\<lparr>k_procs := (k_procs s1)(p \<mapsto> pb1\<lparr>pb_tasks := []\<rparr>)\<rparr>"
  have "clear_tasks K p s1 = (Ok (), ?s2)"
    using p1 count by (simp add: clear_tasks_def get_proc_def kopt_def on_process_def kbind_def task_release_def)
  moreover have "clear_childrens K p ?s2 = (Ok (), s1\<lparr>k_procs := (k_procs s1)(p \<mapsto> pb1\<lparr>pb_tasks := [], pb_childrens := []\<rparr>)\<rparr>)"
    using p1 by (simp add: clear_childrens_def get_proc_def kopt_def on_process_def kbind_def)
  ultimately show ?thesis
    using p z p1 r by (simp add: get_proc_def kopt_def kbind_def on_space_def on_process_def)
qed

lemma task_drop_ended:
  assumes "k_tasks s t = Some tb" and "tb_user_resource tb = None" and "k_held s t = Suc 0"
    and "task_strong_count (s\<lparr>k_held := (k_held s)(t := 0)\<rparr>) t = 0"
    and "unmap_kernel_task_stack K (tracker_id (tb_kernel_stack tb)) (k_kernel_space s, k_machine s) = (Ok (), (sp, m))"
    and "id_tracker_drop True (tb_kernel_stack tb) (k_kernel_stacks s) = (Ok (), a)"
  shows "unhold_task K t s = (Ok (), s\<lparr>k_held := (k_held s)(t := 0), k_tasks := (k_tasks s)(t := None), k_kernel_space := sp,
    k_machine := m, k_kernel_stacks := a\<rparr>)"
  using assms by (simp add: unhold_task_def task_release_def task_block_drop_def kernel_stack_drop_def kbind_def kunwrap_def
      on_kernel_space_def on_kernel_stacks_def)

text \<open>
  C6. The exit of the only task of a process without children succeeds and gives everything back:
  the task is gone, its stack and trap context are unmapped with all other areas of the process, its
  kernel stack is unmapped in the kernel space and the number of the stack is free again; the
  process stays as a zombie with the exit code until its parent collects it. Both spaces are well
  formed and separate afterwards, and no other task, process or ready task has changed.
\<close>

theorem process_exit_outcome:
  assumes sole: "sole_task K st R Rk s t tb pb"
  shows "\<exists>s' pb'. exit_current_and_run_other_task K code s = (Ok (), s') \<and>
    k_current s' = None \<and> k_ready s' = k_ready s \<and> k_tasks s' = (k_tasks s)(t := None) \<and>
    k_procs s' = (k_procs s)(tb_process tb \<mapsto> pb') \<and>
    pb_tasks pb' = [] \<and> pb_exit_code pb' = Some (scast code) \<and> process_is_zombie s' pb' \<and> area_set (pb_space pb') = [] \<and>
    area_set (k_kernel_space s') =
      bt_remove (get_kernel_task_stack_vpn_range K (tracker_id (tb_kernel_stack tb))) (area_set (k_kernel_space s)) \<and>
    spaces_ok K st R Rk (pb_space pb') (k_kernel_space s') (k_machine s') \<and>
    id_owned (k_kernel_stacks s') = id_owned (k_kernel_stacks s) - {tracker_id (tb_kernel_stack tb)}"
proof -
  note so = sole [unfolded sole_task_def]
  let ?p = "tb_process tb" let ?tr = "\<lparr>tracker_id = ROOT_TID\<rparr>" let ?code = "scast code :: usize"
  let ?s0 = "leaving t s"
  have count: "task_strong_count ?s0 t = 2"
    using so by (simp add: task_strong_count_def count_no_timers cong: option.case_cong)
  obtain sp m where d: "resource_dealloc K ROOT_TID (pb_base_size pb) (pb_space pb, k_machine s) = (Ok (), (sp, m))"
    "spaces_ok K st R Rk sp (k_kernel_space s) m"
    by (rule resource_dealloc_mapped [of K st R Rk "pb_space pb" "k_kernel_space s" "k_machine s" "pb_base_size pb" ROOT_TID])
      (use so in auto)
  obtain a where a: "id_tracker_drop True ?tr (pb_tid_allocator pb) = (Ok (), a)"
    by (rule id_tracker_drop_owned [of "pb_tid_allocator pb" ?tr]) (use so in auto)
  let ?s1 = "released t tb pb ?code sp m a ?s0" let ?pb1 = "pb\<lparr>pb_space := sp, pb_tid_allocator := a\<rparr>"
  have z: "zombie_task K ?code t ?s0 = (Ok (), ?s1)"
    by (rule zombie_task_sole [where tr = ?tr]) (use so d(1) a count in simp_all)
  obtain sp2 m2 where r: "recycle_data_pages K (sp, m) = (Ok (), (sp2, m2))" "spaces_ok K st R Rk sp2 (k_kernel_space s) m2"
    "area_set sp2 = []" by (rule pair_recycle [OF d(2)])
  let ?pb2 = "?pb1\<lparr>pb_tasks := [], pb_childrens := [], pb_space := sp2, pb_exit_code := Some ?code\<rparr>"
  let ?s2 = "?s1\<lparr>k_procs := (k_procs ?s1)(?p \<mapsto> ?pb2), k_machine := m2\<rparr>"
  have "zombie_tree (Suc n) K busy ?code ?p ?s0 = (Ok (), ?s2)" for n busy
    by (rule zombie_tree_sole [OF _ _ _ z, of ?p pb ROOT_TID]) (use so r(1) in \<open>simp_all add: task_strong_count_def\<close>)
  then have "process_mark_zombie K code ?p ?s0 = (Ok (), ?s2)" unfolding process_mark_zombie_def .
  then have mark: "task_mark_zombie K code t ?s0 = (Ok (), ?s2)"
    using so by (simp add: task_mark_zombie_def get_task_def get_proc_def kopt_def kbind_def task_tid_def
        klift_def kassert_def process_is_zombie_def)
  obtain b e where be: "get_kernel_task_stack_vpn_range K (tracker_id (tb_kernel_stack tb)) = (b, e)"
    by (cases "get_kernel_task_stack_vpn_range K (tracker_id (tb_kernel_stack tb))")
  then obtain ar where ar: "bt_get (area_set (k_kernel_space s)) (b, e) = Some ar" using so by auto
  obtain spk m3 where k: "pop K b e (k_kernel_space s, m2) = (Ok (), (spk, m3))" "spaces_ok K st Rk R spk sp2 m3"
    "area_set spk = bt_remove (b, e) (area_set (k_kernel_space s))"
    by (rule pair_pop [OF spaces_ok_sym [OF r(2)] ar])
  obtain ks where ks: "id_tracker_drop True (tb_kernel_stack tb) (k_kernel_stacks s) = (Ok (), ks)"
    "id_owned ks = id_owned (k_kernel_stacks s) - {tracker_id (tb_kernel_stack tb)}"
    by (rule id_tracker_drop_owned [of "k_kernel_stacks s" "tb_kernel_stack tb"]) (use so in auto)
  let ?s3 = "?s2\<lparr>k_held := (k_held ?s2)(t := 0), k_tasks := (k_tasks ?s2)(t := None), k_kernel_space := spk,
    k_machine := m3, k_kernel_stacks := ks\<rparr>"
  have "unhold_task K t ?s2 = (Ok (), ?s3)"
    by (rule task_drop_ended [where tb = "ended ?code tb"])
      (use so k(1) ks(1) be in \<open>simp_all add: task_strong_count_def count_no_timers unmap_kernel_task_stack_def\<close>)
  then have "exit_current_and_run_other_task K code s = (Ok (), ?s3)"
    using so count mark by (simp add: exit_runs kbind_def kassert_def)
  then show ?thesis
    using spaces_ok_sym [OF k(2)] k(3) ks(2) r(3) be
    by (intro exI [of _ ?s3] exI [of _ ?pb2]) (simp add: process_is_zombie_def)
qed

section \<open>A thread that exits\<close>

definition thread_task ::
    "crates \<Rightarrow> usize \<Rightarrow> usize set \<Rightarrow> usize set \<Rightarrow> ('tab, 'z) kernel_scheme \<Rightarrow> task_ref \<Rightarrow> task_block \<Rightarrow> 'tab process_block \<Rightarrow> usize \<Rightarrow> bool" where
  "thread_task K st R Rk s t tb pb tid \<longleftrightarrow>
     k_current s = Some t \<and> k_tasks s t = Some tb \<and> k_procs s (tb_process tb) = Some pb \<and>
     t \<notin> set (k_ready s) \<and> k_held s t = 0 \<and> count_list (map snd (pb_tasks pb)) t = 1 \<and>
     tb_user_resource tb = Some \<lparr>tracker_id = tid\<rparr> \<and> tid \<noteq> ROOT_TID \<and>
     id_inv (pb_tid_allocator pb) \<and> tid \<in> id_owned (pb_tid_allocator pb) \<and>
     spaces_ok K st R Rk (pb_space pb) (k_kernel_space s) (k_machine s) \<and> task_mapped K (pb_base_size pb) tid (pb_space pb)"

text \<open>
  C15. The exit of a thread other than the root task leaves a zombie with the exit code in the
  list of tasks and on its kernel stack, and takes its stack and trap context out of the space of
  the process; the other tasks go on. The thread id is free at once and not when the zombie is
  collected: unless a smaller id is free, it is the next one handed out, so that a new thread
  replaces the zombie in the list of tasks.
\<close>

theorem thread_exit_outcome:
  assumes thread: "thread_task K st R Rk s t tb pb tid"
  shows "\<exists>s' pb'. exit_current_and_run_other_task K code s = (Ok (), s') \<and>
    k_current s' = None \<and> k_ready s' = k_ready s \<and> k_tasks s' = (k_tasks s)(t \<mapsto> ended (scast code) tb) \<and>
    k_procs s' = (k_procs s)(tb_process tb \<mapsto> pb') \<and> pb_tasks pb' = pb_tasks pb \<and>
    area_set (pb_space pb') = bt_remove (get_user_task_stack_vpn_range K (pb_base_size pb) tid)
      (bt_remove (get_task_trap_ctx_vpn_range K tid) (area_set (pb_space pb))) \<and>
    spaces_ok K st R Rk (pb_space pb') (k_kernel_space s') (k_machine s') \<and>
    id_owned (pb_tid_allocator pb') = id_owned (pb_tid_allocator pb) - {tid} \<and>
    ((\<forall>i \<in> ids_recycled (pb_tid_allocator pb). tid < i) \<longrightarrow>
       fst (auto_id_alloc (pb_tid_allocator pb')) = Ok \<lparr>tracker_id = tid\<rparr>)"
proof -
  note th = thread [unfolded thread_task_def]
  let ?tr = "\<lparr>tracker_id = tid\<rparr>" let ?code = "scast code :: usize" let ?s0 = "leaving t s"
  have count: "task_strong_count ?s0 t = 2"
    using th by (simp add: task_strong_count_def count_no_timers cong: option.case_cong)
  obtain sp m where d: "resource_dealloc K tid (pb_base_size pb) (pb_space pb, k_machine s) = (Ok (), (sp, m))"
    "spaces_ok K st R Rk sp (k_kernel_space s) m"
    "area_set sp = bt_remove (get_user_task_stack_vpn_range K (pb_base_size pb) tid)
      (bt_remove (get_task_trap_ctx_vpn_range K tid) (area_set (pb_space pb)))"
    by (rule resource_dealloc_mapped [of K st R Rk "pb_space pb" "k_kernel_space s" "k_machine s" "pb_base_size pb" tid])
      (use th in auto)
  obtain a where a: "id_tracker_drop True ?tr (pb_tid_allocator pb) = (Ok (), a)"
    "id_owned a = id_owned (pb_tid_allocator pb) - {tid}"
    by (rule id_tracker_drop_owned [of "pb_tid_allocator pb" ?tr]) (use th in auto)
  let ?s1 = "released t tb pb ?code sp m a ?s0" let ?pb1 = "pb\<lparr>pb_space := sp, pb_tid_allocator := a\<rparr>"
  have "release_user_resource K t ?code ?s0 = (Ok (), ?s1)"
    by (rule release_ok [where tr = ?tr]) (use th d(1) a(1) in simp_all)
  then have mark: "task_mark_zombie K code t ?s0 = (Ok (), ?s1)"
    using th by (simp add: task_mark_zombie_def get_task_def kbind_def task_tid_def klift_def)
  let ?s2 = "?s1\<lparr>k_held := (k_held ?s1)(t := 0)\<rparr>"
  have "unhold_task K t ?s1 = (Ok (), ?s2)"
    using th by (simp add: unhold_task_def task_release_def task_strong_count_def)
  then have "exit_current_and_run_other_task K code s = (Ok (), ?s2)"
    using th count mark by (simp add: exit_runs kbind_def kassert_def)
  moreover have "fst (auto_id_alloc a) = Ok ?tr" if "\<forall>i \<in> ids_recycled (pb_tid_allocator pb). tid < i"
  proof -
    have "ids_recycled a = insert tid (ids_recycled (pb_tid_allocator pb))"
      using a(1) by (auto simp: id_tracker_drop_def id_dealloc_def kunwrap_def split: if_splits)
    moreover from this have "Min (ids_recycled a) = tid" using that by (intro Min_eqI) (auto simp: less_imp_le)
    ultimately show ?thesis by (simp add: auto_id_alloc_def id_alloc_def pop_first_def kbind_def)
  qed
  ultimately show ?thesis
    using d(2,3) a(2) by (intro exI [of _ ?s2] exI [of _ ?pb1]) simp
qed

section \<open>A concrete process\<close>

text \<open>The pages of the tasks 0 and 1 of a process whose image is empty, and of the first kernel stack.\<close>

lemma sample_ranges:
  "get_user_task_stack_vpn_range rust_crates 0 0 = (1, 9)" "get_user_task_stack_vpn_range rust_crates 0 1 = (10, 18)"
  "get_task_trap_ctx_vpn_range rust_crates 0 = (0x7FFFFFE, 0x7FFFFFF)"
  "get_task_trap_ctx_vpn_range rust_crates 1 = (0x7FFFFFD, 0x7FFFFFE)"
  "get_kernel_task_stack_vpn_range rust_crates 0 = (0x7FFFFFD, 0x7FFFFFF)"
  by code_simp+

lemma sample_spaces:
  obtains spu spk m where "spaces_ok rust_crates 16 {} {} spu spk m" and "task_mapped rust_crates 0 0 spu"
    and "task_mapped rust_crates 0 1 spu" and "bt_get (area_set spk) (get_kernel_task_stack_vpn_range rust_crates 0) \<noteq> None"
    and "pt_trackers (space_page_table spu) 1 \<noteq> None"
proof -
  obtain spk m where k: "new_bare rust_crates 1 (sample_machine 128) = (Ok spk, m)" "space_inv rust_crates 16 {} (spk, m)"
    "ranges_of spk = {}" by (rule sample_space [of 128]) simp_all
  have lk: "111 \<le> frames_left m" using new_bare_left [OF k(1)] by (simp add: frames_left_def sample_machine_def)
  then obtain spu m0 where u: "new_bare rust_crates 2 m = (Ok spu, m0)"
    using new_bare_runs [OF rust_crates_ok, of m 2] by auto
  have l0: "110 \<le> frames_left m0" using new_bare_left [OF u] lk by simp
  note pair = new_bare_second [OF rust_crates_ok k(2) u]
  have e: "areas_of spk = framed_areas []" "areas_of spu = framed_areas []"
    using k(3) pair(2) by (simp_all add: framed_areas_def ranges_of_def areas_of_def)
  obtain spk1 m1 where 1: "spaces_ok rust_crates 16 {} {} spk1 spu m1" "areas_of spk1 = framed_areas [(0x7FFFFFD, 0x7FFFFFF)]"
    "104 \<le> frames_left m1"
    by (rule pair_add [OF spaces_ok_sym [OF pair(1)] e(1), where b = "0x7FFFFFD" and e = "0x7FFFFFF"]) (use l0 in simp_all)
  obtain spu2 m2 where 2: "spaces_ok rust_crates 16 {} {} spu2 spk1 m2" "areas_of spu2 = framed_areas [(1, 9)]" "80 \<le> frames_left m2"
    by (rule pair_add [OF spaces_ok_sym [OF 1(1)] e(2), where b = "1" and e = "9"]) (use 1(3) in simp_all)
  obtain spu3 m3 where 3: "spaces_ok rust_crates 16 {} {} spu3 spk1 m3" "areas_of spu3 = framed_areas [(10, 18), (1, 9)]"
    "56 \<le> frames_left m3"
    by (rule pair_add [OF 2(1,2), where b = "10" and e = "18"]) (use 2(3) in simp_all)
  obtain spu4 m4 where 4: "spaces_ok rust_crates 16 {} {} spu4 spk1 m4"
    "areas_of spu4 = framed_areas [(0x7FFFFFE, 0x7FFFFFF), (10, 18), (1, 9)]" "53 \<le> frames_left m4"
    by (rule pair_add [OF 3(1,2), where b = "0x7FFFFFE" and e = "0x7FFFFFF"]) (use 3(3) in simp_all)
  obtain spu5 m5 where 5: "spaces_ok rust_crates 16 {} {} spu5 spk1 m5"
    "areas_of spu5 = framed_areas [(0x7FFFFFD, 0x7FFFFFE), (0x7FFFFFE, 0x7FFFFFF), (10, 18), (1, 9)]"
    by (rule pair_add [OF 4(1,2), where b = "0x7FFFFFD" and e = "0x7FFFFFE"]) (use 4(3) in simp_all)
  have inv: "space_inv rust_crates 16 {} (spu5, m5)" "space_inv rust_crates 16 {} (spk1, m5)"
    using 5(1) by (simp_all add: spaces_ok_def)
  have "area_ok rust_crates (page_range_allocator spu5, space_page_table spu5, m5) (area_of 1 9 6 Framed)"
    using inv(1) 5(2) unfolding space_inv_def areas_inv_def by (simp add: framed_areas_def)
  then have "pt_trackers (space_page_table spu5) 1 \<noteq> None"
    by (auto simp: area_ok_def area_pages_def area_of_def page_mapped_def)
  then show thesis
    using area_listed [OF inv(1) 5(2)] area_listed [OF inv(2) 1(2)]
    by (intro that [OF 5(1)]) (simp_all add: task_mapped_def sample_ranges)
qed

text \<open>
  Task 1 is the root task and task 2, if it is there, a thread that waits for something; \<open>c\<close> is
  the task that runs.
\<close>

definition sample_ids_used :: btree_id_allocator where
  "sample_ids_used = (id_allocator_new 8)\<lparr>current_id := 2\<rparr>"

definition sample_thread :: "usize \<Rightarrow> task_block" where
  "sample_thread i = sample_task\<lparr>tb_kernel_stack := \<lparr>tracker_id = i\<rparr>, tb_user_resource := Some \<lparr>tracker_id = i\<rparr>\<rparr>"

definition sample_threads_of :: "(usize \<times> task_ref) list \<Rightarrow> space \<Rightarrow> (usize \<Rightarrow> u32 \<times> usize) process_block" where
  "sample_threads_of l spu = (process_inner_new sample_signals \<lparr>tracker_id = 3\<rparr> ''init'' spu 0 0 [])
     \<lparr>pb_tasks := l, pb_tid_allocator := sample_ids_used\<rparr>"

definition sample_threads ::
    "(usize \<times> task_ref) list \<Rightarrow> task_ref \<Rightarrow> space \<Rightarrow> space \<Rightarrow> machine \<Rightarrow> (usize \<Rightarrow> u32 \<times> usize, nat, unit) os_kernel" where
  "sample_threads l c spu spk m = (kernel_new spk () m)
     \<lparr>k_tasks := [1 \<mapsto> sample_thread 0, 2 \<mapsto> sample_thread 1], k_procs := [0 \<mapsto> sample_threads_of l spu],
      k_kernel_stacks := sample_ids_used, k_processor := processor_new\<lparr>pr_current := Some c\<rparr>\<rparr>"

lemmas sample_threads_defs = sample_threads_def sample_threads_of_def sample_thread_def sample_ids_used_def sample_task_def
  kernel_new_def process_inner_new_def processor_new_def task_scheduler_new_def id_allocator_new_def id_inv_def id_owned_def ROOT_TID_def

theorem process_exit_outcome_witness:
  "\<exists>spu spk m s'. sole_task rust_crates 16 {} {} (sample_threads [(0, 1)] 1 spu spk m) 1 (sample_thread 0) (sample_threads_of [(0, 1)] spu) \<and>
     exit_current_and_run_other_task rust_crates 7 (sample_threads [(0, 1)] 1 spu spk m) = (Ok (), s')"
proof -
  obtain spu spk m where sp: "spaces_ok rust_crates 16 {} {} spu spk m" "task_mapped rust_crates 0 0 spu"
    "bt_get (area_set spk) (get_kernel_task_stack_vpn_range rust_crates 0) \<noteq> None" by (rule sample_spaces)
  have "sole_task rust_crates 16 {} {} (sample_threads [(0, 1)] 1 spu spk m) 1 (sample_thread 0) (sample_threads_of [(0, 1)] spu)"
    using sp by (simp add: sole_task_def sample_threads_defs)
  with process_exit_outcome [OF this, of 7] show ?thesis by blast
qed

theorem thread_exit_outcome_witness:
  "\<exists>spu spk m s'. thread_task rust_crates 16 {} {} (sample_threads [(0, 1), (1, 2)] 2 spu spk m) 2 (sample_thread 1)
       (sample_threads_of [(0, 1), (1, 2)] spu) 1 \<and>
     exit_current_and_run_other_task rust_crates 7 (sample_threads [(0, 1), (1, 2)] 2 spu spk m) = (Ok (), s')"
proof -
  obtain spu spk m where sp: "spaces_ok rust_crates 16 {} {} spu spk m" "task_mapped rust_crates 0 1 spu" by (rule sample_spaces)
  have "thread_task rust_crates 16 {} {} (sample_threads [(0, 1), (1, 2)] 2 spu spk m) 2 (sample_thread 1)
      (sample_threads_of [(0, 1), (1, 2)] spu) 1"
    using sp by (simp add: thread_task_def sample_threads_defs)
  with thread_exit_outcome [OF this, of 7] show ?thesis by blast
qed


end
