(* ===== verification/Wait_Properties.thy ===== *)
theory Wait_Properties
  imports Process_Properties Area_Data User_Memory
begin

text \<open>
  The end of a process: its parent collects the exit code, and everything the process still owned
  goes back, its page table included.
\<close>

section \<open>Dropping a page table\<close>

lemma drop_frames:
  assumes "frame_inv st (frame_allocator m)" and "distinct l" and "set l \<subseteq> owned_frames st m"
  shows "\<exists>m'. kfor l tracker_drop m = (Ok (), m') \<and> frame_inv st (frame_allocator m') \<and>
    owned_frames st m' = owned_frames st m - set l \<and> mem m' = mem m \<and> end_ppn (frame_allocator m') = end_ppn (frame_allocator m)"
  using assms
proof (induction l arbitrary: m)
  case (Cons p l)
  obtain m1 where m1: "tracker_drop p m = (Ok (), m1)" "frame_inv st (frame_allocator m1)"
    "owned_frames st m1 = owned_frames st m - {p}" "mem m1 = mem m" "end_ppn (frame_allocator m1) = end_ppn (frame_allocator m)"
    by (rule tracker_drop_owned [OF Cons.prems(1), of p]) (use Cons.prems(3) in auto)
  have "set l \<subseteq> owned_frames st m1" using Cons.prems(2,3) m1(3) by auto
  from Cons.IH [OF m1(2) _ this] Cons.prems(2) m1 show ?case by (auto simp: kbind_def)
qed simp

lemma kfor_map: "kfor xs (\<lambda>x. f (g x)) = kfor (map g xs) f"
  by (induction xs) simp_all

lemma page_table_drop_frees:
  assumes inv: "pt_inv K st (t, m)"
  shows "\<exists>m'. page_table_drop t m = (Ok (), m') \<and> frame_inv st (frame_allocator m') \<and>
    owned_frames st m' = owned_frames st m - table_frames t \<and> mem m' = mem m \<and>
    end_ppn (frame_allocator m') = end_ppn (frame_allocator m)"
proof -
  let ?ms = "sorted_list_of_set (dom (pt_mappers t))" and ?vs = "sorted_list_of_set (dom (pt_trackers t))"
  let ?l = "root_ppn t # ?ms @ map (\<lambda>v. the (pt_trackers t v)) ?vs"
  have ok: "mappers_ok t (mem m)" and fr: "frames_ok st t m" and tree: "par_of t (root_ppn t) = None"
    using inv by (auto simp: pt_inv_def tree_def)
  have track: "pm_tracker (the (pt_mappers t p)) = p" if "p \<in> dom (pt_mappers t)" for p
    using ok that by (auto simp: mappers_ok_def)
  have root: "root_ppn t \<notin> dom (pt_mappers t)"
    using tree ok by (fastforce simp: par_of_def mappers_ok_def)
  have "map (\<lambda>p. pm_tracker (the (pt_mappers t p))) ?ms = ?ms" using track by (intro map_idI) simp
  then have "page_table_drop t = kfor ?l tracker_drop"
    unfolding page_table_drop_def kfor_map [where g = "\<lambda>p. pm_tracker (the (pt_mappers t p))"]
      kfor_map [where g = "\<lambda>v. the (pt_trackers t v)"] by (simp add: kfor_append)
  moreover have vs: "set (map (\<lambda>v. the (pt_trackers t v)) ?vs) = ran (pt_trackers t)"
    by (force simp: ran_def dom_def image_iff)
  moreover have "distinct (map (\<lambda>v. the (pt_trackers t v)) ?vs)"
    using fr by (auto simp: distinct_map frames_ok_def inj_on_def dom_def)
  then have "distinct ?l" using fr root vs by (auto simp: frames_ok_def pt_nodes_def)
  moreover have l: "set ?l = table_frames t" using vs by (auto simp: table_frames_def pt_nodes_def)
  ultimately show ?thesis
    using drop_frames [of st m ?l] fr by (auto simp: frames_ok_def table_frames_def)
qed

lemma space_kept:
  assumes inv: "space_inv K st R (sp, m)" and fr: "frame_inv st (frame_allocator m')"
    "end_ppn (frame_allocator m') = end_ppn (frame_allocator m)"
    and own: "table_frames (space_page_table sp) \<subseteq> owned_frames st m'"
    and same: "\<And>p. p \<in> pt_nodes (space_page_table sp) \<Longrightarrow> mem m' p = mem m p"
  shows "space_inv K st R (sp, m')"
proof -
  let ?t = "space_page_table sp"
  have "frames_ok st ?t m'" using space_pt [OF inv] fr own by (auto simp: pt_inv_def frames_ok_def table_frames_def)
  from machine_change_inv [OF space_pt [OF inv] same this] show ?thesis
    using space_inv_view [OF inv] vpn_view_cong by blast
qed

lemma pair_dropped:
  assumes ok: "spaces_ok K st R R' sp sp' m"
  obtains sp1 m1 where "space_drop K (sp, m) = (Ok (), (sp1, m1))" and "space_inv K st R' (sp', m1)"
    and "keeps_frames (space_page_table sp') m m1"
    and "owned_frames st m1 = owned_frames st m - table_frames (space_page_table sp)"
proof -
  have inv: "space_inv K st R (sp, m)" using ok by (simp add: spaces_ok_def)
  let ?t = "space_page_table sp"
  obtain sp1 m1 where r: "recycle_data_pages K (sp, m) = (Ok (), (sp1, m1))" "space_inv K st R (sp1, m1)"
    "unmapped_in K st (pr_used (page_range_allocator sp)) (pt_of (sp, m)) (pt_of (sp1, m1))"
    "pt_trackers (space_page_table sp1) = Map.empty" "others st (space_page_table sp1, m1) = others st (?t, m) - ran (pt_trackers ?t)"
    by (rule recycle_spec [OF inv])
  have u: "spaces_ok K st R R' sp1 sp' m1" "keeps_frames (space_page_table sp') m m1"
    using spaces_unmapped [OF ok _ r(2), of "pr_used (page_range_allocator sp)"] r(3) by simp_all
  obtain m2 where m2: "page_table_drop (space_page_table sp1) m1 = (Ok (), m2)" "frame_inv st (frame_allocator m2)"
    "owned_frames st m2 = owned_frames st m1 - table_frames (space_page_table sp1)" "mem m2 = mem m1"
    "end_ppn (frame_allocator m2) = end_ppn (frame_allocator m1)"
    using page_table_drop_frees [OF space_pt [OF r(2)]] by blast
  have tf: "table_frames (space_page_table sp1) = pt_nodes (space_page_table sp1)" using r(4) by (simp add: table_frames_def)
  then have left: "owned_frames st m2 = others st (space_page_table sp1, m1)" unfolding m2(3) by (simp add: others_def)
  have "owned_frames st m2 = others st (?t, m) - ran (pt_trackers ?t)" using left r(5) by (rule trans)
  then have "owned_frames st m2 = owned_frames st m - table_frames ?t"
    unfolding others_def table_frames_def split_conv by blast
  moreover have "table_frames (space_page_table sp') \<subseteq> owned_frames st m2"
    using u(1) unfolding left spaces_ok_def separate_def by blast
  then have "space_inv K st R' (sp', m2)"
    by (rule space_kept [rotated 3, where m = m1]) (use u(1) m2(2,4,5) in \<open>simp_all add: spaces_ok_def\<close>)
  moreover have "space_drop K (sp, m) = (Ok (), (sp1, m2))"
    using r(1) m2(1) by (simp add: space_drop_def kbind_def)
  moreover have "keeps_frames (space_page_table sp') m m2" using u(2) m2(4) by (simp add: keeps_frames_def)
  ultimately show ?thesis by (rule_tac that)
qed

section \<open>Writing to user memory\<close>

text \<open>A user address is translated through the frames of the space, so a write stays in them.\<close>

lemma translated_refmut_frame:
  assumes inv: "space_inv K st R (sp, m)" and tr: "translated_refmut K ptr n sp = Ok pa"
  shows "frame_of pa \<in> ran (pt_trackers (space_page_table sp))"
proof -
  let ?t = "space_page_table sp" let ?o = "get_va_offset K ptr"
  have K: "crates_ok K" using inv by (simp add: space_inv_def areas_inv_def vm_inv_def)
  obtain f where f: "pt_trackers ?t (vpn_floor K ptr) = Some f" "pa = frame_pa f + ?o"
    using tr by (auto simp: translated_refmut_def pt_as_kernel_mut_def get_tracker_with_def frame_as_kernel_mut_def
        split: option.splits if_splits)
  have in_ran: "f \<in> ran (pt_trackers ?t)" using f(1) by (auto simp: ran_def)
  then have "f < end_ppn (frame_allocator m)" "end_ppn (frame_allocator m) \<le> 2 ^ 44"
    using space_pt [OF inv] by (auto simp: pt_inv_def frames_ok_def frame_inv_def frame_owned_def)
  then have nf: "unat f < 2 ^ 44" by (simp add: word_less_nat_alt word_le_nat_alt)
  have o: "unat ?o < 4096" using unat_va_offset [OF K, of ptr] by simp
  then have "unat pa = unat f * 4096 + unat ?o"
    using nf unfolding f(2) frame_pa_def MEMORY_PAGE_BYTE_SIZE_def by (simp add: unat_word_ariths)
  then have "unat (frame_of pa) = unat f"
    using o by (simp add: frame_of_def MEMORY_PAGE_BYTE_SIZE_def unat_div_distrib)
  then have "frame_of pa = f" by (simp add: word_unat_eq_iff)
  then show ?thesis using in_ran by simp
qed

lemma spaces_ok_write:
  assumes ok: "spaces_ok K st R R' sp sp' m" and q: "q \<in> ran (pt_trackers (space_page_table sp))"
  shows "spaces_ok K st R R' sp sp' (m\<lparr>mem := frame_write q i bs (mem m)\<rparr>)"
proof -
  let ?m = "m\<lparr>mem := frame_write q i bs (mem m)\<rparr>"
  have inv: "space_inv K st R (sp, m)" "space_inv K st R' (sp', m)"
    and sep: "separate st m (space_page_table sp) (space_page_table sp')" using ok by (simp_all add: spaces_ok_def)
  have fr: "frames_ok st (space_page_table sp) m" "frames_ok st (space_page_table sp') m"
    using space_pt [OF inv(1)] space_pt [OF inv(2)] by (simp_all add: pt_inv_def)
  have "q \<notin> pt_nodes (space_page_table sp)" using fr(1) q by (auto simp: frames_ok_def)
  then have "space_inv K st R (sp, ?m)"
    by (intro space_kept [OF inv(1)]) (use fr(1) in \<open>auto simp: frames_ok_def table_frames_def intro: frame_write_other_frame\<close>)
  moreover have "q \<notin> pt_nodes (space_page_table sp')" using sep q by (auto simp: separate_def table_frames_def)
  then have "space_inv K st R' (sp', ?m)"
    by (intro space_kept [OF inv(2)]) (use fr(2) in \<open>auto simp: frames_ok_def table_frames_def intro: frame_write_other_frame\<close>)
  ultimately show ?thesis using sep by (simp add: spaces_ok_def separate_def others_def)
qed

section \<open>Collecting a process\<close>

text \<open>The loop over the children comes to the one that is waited for.\<close>

lemma wait_loop_finds:
  assumes p: "k_procs s p = Some pb" and c: "bt_get (pb_childrens pb) pid = Some c" "k_procs s c = Some cb" "process_is_zombie s cb"
    and "pid \<noteq> -1" and "pid \<in> set l" and "\<forall>i \<in> set l. \<exists>d. bt_get (pb_childrens pb) i = Some d \<and> k_procs s d \<noteq> None"
  shows "wait_pid_loop K p pid ptr l s = collect_process K p ptr pid c s"
  using assms(6,7)
proof (induction l)
  case (Cons i l)
  then obtain d db where d: "bt_get (pb_childrens pb) i = Some d" "k_procs s d = Some db" by auto
  show ?case
  proof (cases "i = pid")
    case True
    then show ?thesis using p c by (simp add: get_proc_def kopt_def kbind_def)
  next
    case False
    then show ?thesis using Cons p d assms(5) by (simp add: get_proc_def kopt_def kbind_def)
  qed
qed simp

lemma process_release_last:
  assumes "k_procs s c = Some cb" and "proc_strong_count s c = 0" and "pb_childrens cb = []" and "pb_tasks cb = []"
    and "id_tracker_drop True (pb_tracker cb) (k_pids s) = (Ok (), a)" and "space_drop K (pb_space cb, k_machine s) = (Ok (), (sp, m))"
  shows "process_release K c s = (Ok (), s\<lparr>k_procs := (k_procs s)(c := None), k_pids := a, k_machine := m\<rparr>)"
  using assms by (simp add: process_release_def kbind_def on_pids_def drop_space_def in_machine_def)

text \<open>
  A child that has exited, without tasks and children, with an exit code, and with its parent as
  the only holder of a reference.
\<close>

definition collectable ::
    "crates \<Rightarrow> usize \<Rightarrow> usize set \<Rightarrow> usize set \<Rightarrow> ('tab, 'z) kernel_scheme \<Rightarrow> proc_ref \<Rightarrow> 'tab process_block \<Rightarrow> usize \<Rightarrow>
     proc_ref \<Rightarrow> 'tab process_block \<Rightarrow> usize \<Rightarrow> bool" where
  "collectable K st R Rc s p pb pid c cb code \<longleftrightarrow>
     k_procs s p = Some pb \<and> k_procs s c = Some cb \<and> c \<noteq> p \<and> pid \<noteq> -1 \<and>
     bt_get (pb_childrens pb) pid = Some c \<and> c \<notin> snd ` set (bt_remove pid (pb_childrens pb)) \<and>
     (\<forall>(i, d) \<in> set (pb_childrens pb). bt_get (pb_childrens pb) i = Some d \<and> k_procs s d \<noteq> None) \<and>
     pb_tasks cb = [] \<and> pb_childrens cb = [] \<and> pb_exit_code cb = Some code \<and>
     pb_parent cb = Some p \<and> k_init s \<noteq> Some c \<and> k_proc_held s c = 0 \<and>
     id_inv (k_pids s) \<and> tracker_id (pb_tracker cb) \<in> id_owned (k_pids s) \<and>
     spaces_ok K st R Rc (pb_space pb) (pb_space cb) (k_machine s)"

text \<open>
  C7. Waiting for a child that has exited collects it: the call returns its process id, the exit
  code lies in the memory of the parent at the address given, the child is gone from the kernel
  and from the list of children, its process id is free again, and exactly the frames of its page
  table are given back; the space of the parent stays well formed.
\<close>

theorem wait_pid_collects:
  assumes child: "collectable K st R Rc s p pb pid c cb code"
    and ptr: "translated_refmut K ptr 4 (pb_space pb) = Ok pa"
  shows "\<exists>s'. wait_pid K p pid ptr s = (Ok pid, s') \<and>
    k_procs s' = (k_procs s)(p \<mapsto> pb\<lparr>pb_childrens := bt_remove pid (pb_childrens pb)\<rparr>, c := None) \<and>
    (\<forall>i < 4. frame_byte (mem (k_machine s')) (frame_of pa) (unat (pa mod MEMORY_PAGE_BYTE_SIZE) + i) =
       le_bytes 4 (ucast code :: i32) ! i) \<and>
    id_owned (k_pids s') = id_owned (k_pids s) - {tracker_id (pb_tracker cb)} \<and>
    owned_frames st (k_machine s') = owned_frames st (k_machine s) - table_frames (space_page_table (pb_space cb)) \<and>
    space_inv K st R (pb_space pb, k_machine s')"
proof -
  note ch = child [unfolded collectable_def]
  let ?pb = "pb\<lparr>pb_childrens := bt_remove pid (pb_childrens pb)\<rparr>"
  let ?bytes = "le_bytes 4 (ucast code :: i32)" let ?o = "unat (pa mod MEMORY_PAGE_BYTE_SIZE)"
  let ?m1 = "(k_machine s)\<lparr>mem := frame_write (frame_of pa) ?o ?bytes (mem (k_machine s))\<rparr>"
  let ?s1 = "s\<lparr>k_procs := (k_procs s)(p \<mapsto> ?pb)\<rparr>" let ?s2 = "?s1\<lparr>k_machine := ?m1\<rparr>"
  have inv: "space_inv K st R (pb_space pb, k_machine s)" using ch by (simp add: spaces_ok_def)
  have q: "frame_of pa \<in> ran (pt_trackers (space_page_table (pb_space pb)))" by (rule translated_refmut_frame [OF inv ptr])
  then have "spaces_ok K st R Rc (pb_space pb) (pb_space cb) ?m1" using ch spaces_ok_write by blast
  then obtain sp m2 where d: "space_drop K (pb_space cb, ?m1) = (Ok (), (sp, m2))" "space_inv K st R (pb_space pb, m2)"
    "keeps_frames (space_page_table (pb_space pb)) ?m1 m2"
    "owned_frames st m2 = owned_frames st ?m1 - table_frames (space_page_table (pb_space cb))"
    using pair_dropped [OF spaces_ok_sym] by blast
  obtain a where a: "id_tracker_drop True (pb_tracker cb) (k_pids s) = (Ok (), a)"
    "id_owned a = id_owned (k_pids s) - {tracker_id (pb_tracker cb)}"
    by (rule id_tracker_drop_owned [of "k_pids s" "pb_tracker cb"]) (use ch in auto)
  have none: "count_list (map snd (bt_remove pid (pb_childrens pb))) c = 0" using ch by (simp add: count_list_0_iff)
  then have count: "proc_strong_count ?s1 c = 0" "proc_strong_count ?s2 c = 0" using ch by (simp_all add: proc_strong_count_def)
  let ?s3 = "?s2\<lparr>k_procs := (k_procs ?s2)(c := None), k_pids := a, k_machine := m2\<rparr>"
  have release: "process_release K c ?s2 = (Ok (), ?s3)"
    by (rule process_release_last [where cb = cb and sp = sp]) (use ch a(1) d(1) count(2) in simp_all)
  have store: "on_space p (store_user K ptr ?bytes) ?s1 = (Ok (), ?s2)"
    using ptr by (simp add: on_space_def store_user_def le_bytes_def)
  have "collect_process K p ptr pid c s = (Ok pid, ?s3)"
    using ch count(1) store release
    by (simp add: collect_process_def kbind_def on_process_def kassert_def get_proc_def kopt_def on_error_def)
  moreover have "wait_pid K p pid ptr s = collect_process K p ptr pid c s"
  proof -
    have l: "pid \<in> set (map fst (pb_childrens pb))" using ch by (force simp: bt_get_def dest: map_of_SomeD)
    have "wait_pid_loop K p pid ptr (map fst (pb_childrens pb)) s = collect_process K p ptr pid c s"
      by (rule wait_loop_finds [OF _ _ _ _ _ l]) (use ch in \<open>force simp: process_is_zombie_def\<close>)+
    then show ?thesis using ch l by (auto simp: wait_pid_def get_proc_def kbind_def)
  qed
  moreover have "frame_byte (mem m2) (frame_of pa) (?o + i) = ?bytes ! i" if "i < 4" for i
  proof -
    have "mem m2 (frame_of pa) = mem ?m1 (frame_of pa)" using d(3) q by (simp add: keeps_frames_def table_frames_def)
    then have "frame_byte (mem m2) (frame_of pa) (?o + i) = frame_byte (mem ?m1) (frame_of pa) (?o + i)"
      by (simp only: frame_byte_def)
    then show ?thesis using that by (simp add: frame_write_byte le_bytes_def)
  qed
  ultimately show ?thesis using a(2) d(2,4) by (intro exI [of _ ?s3]) simp
qed

text \<open>Process 0 with an exited child, process 1, whose id is 5.\<close>

definition sample_child :: "space \<Rightarrow> (usize \<Rightarrow> u32 \<times> usize) process_block" where
  "sample_child sp = (process_inner_new sample_signals \<lparr>tracker_id = 5\<rparr> ''child'' sp 0 0 [])\<lparr>pb_parent := Some 0, pb_exit_code := Some 7\<rparr>"

definition sample_parent :: "space \<Rightarrow> (usize \<Rightarrow> u32 \<times> usize) process_block" where
  "sample_parent sp = (sample_threads_of [(0, 1)] sp)\<lparr>pb_childrens := [(5, 1)]\<rparr>"

definition sample_family :: "space \<Rightarrow> space \<Rightarrow> machine \<Rightarrow> (usize \<Rightarrow> u32 \<times> usize, nat, unit) os_kernel" where
  "sample_family spu spk m = (sample_threads [(0, 1)] 1 spu spk m)
     \<lparr>k_procs := [0 \<mapsto> sample_parent spu, 1 \<mapsto> sample_child spk], k_pids := (id_allocator_new 8)\<lparr>current_id := 6\<rparr>\<rparr>"

theorem wait_pid_collects_witness:
  "\<exists>spu spk m s'. spaces_ok rust_crates 16 {} {} spu spk m \<and>
     wait_pid rust_crates 0 5 4096 (sample_family spu spk m) = (Ok 5, s') \<and> k_procs s' 1 = None"
proof -
  obtain spu spk m where sp: "spaces_ok rust_crates 16 {} {} spu spk m" "pt_trackers (space_page_table spu) 1 \<noteq> None"
    by (rule sample_spaces)
  have "collectable rust_crates 16 {} {} (sample_family spu spk m) 0 (sample_parent spu) 5 1 (sample_child spk) 7"
    using sp(1) by (simp add: collectable_def sample_family_def sample_parent_def sample_child_def sample_threads_defs bt_get_def bt_remove_def)
  moreover have "vpn_floor rust_crates 4096 = 1" "get_va_offset rust_crates 4096 = 0" by code_simp+
  then obtain pa where "translated_refmut rust_crates 4096 4 (pb_space (sample_parent spu)) = Ok pa"
    using sp(2) by (auto simp: translated_refmut_def pt_as_kernel_mut_def get_tracker_with_def frame_as_kernel_mut_def
        MEMORY_PAGE_BYTE_SIZE_def sample_parent_def sample_threads_of_def process_inner_new_def)
  ultimately obtain s' where w: "wait_pid rust_crates 0 5 4096 (sample_family spu spk m) = (Ok 5, s')"
    "k_procs s' = (k_procs (sample_family spu spk m))(0 \<mapsto> (sample_parent spu)
       \<lparr>pb_childrens := bt_remove 5 (pb_childrens (sample_parent spu))\<rparr>, 1 := None)"
    using wait_pid_collects [of rust_crates 16 "{}" "{}"] by blast
  have "k_procs s' 1 = None" using w(2) by simp
  with w(1) sp(1) show ?thesis by blast
qed

end
