(* ===== verification/Block_Device.thy ===== *)
theory Block_Device
  imports Frame_Supply
begin

text \<open>
  The block device of src/drivers/blocks/virtio_blk.rs: the memory the driver crate asks for
  (\<open>HalImpl\<close>) and the blocks of the file system, each made of several blocks of the device
  (\<open>VirtIOBlock\<close>).

  The driver crate and the device are not part of the repository: the device is a record of the
  two operations the code calls, over a state of its own, and \<open>BLOCK_BYTE_SIZE\<close> of the file
  system crate is an argument. The crate's \<open>PhysAddr\<close> is \<open>usize\<close>.
\<close>

section \<open>Memory for the device\<close>

text \<open>The machine and \<open>QUEUE_FRAMES\<close>, the frames the device holds.\<close>

type_synonym dma_state = "usize list \<times> machine"

definition push_frame :: "usize \<Rightarrow> (dma_state, unit) kop" where
  "push_frame frame = (\<lambda>(frames, m). (Ok (), (frames @ [frame], m)))"

fun dma_alloc_loop :: "usize list \<Rightarrow> usize \<Rightarrow> usize \<Rightarrow> (dma_state, usize) kop" where
  "dma_alloc_loop [] start_ppn start_pa = kret start_pa"
| "dma_alloc_loop (i # is) start_ppn start_pa =
     kbind (kunwrap (on_machine tracker_alloc)) (\<lambda>frame.
     let (start_ppn, start_pa) = if i = 0 then (frame, frame_pa frame) else (start_ppn, start_pa) in
     kbind (kassert (frame = start_ppn + i)) (\<lambda>_.
     kbind (push_frame frame) (\<lambda>_.
     dma_alloc_loop is start_ppn start_pa)))"

definition dma_alloc :: "usize \<Rightarrow> (dma_state, usize) kop" where
  "dma_alloc pages =
     kbind (dma_alloc_loop (map of_nat [0..<unat pages]) 0 0) (\<lambda>start_pa.
     kbind (kassert (start_pa \<noteq> 0)) (\<lambda>_.
     kret start_pa))"

text \<open>The position of the first tracker whose page number is \<open>start_ppn\<close>, 0 without one.\<close>

fun dma_offset :: "usize \<Rightarrow> usize \<Rightarrow> usize list \<Rightarrow> usize" where
  "dma_offset start_ppn index [] = 0"
| "dma_offset start_ppn index (tracker # trackers) =
     (if tracker \<noteq> start_ppn then dma_offset start_ppn (index + 1) trackers else index)"

definition remove_frame :: "usize \<Rightarrow> (dma_state, usize) kop" where
  "remove_frame index = (\<lambda>(frames, m).
     if unat index < length frames
     then (Ok (frames ! unat index), (take (unat index) frames @ drop (Suc (unat index)) frames, m))
     else (Panic, (frames, m)))"

text \<open>
  The tracker is given back, and dropped at the end of the round, which gives it back once more.
\<close>

definition dma_dealloc :: "usize \<Rightarrow> usize \<Rightarrow> (dma_state, usize) kop" where
  "dma_dealloc paddr pages = (\<lambda>(frames, m).
     kbind (kfor (map of_nat [0..<unat pages]) (\<lambda>i.
       kbind (remove_frame (dma_offset paddr 0 frames + i)) (\<lambda>tracker.
       kbind (on_machine (tracker_drop tracker)) (\<lambda>_.
       on_machine (tracker_drop tracker))))) (\<lambda>_.
     kret 0) (frames, m))"

definition mmio_phys_to_virt :: "usize \<Rightarrow> usize outcome" where
  "mmio_phys_to_virt paddr = (if paddr = 0 then Panic else Ok paddr)"

definition share :: "crates \<Rightarrow> usize \<Rightarrow> (space_state, usize) kop" where
  "share K vaddr = kbind (translate_pa K vaddr) kopt"

section \<open>Blocks\<close>

definition VIRTIO_0 :: usize where "VIRTIO_0 = 0x10001000"
definition BLK_BYTE_SIZE :: usize where "BLK_BYTE_SIZE = 512"

definition BLK_GROUP_COUNT :: "usize \<Rightarrow> usize" where
  "BLK_GROUP_COUNT BLOCK_BYTE_SIZE = BLOCK_BYTE_SIZE div BLK_BYTE_SIZE"

text \<open>
  \<open>read_blocks\<close> fills a buffer and \<open>write_blocks\<close> writes one, starting at a block of the
  device; the first component says whether that worked.
\<close>

record 'd blk_device =
  read_blocks :: "usize \<Rightarrow> u8 list \<Rightarrow> 'd \<Rightarrow> bool \<times> u8 list \<times> 'd"
  write_blocks :: "usize \<Rightarrow> u8 list \<Rightarrow> 'd \<Rightarrow> bool \<times> 'd"

definition slice :: "usize \<Rightarrow> usize \<Rightarrow> u8 list \<Rightarrow> u8 list" where
  "slice a b buffer = take (unat b - unat a) (drop (unat a) buffer)"

definition set_slice :: "usize \<Rightarrow> u8 list \<Rightarrow> u8 list \<Rightarrow> u8 list" where
  "set_slice a part buffer = take (unat a) buffer @ part @ drop (unat a + length part) buffer"

definition slice_in :: "usize \<Rightarrow> usize \<Rightarrow> u8 list \<Rightarrow> bool" where
  "slice_in a b buffer \<longleftrightarrow> a \<le> b \<and> unat b \<le> length buffer"

fun read_group :: "'d blk_device \<Rightarrow> usize \<Rightarrow> usize \<Rightarrow> usize list \<Rightarrow> (u8 list \<times> 'd, usize option) kop" where
  "read_group D count block [] s = (Ok None, s)"
| "read_group D count block (i # is) (buffer, d) =
     (let start_offset = i * BLK_BYTE_SIZE; end_offset = start_offset + BLK_BYTE_SIZE in
      if \<not> slice_in start_offset end_offset buffer then (Panic, (buffer, d))
      else case read_blocks D (block * count + i) (slice start_offset end_offset buffer) d of
        (ok, part, d') \<Rightarrow>
          if ok then read_group D count block is (set_slice start_offset part buffer, d')
          else (Ok (Some (-1)), (set_slice start_offset part buffer, d')))"

definition read_block :: "'d blk_device \<Rightarrow> usize \<Rightarrow> usize \<Rightarrow> (u8 list \<times> 'd, usize option) kop" where
  "read_block D BLOCK_BYTE_SIZE block =
     read_group D (BLK_GROUP_COUNT BLOCK_BYTE_SIZE) block (map of_nat [0..<unat (BLK_GROUP_COUNT BLOCK_BYTE_SIZE)])"

fun write_group :: "'d blk_device \<Rightarrow> usize \<Rightarrow> u8 list \<Rightarrow> usize \<Rightarrow> usize list \<Rightarrow> ('d, usize option) kop" where
  "write_group D count buffer block [] d = (Ok None, d)"
| "write_group D count buffer block (i # is) d =
     (let start_offset = i * BLK_BYTE_SIZE; end_offset = start_offset + BLK_BYTE_SIZE in
      if \<not> slice_in start_offset end_offset buffer then (Panic, d)
      else case write_blocks D (block * count + i) (slice start_offset end_offset buffer) d of
        (ok, d') \<Rightarrow>
          if ok then write_group D count buffer block is d' else (Ok (Some (-1)), d'))"

definition write_block :: "'d blk_device \<Rightarrow> usize \<Rightarrow> usize \<Rightarrow> u8 list \<Rightarrow> ('d, usize option) kop" where
  "write_block D BLOCK_BYTE_SIZE block buffer =
     write_group D (BLK_GROUP_COUNT BLOCK_BYTE_SIZE) buffer block (map of_nat [0..<unat (BLK_GROUP_COUNT BLOCK_BYTE_SIZE)])"

section \<open>Memory for the device\<close>

text \<open>
  What an allocation of contiguous frames does to the machine: the frames were free, are now handed
  out and zeroed, and the other frames are as they were.
\<close>

definition frames_taken :: "usize \<Rightarrow> usize list \<Rightarrow> machine \<Rightarrow> machine \<Rightarrow> bool" where
  "frames_taken st ps m m' \<longleftrightarrow>
     distinct ps \<and> set ps \<subseteq> free_frames st m \<and> frame_inv st (frame_allocator m') \<and>
     owned_frames st m' = owned_frames st m \<union> set ps \<and>
     frame_pool st (frame_allocator m') = frame_pool st (frame_allocator m) \<and>
     (\<forall>q. mem m' q = (if q \<in> set ps then (\<lambda>_. 0) else mem m q))"

lemma frames_taken_Nil: "frame_inv st (frame_allocator m) \<Longrightarrow> frames_taken st [] m m"
  by (simp add: frames_taken_def)

lemma frames_taken_Cons:
  assumes "tracker_alloc m = (Ok p, m1)" "frame_inv st (frame_allocator m)" "frames_taken st ps m1 m'"
  shows "frames_taken st (p # ps) m m'"
  using assms(2)
proof (cases rule: tracker_alloc_cases)
  case full
  then show ?thesis using assms(1) by simp
next
  case (fresh q m2)
  then show ?thesis using assms(1,3) by (auto simp: frames_taken_def frame_clear_def)
qed

lemma dma_loop_takes:
  assumes "frame_inv st (frame_allocator m)" and "0 \<notin> set is"
    and "dma_alloc_loop is p pa (frames, m) = (r, (frames', m'))"
  shows "r = Panic \<or> r = Ok pa \<and> frames' = frames @ map ((+) p) is \<and> frames_taken st (map ((+) p) is) m m'"
  using assms
proof (induction "is" arbitrary: frames m)
  case Nil
  then show ?case by (simp add: frames_taken_Nil)
next
  case (Cons i "is")
  from Cons.prems(1) show ?case
  proof (cases rule: tracker_alloc_cases)
    case full
    then show ?thesis using Cons.prems(3) by (simp add: kbind_def kunwrap_def on_machine_def)
  next
    case (fresh q m1)
    then have run: "q \<noteq> p + i \<and> r = Panic \<or> q = p + i \<and> dma_alloc_loop is p pa (frames @ [q], m1) = (r, (frames', m'))"
      using Cons.prems(2,3) by (auto simp: kbind_def kunwrap_def on_machine_def push_frame_def kassert_def split: if_splits)
    then show ?thesis
      using Cons.IH [OF fresh(2), of "frames @ [q]"] Cons.prems(2) frames_taken_Cons [OF fresh(1) Cons.prems(1)] by auto
  qed
qed

text \<open>
  The frames for the device are contiguous: an allocation of pages either ends in a panic or
  returns the address of the first of as many consecutive frames, all of them free before, handed
  out and zeroed now, and recorded in order behind the frames the device holds already.
\<close>

theorem dma_alloc_contiguous:
  assumes "frame_inv st (frame_allocator m)"
  shows "\<exists>r frames' m'. dma_alloc pages (frames, m) = (r, (frames', m')) \<and>
    (r = Panic \<or> (\<exists>p. r = Ok (frame_pa p) \<and> frame_pa p \<noteq> 0 \<and>
       frames' = frames @ map (\<lambda>i. p + of_nat i) [0..<unat pages] \<and>
       frames_taken st (map (\<lambda>i. p + of_nat i) [0..<unat pages]) m m'))"
proof (cases "unat pages")
  case 0
  then show ?thesis by (simp add: dma_alloc_def kbind_def kassert_def)
next
  case (Suc n)
  let ?is = "map of_nat [1..<Suc n] :: usize list"
  have ixs: "map of_nat [0..<unat pages] = (0 :: usize) # ?is" using Suc by (simp add: upt_conv_Cons del: upt_Suc)
  have "of_nat k \<noteq> (0 :: usize)" if "k < Suc n" "0 < k" for k
    using that Suc unsigned_less [of pages, where ?'a = nat] by (simp add: word_of_nat_eq_0_iff nat_dvd_not_less)
  then have nz: "0 \<notin> set ?is" by force
  from assms show ?thesis
  proof (cases rule: tracker_alloc_cases)
    case full
    then show ?thesis by (simp add: dma_alloc_def ixs kbind_def kunwrap_def on_machine_def)
  next
    case (fresh p m1)
    obtain r frames' m' where run: "dma_alloc_loop ?is p (frame_pa p) (frames @ [p], m1) = (r, (frames', m'))"
      by (metis prod.exhaust)
    have first: "dma_alloc pages (frames, m) =
        (kbind (kassert (frame_pa p \<noteq> 0)) (\<lambda>_. kret (frame_pa p)) (frames', m'))" if "r = Ok (frame_pa p)"
      using fresh(1) run that
      by (simp add: dma_alloc_def ixs kbind_def kunwrap_def on_machine_def push_frame_def kassert_def del: upt_Suc)
    have stop: "dma_alloc pages (frames, m) = (Panic, (frames', m'))" if "r = Panic"
      using fresh(1) run that
      by (simp add: dma_alloc_def ixs kbind_def kunwrap_def on_machine_def push_frame_def kassert_def del: upt_Suc)
    have ps: "map (\<lambda>i. p + of_nat i) [0..<unat pages] = p # map ((+) p) ?is"
      using Suc by (simp add: upt_conv_Cons del: upt_Suc)
    consider "r = Panic" | "r = Ok (frame_pa p)" "frames' = frames @ p # map ((+) p) ?is"
        "frames_taken st (p # map ((+) p) ?is) m m'"
      using dma_loop_takes [OF fresh(2) nz run] frames_taken_Cons [OF fresh(1) assms] by force
    then show ?thesis
    proof cases
      case 1
      then show ?thesis using stop by blast
    next
      case 2
      show ?thesis
      proof (cases "frame_pa p = 0")
        case True
        then show ?thesis using first [OF 2(1)] by (simp add: kassert_def kbind_def)
      next
        case False
        then show ?thesis using first [OF 2(1)] 2(2,3) unfolding ps [symmetric] by (auto simp: kassert_def kbind_def)
      qed
    qed
  qed
qed

lemma kbind_panics: "fst (f s) = Panic \<Longrightarrow> fst (kbind f g s) = Panic"
  by (cases "f s") (simp add: kbind_def)

text \<open>
  C40. The device can never give memory back: every release of at least one page ends in a panic,
  because the tracker of a frame is given back explicitly and once more when it is dropped.
\<close>

theorem dma_dealloc_panics:
  assumes "0 < pages"
  shows "fst (dma_dealloc paddr pages (frames, m)) = Panic"
proof -
  have twice: "fst (kbind (on_machine (tracker_drop p)) (\<lambda>_. on_machine (tracker_drop p)) s) = Panic" for p and s :: dma_state
    by (cases s) (simp add: kbind_def on_machine_def tracker_drop_def kunwrap_def frame_dealloc_def split: prod.splits)
  have first: "fst (kbind (remove_frame k) (\<lambda>p. kbind (on_machine (tracker_drop p)) (\<lambda>_. on_machine (tracker_drop p))) s) = Panic"
    for k s
    unfolding kbind_def [of "remove_frame k"] using twice by (cases s) (simp add: remove_frame_def)
  have "0 < unat pages" using assms by (simp add: word_less_nat_alt)
  then obtain n where "[0..<unat pages] = 0 # n" by (metis upt_conv_Cons)
  then show ?thesis
    using first by (simp add: dma_dealloc_def kbind_panics)
qed

theorem dma_dealloc_panics_witness:
  "fst (dma_dealloc 0x10000 1 ([16, 17, 18], sample_machine 32)) = Panic"
  by (rule dma_dealloc_panics) simp

section \<open>Blocks\<close>

text \<open>The device blocks that make up a block of the file system.\<close>

definition block_at :: "usize \<Rightarrow> usize \<Rightarrow> nat \<Rightarrow> usize" where
  "block_at B block i = block * BLK_GROUP_COUNT B + of_nat i"

definition device_blocks :: "usize \<Rightarrow> usize \<Rightarrow> usize set" where
  "device_blocks B block = block_at B block ` {0..<unat (BLK_GROUP_COUNT B)}"

text \<open>
  What the code relies on of a device that works: on the blocks of \<open>S\<close>, reads return what
  the device holds there and writes change that block alone.
\<close>

definition device_ok :: "'d blk_device \<Rightarrow> ('d \<Rightarrow> usize \<Rightarrow> u8 list) \<Rightarrow> usize set \<Rightarrow> bool" where
  "device_ok D content S \<longleftrightarrow>
     (\<forall>d. \<forall>i \<in> S. length (content d i) = 512) \<and>
     (\<forall>d. \<forall>i \<in> S. \<forall>buffer. length buffer = 512 \<longrightarrow> read_blocks D i buffer d = (True, content d i, d)) \<and>
     (\<forall>d. \<forall>i \<in> S. \<forall>buffer. length buffer = 512 \<longrightarrow>
        (\<exists>d'. write_blocks D i buffer d = (True, d') \<and> content d' = (content d)(i := buffer)))"

lemma usize_bound: "unat (x :: usize) < 2 ^ 64"
  using unsigned_less [of x] by simp

lemma offsets:
  fixes B :: usize
  assumes "unat B = 512 * c" and "k < c"
  shows "unat (of_nat k * BLK_BYTE_SIZE) = 512 * k" "unat (of_nat k * BLK_BYTE_SIZE + BLK_BYTE_SIZE) = 512 * k + 512"
    and "(of_nat k * BLK_BYTE_SIZE :: usize) \<le> of_nat k * BLK_BYTE_SIZE + BLK_BYTE_SIZE"
proof -
  have "512 * k + 512 < 2 ^ 64" using assms usize_bound [of B] by simp
  then show "unat (of_nat k * BLK_BYTE_SIZE) = 512 * k" "unat (of_nat k * BLK_BYTE_SIZE + BLK_BYTE_SIZE) = 512 * k + 512"
    by (simp_all add: BLK_BYTE_SIZE_def unat_word_ariths unat_of_nat)
  then show "(of_nat k * BLK_BYTE_SIZE :: usize) \<le> of_nat k * BLK_BYTE_SIZE + BLK_BYTE_SIZE"
    by (simp add: word_le_nat_alt)
qed

lemma group_count: "unat (B :: usize) = 512 * c \<Longrightarrow> unat (BLK_GROUP_COUNT B) = c"
  by (simp add: BLK_GROUP_COUNT_def BLK_BYTE_SIZE_def unat_div_distrib)

lemma slice_chunk:
  fixes B :: usize
  assumes "unat B = 512 * c" "k < c" "length buffer = 512 * c"
  shows "slice_in (of_nat k * BLK_BYTE_SIZE) (of_nat k * BLK_BYTE_SIZE + BLK_BYTE_SIZE) buffer"
    and "slice (of_nat k * BLK_BYTE_SIZE) (of_nat k * BLK_BYTE_SIZE + BLK_BYTE_SIZE) buffer = take 512 (drop (512 * k) buffer)"
    and "length (take 512 (drop (512 * k) buffer)) = 512"
  using offsets [OF assms(1,2)] assms by (simp_all add: slice_in_def slice_def)

lemma concat_chunks:
  "length xs = 512 * c \<Longrightarrow> k \<le> c \<Longrightarrow> concat (map (\<lambda>j. take 512 (drop (512 * j) xs)) [k..<c]) = drop (512 * k) xs"
proof (induction "c - k" arbitrary: k)
  case 0
  then show ?case by simp
next
  case (Suc n)
  then have "concat (map (\<lambda>j. take 512 (drop (512 * j) xs)) [Suc k..<c]) = drop 512 (drop (512 * k) xs)"
    by (simp add: add.commute)
  then show ?case using Suc(2) append_take_drop_id [of 512 "drop (512 * k) xs"]
    by (simp add: upt_conv_Cons del: drop_drop append_take_drop_id)
qed

lemma read_group_all:
  assumes dev: "device_ok D content S" and B: "unat B = 512 * c" and S: "block_at B block ` {k..<c} \<subseteq> S"
    and "length buffer = 512 * c" and "k \<le> c"
  shows "read_group D (BLK_GROUP_COUNT B) block (map of_nat [k..<c]) (buffer, d) =
    (Ok None, (take (512 * k) buffer @ concat (map (\<lambda>j. content d (block_at B block j)) [k..<c]), d))"
  using assms(3-)
proof (induction "c - k" arbitrary: k buffer)
  case 0
  then show ?case by simp
next
  case (Suc n)
  let ?s = "content d (block_at B block k)"
  have k: "k < c" and in_S: "block_at B block k \<in> S" using Suc by (auto simp: block_at_def)
  note ch = slice_chunk [OF B k Suc.prems(2)]
  have rd: "read_blocks D (block * BLK_GROUP_COUNT B + of_nat k) (take 512 (drop (512 * k) buffer)) d = (True, ?s, d)"
    and len: "length ?s = 512"
    using dev in_S ch(3) by (simp_all add: device_ok_def block_at_def)
  let ?b = "set_slice (of_nat k * BLK_BYTE_SIZE) ?s buffer"
  have b: "length ?b = 512 * c" "take (512 * Suc k) ?b = take (512 * k) buffer @ ?s"
    using len k Suc.prems(2) offsets(1) [OF B k] by (simp_all add: set_slice_def)
  have "read_group D (BLK_GROUP_COUNT B) block (map of_nat [Suc k..<c]) (?b, d) =
      (Ok None, (take (512 * Suc k) ?b @ concat (map (\<lambda>j. content d (block_at B block j)) [Suc k..<c]), d))"
    using Suc k b by (intro Suc.hyps) auto
  then show ?case using k b rd ch by (simp add: upt_conv_Cons Let_def)
qed

lemma block_at_inj: "j < c \<Longrightarrow> k < c \<Longrightarrow> unat (B :: usize) = 512 * c \<Longrightarrow> block_at B block j = block_at B block k \<longleftrightarrow> j = k"
  using usize_bound [of B]
  by (auto simp: block_at_def word_of_nat_eq_iff take_bit_nat_eq_self)

lemma write_group_all:
  assumes dev: "device_ok D content S" and B: "unat B = 512 * c" and S: "block_at B block ` {k..<c} \<subseteq> S"
    and len: "length buffer = 512 * c" and "k \<le> c"
  shows "\<exists>d'. write_group D (BLK_GROUP_COUNT B) buffer block (map of_nat [k..<c]) d = (Ok None, d') \<and>
    (\<forall>j \<in> {k..<c}. content d' (block_at B block j) = take 512 (drop (512 * j) buffer)) \<and>
    (\<forall>i. i \<notin> block_at B block ` {k..<c} \<longrightarrow> content d' i = content d i)"
  using assms(3,5)
proof (induction "c - k" arbitrary: k d)
  case 0
  then show ?case by simp
next
  case (Suc n)
  have k: "k < c" and in_S: "block_at B block k \<in> S" using Suc by (auto simp: block_at_def)
  note ch = slice_chunk [OF B k len]
  obtain d1 where d1: "write_blocks D (block * BLK_GROUP_COUNT B + of_nat k) (take 512 (drop (512 * k) buffer)) d = (True, d1)"
    "content d1 = (content d)(block_at B block k := take 512 (drop (512 * k) buffer))"
    using dev in_S ch(3) unfolding device_ok_def block_at_def by blast
  have "block_at B block ` {Suc k..<c} \<subseteq> S" using Suc.prems(1) by auto
  moreover have "n = c - Suc k" "Suc k \<le> c" using Suc.hyps(2) k by simp_all
  ultimately obtain d' where d': "write_group D (BLK_GROUP_COUNT B) buffer block (map of_nat [Suc k..<c]) d1 = (Ok None, d')"
    "\<forall>j \<in> {Suc k..<c}. content d' (block_at B block j) = take 512 (drop (512 * j) buffer)"
    "\<forall>i. i \<notin> block_at B block ` {Suc k..<c} \<longrightarrow> content d' i = content d1 i"
    using Suc.hyps(1) [of "Suc k" d1] by blast
  have "block_at B block k \<notin> block_at B block ` {Suc k..<c}" using block_at_inj [OF k _ B] by force
  then have "content d' (block_at B block k) = take 512 (drop (512 * k) buffer)" using d'(3) d1(2) by simp
  then have all: "\<forall>j \<in> {k..<c}. content d' (block_at B block j) = take 512 (drop (512 * j) buffer)"
    using d'(2) by (auto simp: le_less Suc_le_eq)
  have rest: "\<forall>i. i \<notin> block_at B block ` {k..<c} \<longrightarrow> content d' i = content d i"
    using d'(3) d1(2) k by (auto simp: image_iff)
  have "write_group D (BLK_GROUP_COUNT B) buffer block (map of_nat [k..<c]) d = (Ok None, d')"
    using k d1(1) d'(1) ch by (simp add: upt_conv_Cons Let_def)
  then show ?case using all rest by blast
qed

text \<open>
  C24. A block that was written is read back: on a device that works, writing a block of the file
  system succeeds, reading it into any buffer of that size yields exactly the bytes written, and
  every block that shares no device block with it reads as before.
\<close>

theorem block_write_read:
  assumes dev: "device_ok D content S" and B: "unat (B :: usize) = 512 * c"
    and len: "length bytes = 512 * c" "length buffer = 512 * c" and S: "device_blocks B block \<subseteq> S"
  shows "\<exists>d'. write_block D B block bytes d = (Ok None, d') \<and>
    read_block D B block (buffer, d') = (Ok None, (bytes, d')) \<and>
    (\<forall>block'. device_blocks B block' \<subseteq> S \<and> device_blocks B block' \<inter> device_blocks B block = {} \<longrightarrow>
      (\<exists>old. read_block D B block' (buffer, d) = (Ok None, (old, d)) \<and> read_block D B block' (buffer, d') = (Ok None, (old, d'))))"
proof -
  note c = group_count [OF B]
  have blocks: "device_blocks B b = block_at B b ` {0..<c}" for b by (simp add: device_blocks_def c)
  let ?read = "\<lambda>b d. concat (map (\<lambda>j. content d (block_at B b j)) [0..<c])"
  have read: "read_block D B b (buffer, d) = (Ok None, (?read b d, d))" if "device_blocks B b \<subseteq> S" for b d
    using read_group_all [OF dev B _ len(2), of b 0 d] that by (simp add: read_block_def c blocks)
  obtain d' where d': "write_block D B block bytes d = (Ok None, d')"
    "\<forall>j \<in> {0..<c}. content d' (block_at B block j) = take 512 (drop (512 * j) bytes)"
    "\<forall>i. i \<notin> device_blocks B block \<longrightarrow> content d' i = content d i"
    using write_group_all [OF dev B _ len(1), of block 0 d] S by (auto simp: write_block_def c blocks)
  have "?read block d' = concat (map (\<lambda>j. take 512 (drop (512 * j) bytes)) [0..<c])"
    using d'(2) by (intro arg_cong [of _ _ concat] map_cong) simp_all
  then have "?read block d' = bytes" using concat_chunks [OF len(1), of 0] by simp
  moreover have "?read b d' = ?read b d" if "device_blocks B b \<inter> device_blocks B block = {}" for b
  proof -
    have "content d' (block_at B b j) = content d (block_at B b j)" if "j < c" for j
    proof -
      have "block_at B b j \<in> device_blocks B b" using that by (simp add: blocks)
      then show ?thesis using d'(3) \<open>device_blocks B b \<inter> device_blocks B block = {}\<close> by blast
    qed
    then show ?thesis by (intro arg_cong [of _ _ concat] map_cong) simp_all
  qed
  ultimately show ?thesis using d'(1) read S by (intro exI [of _ d']) simp
qed

text \<open>A device that holds its blocks in a function.\<close>

definition sample_device :: "(usize \<Rightarrow> u8 list) blk_device" where
  "sample_device = \<lparr>read_blocks = (\<lambda>i buffer d. (True, if length (d i) = 512 then d i else replicate 512 0, d)),
     write_blocks = (\<lambda>i buffer d. (True, d(i := buffer)))\<rparr>"

theorem block_write_read_witness:
  "\<exists>d'. write_block sample_device 1024 3 (replicate 1024 7) (\<lambda>_. []) = (Ok None, d') \<and>
     read_block sample_device 1024 3 (replicate 1024 0, d') = (Ok None, (replicate 1024 7, d'))"
proof -
  let ?content = "\<lambda>d i. if length (d i :: u8 list) = 512 then d i else replicate 512 0"
  have "device_ok sample_device ?content UNIV"
    by (auto simp: device_ok_def sample_device_def)
  from block_write_read [OF this, of 1024 2 "replicate 1024 7" "replicate 1024 0" 3 "\<lambda>_. []"] show ?thesis by auto
qed

end
