(* ===== verification/Bitmaps.thy ===== *)
theory Bitmaps
  imports Kernel_Prelude
begin

text \<open>
  The bitmap of src/lang/bitmap.rs. Its line in src/lang/mod.rs is commented out and
  \<open>KernelError\<close> has no \<open>IndexOutOfRange\<close> any more, so no other part of the kernel uses
  it; the error has a type of its own here.
\<close>

section \<open>Operations\<close>

datatype bitmap_error = IndexOutOfRange (oor_index: usize) (oor_start: usize) (oor_end: usize)

definition BLOCK_BIT_SIZE :: usize where "BLOCK_BIT_SIZE = 8"

record bit_map =
  bm_length :: usize
  bm_map :: "u8 list"

definition bm_offset :: "usize \<Rightarrow> usize" where "bm_offset index = index div BLOCK_BIT_SIZE"
definition bm_limit :: "usize \<Rightarrow> usize" where "bm_limit index = index mod BLOCK_BIT_SIZE"

definition block_size :: "bit_map \<Rightarrow> nat" where "block_size bm = length (bm_map bm)"

definition bit_map_new :: "usize \<Rightarrow> bit_map" where
  "bit_map_new len = \<lparr>bm_length = len, bm_map = replicate (unat ((len + (BLOCK_BIT_SIZE - 1)) div 8)) 0\<rparr>"

definition bm_out_of_range :: "usize \<Rightarrow> bit_map \<Rightarrow> bitmap_error" where
  "bm_out_of_range index bm = IndexOutOfRange index 0 (bm_length bm)"

definition get_bit :: "usize \<Rightarrow> bit_map \<Rightarrow> bitmap_error + bool" where
  "get_bit index bm =
     (if index < bm_length bm \<and> unat (bm_offset index) < length (bm_map bm)
      then Inr (0 < (bm_map bm ! unat (bm_offset index) AND push_bit (unat (bm_limit index)) 1))
      else Inl (bm_out_of_range index bm))"

definition set_bit_to :: "usize \<Rightarrow> bool \<Rightarrow> bit_map \<Rightarrow> (bitmap_error + bool) \<times> bit_map" where
  "set_bit_to index value bm =
     (case get_bit index bm of
        Inl e \<Rightarrow> (Inl e, bm)
      | Inr per_value \<Rightarrow>
          if per_value = value then (Inr False, bm)
          else
            let offset = unat (bm_offset index) in
            if offset < length (bm_map bm)
            then
              let old_value = bm_map bm ! offset;
                  new_value = if value then old_value OR push_bit (unat (bm_limit index)) 1
                              else old_value AND (255 - push_bit (unat (bm_limit index)) 1)
              in (Inr True, bm\<lparr>bm_map := (bm_map bm)[offset := new_value]\<rparr>)
            else (Inl (bm_out_of_range index bm), bm))"

section \<open>Bits\<close>

text \<open>The bits that are set, as a set, and the blocks a length needs.\<close>

definition bits_of :: "bit_map \<Rightarrow> usize set" where
  "bits_of bm = {i. i < bm_length bm \<and> bit (bm_map bm ! (unat i div 8)) (unat i mod 8)}"

definition bm_inv :: "bit_map \<Rightarrow> bool" where
  "bm_inv bm \<longleftrightarrow> (unat (bm_length bm) + 7) div 8 = length (bm_map bm)"

lemma bm_position: "unat (bm_offset i) = unat i div 8" "unat (bm_limit i) = unat i mod 8"
  by (simp_all add: bm_offset_def bm_limit_def BLOCK_BIT_SIZE_def unat_div_distrib unat_mod_distrib)

lemma bm_block_in:
  assumes "bm_inv bm" and "i < bm_length bm"
  shows "unat i div 8 < length (bm_map bm)"
proof -
  have "unat i < unat (bm_length bm)" using assms(2) by (simp add: word_less_nat_alt)
  then have "unat i div 8 < (unat (bm_length bm) + 7) div 8" by linarith
  then show ?thesis using assms(1) by (simp add: bm_inv_def)
qed

lemma test_bit: "n < 8 \<Longrightarrow> 0 < (w AND 2 ^ n :: u8) \<longleftrightarrow> bit w n"
  by (simp add: word_greater_zero_iff and_exp_eq_0_iff_not_bit)

lemma clear_mask: "(255 - 2 ^ n :: u8) = NOT (2 ^ n)"
proof -
  have "(255 :: u8) = - 1" by simp
  then show ?thesis unfolding not_eq_complement by (simp only: diff_conv_add_uminus add.commute)
qed

lemma get_bit_in: "bm_inv bm \<Longrightarrow> i < bm_length bm \<Longrightarrow> get_bit i bm = Inr (i \<in> bits_of bm)"
  using bm_block_in [of bm i] by (simp add: get_bit_def bm_position test_bit bits_of_def)

lemma get_bit_out: "\<not> i < bm_length bm \<Longrightarrow> get_bit i bm = Inl (bm_out_of_range i bm)"
  by (simp add: get_bit_def)

lemma same_bit: "unat (i :: usize) div 8 = unat j div 8 \<Longrightarrow> unat i mod 8 = unat j mod 8 \<Longrightarrow> i = j"
  by (metis div_mult_mod_eq word_unat_eq_iff)

text \<open>Setting the bit changes that bit alone, and reports whether it changed.\<close>

lemma set_bit_in:
  assumes "bm_inv bm" and "i < bm_length bm"
  obtains bm' where "set_bit_to i value bm = (Inr ((i \<in> bits_of bm) \<noteq> value), bm')" and "bm_inv bm'"
    and "bm_length bm' = bm_length bm" and "bits_of bm' = (if value then insert i (bits_of bm) else bits_of bm - {i})"
proof (cases "(i \<in> bits_of bm) = value")
  case True
  then show ?thesis
    using get_bit_in [OF assms] assms(1) by (intro that [of bm]) (auto simp: set_bit_to_def)
next
  case False
  let ?o = "unat i div 8" let ?n = "unat i mod 8"
  let ?w = "bm_map bm ! ?o" let ?v = "if value then ?w OR push_bit ?n 1 else ?w AND NOT (push_bit ?n 1)"
  let ?bm = "bm\<lparr>bm_map := (bm_map bm)[?o := ?v]\<rparr>"
  note in_range = bm_block_in [OF assms]
  have v: "bit ?v n = (if n = ?n then value else bit ?w n)" if "n < 8" for n
    using that by (auto simp: bit_simps)
  have "bit (bm_map ?bm ! (unat j div 8)) (unat j mod 8) =
      (if j = i then value else bit (bm_map bm ! (unat j div 8)) (unat j mod 8))" if "j < bm_length bm" for j
    using v [of "unat j mod 8"] same_bit [of j i] in_range by (cases "unat j div 8 = ?o") auto
  then have "bits_of ?bm = (if value then insert i (bits_of bm) else bits_of bm - {i})"
    using assms(2) by (auto simp: bits_of_def split: if_splits)
  moreover have "set_bit_to i value bm = (Inr True, ?bm)"
    using False get_bit_in [OF assms] in_range by (auto simp: set_bit_to_def bm_position clear_mask Let_def)
  ultimately show ?thesis
    using False assms(1) by (intro that [of ?bm]) (auto simp: bm_inv_def)
qed

lemma bm_inv_new:
  assumes "len < - 7"
  shows "bm_inv (bit_map_new len)" and "bits_of (bit_map_new len) = {}" and "bm_length (bit_map_new len) = len"
proof -
  have "unat len + 7 < 2 ^ 64" using assms by (simp add: word_less_nat_alt)
  then have "unat ((len + (BLOCK_BIT_SIZE - 1)) div 8) = (unat len + 7) div 8"
    by (simp add: BLOCK_BIT_SIZE_def unat_div_distrib unat_word_ariths)
  then show inv: "bm_inv (bit_map_new len)" by (simp add: bm_inv_def bit_map_new_def)
  show "bits_of (bit_map_new len) = {}"
    using bm_block_in [OF inv] by (auto simp: bits_of_def bit_map_new_def)
  show "bm_length (bit_map_new len) = len" by (simp add: bit_map_new_def)
qed

section \<open>Histories\<close>

datatype bit_event = Get_Bit usize | Set_Bit usize bool

fun bit_run :: "bit_event list \<Rightarrow> bit_map \<Rightarrow> (bitmap_error + bool) list" where
  "bit_run [] bm = []"
| "bit_run (Get_Bit i # es) bm = get_bit i bm # bit_run es bm"
| "bit_run (Set_Bit i v # es) bm = (case set_bit_to i v bm of (r, bm') \<Rightarrow> r # bit_run es bm')"

text \<open>The answers of a set of indices below a length.\<close>

fun bit_answers :: "usize \<Rightarrow> bit_event list \<Rightarrow> usize set \<Rightarrow> (bitmap_error + bool) list" where
  "bit_answers len [] S = []"
| "bit_answers len (Get_Bit i # es) S =
     (if i < len then Inr (i \<in> S) else Inl (IndexOutOfRange i 0 len)) # bit_answers len es S"
| "bit_answers len (Set_Bit i v # es) S =
     (if i < len then Inr ((i \<in> S) \<noteq> v) # bit_answers len es (if v then insert i S else S - {i})
      else Inl (IndexOutOfRange i 0 len) # bit_answers len es S)"

lemma bit_run_answers:
  "bm_inv bm \<Longrightarrow> bit_run es bm = bit_answers (bm_length bm) es (bits_of bm)"
proof (induction es arbitrary: bm)
  case Nil
  then show ?case by simp
next
  case (Cons e es)
  show ?case
  proof (cases e)
    case (Get_Bit i)
    then show ?thesis
      using Cons by (cases "i < bm_length bm") (simp_all add: get_bit_in get_bit_out bm_out_of_range_def)
  next
    case (Set_Bit i v)
    show ?thesis
    proof (cases "i < bm_length bm")
      case True
      obtain bm' where "set_bit_to i v bm = (Inr ((i \<in> bits_of bm) \<noteq> v), bm')" "bm_inv bm'"
        "bm_length bm' = bm_length bm" "bits_of bm' = (if v then insert i (bits_of bm) else bits_of bm - {i})"
        by (rule set_bit_in [OF Cons.prems True])
      then show ?thesis using True Set_Bit Cons.IH [of bm'] by simp
    next
      case False
      then show ?thesis using Set_Bit Cons by (simp add: set_bit_to_def get_bit_out bm_out_of_range_def)
    qed
  qed
qed

text \<open>
  A bitmap behaves as a set of indices: every sequence of reads and writes of bits on a new
  bitmap is answered as by a set of the indices below its length, whether a write changed the bit
  and which indices are out of range included. The length must leave room for rounding it up to
  whole bytes.
\<close>

theorem bitmap_history:
  assumes "len < - 7"
  shows "bit_run es (bit_map_new len) = bit_answers len es {}"
  using bit_run_answers [OF bm_inv_new(1) [OF assms]] bm_inv_new(2,3) [OF assms] by simp

end
