(* ===== verification/Spec2Isabelle.thy ===== *)
theory Spec2Isabelle
  imports Kernel_Prelude Recyclers Page_Range_Contract Buffers Page_Table_Spec Area_Data User_Memory Sync_Properties
    Pipe_Properties Trap_Properties Wait_Properties Block_Device Bitmaps
begin

text \<open>
  Verification of the frontier kernel, a small operating system kernel in Rust for RISC-V with
  Sv39 paging. File names below, as in the other theories, are relative to the crate, so that
  src/memory/area.rs is the file src/src/memory/area.rs of the repository.

  \<^bold>\<open>The program.\<close> Hart 0 initialises the frame allocator and the kernel space, creates the first
  process from an ELF file and runs the scheduler (main.rs). A process owns an address space, tables
  of files and synchronisation objects, a signal block, and tasks; a task owns a kernel stack in
  the kernel space and a user stack and trap context page in the space of its process
  (task/model.rs). The processor runs one task at a time and takes the next from a ready queue; a
  heap of deadlines holds the sleeping tasks (task/process.rs, task/scheduler.rs). A trap from user
  mode saves the registers in the trap context and calls the trap handler, which runs a system
  call, sends a signal, or suspends the task, and handles the pending signals before it returns
  (trap, syscall, task/signal.rs). Spaces are built from areas on a page table of three levels, with
  allocators for frames, virtual page ranges and ids underneath (memory, task/allocator.rs). Pipes,
  the console and inodes are files (fs), mutexes, semaphores and condition variables are in sync, and
  a driver serves the file system with blocks (drivers).

  \<^bold>\<open>How the code is rendered.\<close> The kernel is built in release mode: arithmetic on \<open>usize\<close> is on
  64-bit words and wraps around. A function that can fail returns an \<open>outcome\<close>: \<open>Ok\<close>, \<open>Err\<close> with
  the error of lang/error.rs, \<open>Panic\<close> for every assertion, \<open>unwrap\<close> or index that fails, and \<open>Hang\<close>
  for a loop that does not end. A function that changes state is a function from the state to an
  outcome and the new state (\<open>kop\<close>), sequenced by \<open>kbind\<close>; the state is kept on errors, and what Rust
  drops on an early return is dropped by \<open>on_error\<close>. \<open>Arc\<close> references are indices into maps of
  blocks, and the strong counts the code asserts on are computed from the references in the state.
  A call that gives up the processor is cut there: it returns the rest of the call as data, and
  the scheduler may run other tasks before the next round. Crates outside the repository are
  records of functions (\<open>crates\<close>, \<open>elf_crate\<close>, \<open>signal_crate\<close>, \<open>fs_crate\<close>, \<open>sysid_crate\<close>,
  \<open>blk_device\<close>) which the definitions take as arguments; what the proofs need of them are the
  predicates \<open>crates_ok\<close>, \<open>signal_crate_ok\<close>, \<open>sysids_ok\<close> and \<open>device_ok\<close>, each with an instance that
  satisfies it. The linker symbols, the control registers and the clock are arguments too.

  \<^bold>\<open>The theories.\<close>

  \<^item> \<open>Kernel_Prelude\<close>: words, errors, outcomes, sequencing, and the lemmas on them. \<open>Configs\<close>,
    \<open>Crates\<close>, \<open>Ordered_Maps\<close>: configs.rs and lang/timer.rs, the crates that memory uses, \<open>BTreeMap\<close>.
  \<^item> \<open>Recyclers\<close>: the allocators of ids (task/allocator.rs) and of frames (memory/allocator.rs), both
    instances of the locale \<open>recycler\<close>. \<open>Phys_Memory\<close>: frames as words and bytes, frame trackers
    (memory/frame.rs).
  \<^item> \<open>Page_Range\<close>, \<open>Page_Range_Segments\<close>, \<open>Page_Range_Contract\<close>: the doubly linked list of page ranges
    of memory/allocator.rs over a store of nodes, what each branch of \<open>change\<close> does to the intervals,
    and that it is a set of pages (locale \<open>range_allocator\<close>).
  \<^item> \<open>Buffers\<close>: lang/buffer.rs, with the ring buffer as a bounded queue (locale \<open>byte_queue\<close>).
    \<open>Bitmaps\<close>: lang/bitmap.rs as a set of indices.
  \<^item> \<open>Addresses\<close>, \<open>Page_Table\<close>, \<open>Page_Tree\<close>, \<open>Page_Table_Inv\<close>, \<open>Page_Table_Map\<close>, \<open>Page_Table_Unmap\<close>,
    \<open>Page_Table_Spec\<close>: memory/page_table_riscv.rs: entries, the three levels of mappers in memory,
    the invariant, mapping and unmapping on every branch, and the contract \<open>page_mapping\<close>.
  \<^item> \<open>Areas\<close>, \<open>Area_Spec\<close>, \<open>Area_Data\<close>: memory/area.rs: creating and dropping an area, and its
    contents as one array of bytes.
  \<^item> \<open>Spaces\<close>, \<open>Space_Layout\<close>, \<open>Space_Spec\<close>, \<open>Space_Properties\<close>, \<open>User_Memory\<close>, \<open>Frame_Supply\<close>,
    \<open>Space_Pairs\<close>: memory/space.rs: the layout of stacks and trap contexts, the areas of a space,
    histories and isolation, access to user memory, how many frames are enough, and the kernel
    space beside the space of a process.
  \<^item> \<open>Trap_Context\<close>, \<open>Signals\<close>, \<open>Resource_Tables\<close>, \<open>Kernel_State\<close>: trap/context_riscv.rs and
    task/context.rs, task/signal.rs, the tables of a process (locale \<open>handle_table\<close>), and the
    state of the running kernel with the dropping of tasks.
  \<^item> \<open>Scheduler\<close>: task/scheduler.rs and the processor of task/process.rs. \<open>Sync\<close>: sync and
    syscall/sync.rs. \<open>Sync_System\<close>, \<open>Sync_Properties\<close>: tasks that lock, wait and signal in every
    interleaving, as a step relation, with the invariant and the locale \<open>mutex_trait\<close>.
  \<^item> \<open>Processes\<close>: creation, fork, exec, exit, wait and signals of task/model.rs and task/process.rs.
    \<open>Files\<close>: fs and lang/console.rs. \<open>Syscalls\<close>, \<open>Traps\<close>: syscall and trap/handler_riscv.rs.
    \<open>Startup\<close>: main.rs and the initialisation. \<open>Block_Device\<close>: drivers/blocks/virtio_blk.rs.
  \<^item> \<open>Pipe_Properties\<close>, \<open>Process_Properties\<close>, \<open>Wait_Properties\<close>, \<open>Trap_Properties\<close>: what pipes, the
    end of tasks and processes, waiting for a child, and whole traps do.

  \<^bold>\<open>What is shown.\<close>

  \<^item> Memory: a page table maps and unmaps exactly the page asked for or reports why not, hands out
    zeroed frames that nobody uses, and never panics; the list of page ranges and the areas of a
    space answer as sets of disjoint ranges do; operations on one space change neither translation
    nor contents of another; copying and writing areas and reading user memory yield exactly the
    bytes; stacks and trap contexts do not overlap; three free frames per page are enough for an area.
  \<^item> Tasks: in every interleaving mutexes exclude, no task is lost or doubled, waiters are not
    forgotten, semaphores count their waiters; ready tasks run in order and the timer interrupt wakes
    exactly the tasks that are due. The exit of a thread or process gives back what it owned, and
    waiting for an exited child hands over its exit code and gives back the rest.
  \<^item> Traps: a system call goes round the trap path and back with nothing else changed; a fault ends
    the task; signal delivery and return restore the interrupted context.
  \<^item> Files and devices: a pipe is a bounded stream of bytes in every interleaving; tables of handles
    give the lowest free handle; a written block is read back.
  \<^item> Start-up: no task runs before the kernel is initialised.
  \<^item> Failures, stated as theorems about the code as it is: exhausted frames panic while an area is
    created, a process cannot exit while a thread is blocked, two writers of a closed pipe wait for
    each other, a second hart may run, nested signals lose a context, a second fault panics, masked
    signals end the task, a buffer of a system call may be the trap context, the kill signal is ignored, killing another process ends the caller, a
    deadline beyond half the range stalls the timers, and the driver cannot give memory back.

  \<^bold>\<open>Fuel and bounds.\<close> Recursion that follows the heap of the program takes fuel, and running out is
  \<open>Hang\<close>: the walk along the page ranges takes the number of nodes of the store, and
  \<open>page_range_history\<close> shows that it never hangs; the scheduling loop takes one round more than there
  are ready and sleeping tasks, since a round that does not return drops a task; the end of a
  tree of processes takes one level more than processes were ever created. The loops over user
  memory recurse on the remaining length. The bounds in hypotheses are those of Sv39: page numbers
  below \<open>2 ^ 27\<close>, frames below \<open>2 ^ 44\<close>, and ids for which the layout stays below the trampoline.

  \<^bold>\<open>Not modelled.\<close> The firmware calls (sbi), the assembly that enters the kernel, saves registers and
  switches tasks, and the control registers it sets (task/switch.rs, trap/mod.rs, \<open>activate\<close> of
  a space): they have no effect on the state of the model except through the arguments named above.
  The kernel heap, the logger, the panic handler and the macros: memory for Rust values is not
  exhausted in the model, output of messages has no state, and a panic is an outcome. The \<open>RefCell\<close>
  wrapper of lang/container.rs: where a second borrow can happen the operation has that panic as a
  branch. Probing the block device, which is a call into the driver crate. Translation caches: a
  change of the page table takes effect at once.
\<close>

end
